(* ===== verification/Flux_Prelude.thy ===== *)
theory Flux_Prelude
  imports Complex_Main "HOL-Library.Word"
begin

unbundle bit_operations_syntax

text \<open>
  The prelude of the FluxVM development: the machine integers and byte strings the Rust code
  uses, little-endian encoding as \<^verbatim>\<open>to_le_bytes\<close> and \<^verbatim>\<open>from_le_bytes\<close> compute it, the error type
  of the hypervisor crate (\<^verbatim>\<open>src/crates/fluxvm-hypervisor/src/error.rs\<close>), Rust results as sums
  (\<open>Inl\<close> is \<^verbatim>\<open>Err\<close>, \<open>Inr\<close> is \<^verbatim>\<open>Ok\<close>), operations that both mutate a state and may fail, and a
  locale for invariants of step relations.

  \<^verbatim>\<open>usize\<close> values are naturals; where the code checks them for overflow the 64-bit bound is
  written out. Unchecked \<^verbatim>\<open>+\<close> on \<^verbatim>\<open>u16\<close>, \<^verbatim>\<open>u32\<close> and \<^verbatim>\<open>u64\<close> is word addition, which wraps as the
  release profile of the workspace does.
\<close>

section \<open>Collections\<close>

named_theorems result_simps \<open>unfolding of results and of state-and-error operations\<close>
named_theorems le_simps \<open>little-endian encoding and decoding\<close>
named_theorems mem_frame \<open>what a write to guest memory leaves alone\<close>

section \<open>Machine integers\<close>

type_synonym u8 = "8 word"
type_synonym u16 = "16 word"
type_synonym u32 = "32 word"
type_synonym u64 = "64 word"

text \<open>\<^verbatim>\<open>checked_add\<close>, \<^verbatim>\<open>checked_mul\<close>, \<^verbatim>\<open>saturating_add\<close> and \<^verbatim>\<open>saturating_sub\<close> of the Rust core library.\<close>

definition checked_add :: "'a::len word \<Rightarrow> 'a word \<Rightarrow> 'a word option" where
  "checked_add a b = (if unat a + unat b < 2 ^ LENGTH('a) then Some (a + b) else None)"

definition checked_mul :: "'a::len word \<Rightarrow> 'a word \<Rightarrow> 'a word option" where
  "checked_mul a b = (if unat a * unat b < 2 ^ LENGTH('a) then Some (a * b) else None)"

definition saturating_add :: "'a::len word \<Rightarrow> 'a word \<Rightarrow> 'a word" where
  "saturating_add a b = (if unat a + unat b < 2 ^ LENGTH('a) then a + b else - 1)"

definition saturating_sub :: "'a::len word \<Rightarrow> 'a word \<Rightarrow> 'a word" where
  "saturating_sub a b = (if a \<le> b then 0 else a - b)"

section \<open>Little-endian bytes\<close>

primrec le_list :: "nat \<Rightarrow> nat \<Rightarrow> u8 list" where
  "le_list 0 x = []"
| "le_list (Suc n) x = of_nat (x mod 256) # le_list n (x div 256)"

primrec le_val :: "u8 list \<Rightarrow> nat" where
  "le_val [] = 0"
| "le_val (b # bs) = unat b + 256 * le_val bs"

definition u16_to_le :: "u16 \<Rightarrow> u8 list" where "u16_to_le w = le_list 2 (unat w)"
definition u32_to_le :: "u32 \<Rightarrow> u8 list" where "u32_to_le w = le_list 4 (unat w)"
definition u64_to_le :: "u64 \<Rightarrow> u8 list" where "u64_to_le w = le_list 8 (unat w)"

definition u16_from_le :: "u8 list \<Rightarrow> u16" where "u16_from_le bs = of_nat (le_val bs)"
definition u32_from_le :: "u8 list \<Rightarrow> u32" where "u32_from_le bs = of_nat (le_val bs)"
definition u64_from_le :: "u8 list \<Rightarrow> u64" where "u64_from_le bs = of_nat (le_val bs)"

definition u16_from_be :: "u8 \<Rightarrow> u8 \<Rightarrow> u16" where
  "u16_from_be hi lo = of_nat (256 * unat hi + unat lo)"

text \<open>A half-open slice \<^verbatim>\<open>xs[a..b]\<close> of a list, for bounds the code has checked.\<close>

definition slice :: "nat \<Rightarrow> nat \<Rightarrow> 'a list \<Rightarrow> 'a list" where
  "slice a b xs = take (b - a) (drop a xs)"

section \<open>Results and errors\<close>

datatype FluxError =
    Hypervisor string
  | Memory string
  | Device string string
  | Boot string
  | Network string
  | Unsupported string
  | Io string

type_synonym 'a result = "FluxError + 'a"

text \<open>
  A Rust function with a \<^verbatim>\<open>&mut\<close> argument and a \<^verbatim>\<open>Result\<close>: the state is returned on the error
  path too, because what was written before the failing step stays written.
\<close>

type_synonym ('s, 'a) op = "'s \<Rightarrow> 'a result \<times> 's"

definition ret :: "'a \<Rightarrow> ('s, 'a) op" where
  "ret a s = (Inr a, s)"

definition fail :: "FluxError \<Rightarrow> ('s, 'a) op" where
  "fail e s = (Inl e, s)"

definition bnd :: "('s, 'a) op \<Rightarrow> ('a \<Rightarrow> ('s, 'b) op) \<Rightarrow> ('s, 'b) op" where
  "bnd f g s = (case f s of (Inl e, s') \<Rightarrow> (Inl e, s') | (Inr a, s') \<Rightarrow> g a s')"

definition reads :: "('s \<Rightarrow> 'a result) \<Rightarrow> ('s, 'a) op" where
  "reads f s = (f s, s)"

definition rbind :: "'a result \<Rightarrow> ('a \<Rightarrow> 'b result) \<Rightarrow> 'b result" where
  "rbind r f = (case r of Inl e \<Rightarrow> Inl e | Inr a \<Rightarrow> f a)"

definition is_err :: "'e + 'a \<Rightarrow> bool" where
  "is_err r = (case r of Inl _ \<Rightarrow> True | Inr _ \<Rightarrow> False)"

text \<open>A computation that may panic (an index or slice out of range, which unwinds the thread).\<close>

datatype 'a may_panic = Panic | Done 'a

section \<open>Lemmas\<close>

lemmas result_defs = ret_def fail_def bnd_def reads_def rbind_def

lemma ret_apply [simp]: "ret a s = (Inr a, s)"
  by (simp add: ret_def)

lemma fail_apply [simp]: "fail e s = (Inl e, s)"
  by (simp add: fail_def)

lemma reads_apply [simp]: "reads f s = (f s, s)"
  by (simp add: reads_def)

lemma bnd_Inr [simp]: "f s = (Inr a, s') \<Longrightarrow> bnd f g s = g a s'"
  by (simp add: bnd_def)

lemma bnd_Inl [simp]: "f s = (Inl e, s') \<Longrightarrow> bnd f g s = (Inl e, s')"
  by (simp add: bnd_def)

lemma bnd_eq_Inr [result_simps]:
  "bnd f g s = (Inr b, s'') \<longleftrightarrow> (\<exists>a s'. f s = (Inr a, s') \<and> g a s' = (Inr b, s''))"
  by (auto simp: bnd_def split: prod.splits sum.splits)

lemma rbind_simps [simp]:
  "rbind (Inl e) f = Inl e"
  "rbind (Inr a) f = f a"
  by (simp_all add: rbind_def)

lemma rbind_eq_Inr [result_simps]: "rbind r f = Inr b \<longleftrightarrow> (\<exists>a. r = Inr a \<and> f a = Inr b)"
  by (cases r) auto

lemma is_err_simps [simp]:
  "is_err (Inl e)"
  "\<not> is_err (Inr a)"
  by (simp_all add: is_err_def)

lemma not_is_err_iff: "\<not> is_err r \<longleftrightarrow> (\<exists>a. r = Inr a)"
  by (cases r) auto

lemma map_sum_eq_Inr [result_simps]: "map_sum id f r = Inr b \<longleftrightarrow> (\<exists>a. r = Inr a \<and> b = f a)"
  by (cases r) auto

lemma length_le_list [simp]: "length (le_list n x) = n"
  by (induction n arbitrary: x) auto

lemma le_list_numeral [simp]:
  "le_list (numeral k) x = of_nat (x mod 256) # le_list (pred_numeral k) (x div 256)"
  by (simp only: numeral_eq_Suc [of k] le_list.simps)

lemma unat_u8_of_nat [simp]: "unat (of_nat (x mod 256) :: u8) = x mod 256"
  by (simp add: unat_of_nat)

lemma le_val_le_list [le_simps]: "le_val (le_list n x) = x mod 256 ^ n"
proof (induction n arbitrary: x)
  case 0
  then show ?case by simp
next
  case (Suc n)
  have "le_val (le_list (Suc n) x) = x mod 256 + 256 * ((x div 256) mod 256 ^ n)"
    using Suc.IH by simp
  also have "\<dots> = x mod (256 * 256 ^ n)"
    by (simp add: mod_mult2_eq)
  finally show ?case by simp
qed

lemma le_val_bound: "le_val bs < 256 ^ length bs"
proof (induction bs)
  case Nil
  then show ?case by simp
next
  case (Cons b bs)
  have "unat b < 256" using unsigned_less [of b] by simp
  with Cons have "unat b + 256 * le_val bs < 256 * (le_val bs + 1)" by simp
  also have "\<dots> \<le> 256 * 256 ^ length bs" using Cons by (intro mult_le_mono2) simp
  finally show ?case by simp
qed

lemma le_list_le_val [le_simps]: "n = length bs \<Longrightarrow> le_list n (le_val bs) = bs"
proof (induction bs arbitrary: n)
  case Nil
  then show ?case by simp
next
  case (Cons b bs)
  have b: "unat b < 256" using unsigned_less [of b] by simp
  have "(unat b + 256 * le_val bs) mod 256 = unat b" using b by simp
  moreover have "(unat b + 256 * le_val bs) div 256 = le_val bs" using b by simp
  ultimately show ?case using Cons by simp
qed

lemma length_to_le [simp]:
  "length (u16_to_le a) = 2"
  "length (u32_to_le b) = 4"
  "length (u64_to_le c) = 8"
  by (simp_all only: u16_to_le_def u32_to_le_def u64_to_le_def length_le_list)

lemma unat_bounds:
  "unat (a :: u8) < 256"
  "unat (b :: u16) < 65536"
  "unat (c :: u32) < 4294967296"
  "unat (d :: u64) < 18446744073709551616"
  using unsigned_less [of a] unsigned_less [of b] unsigned_less [of c] unsigned_less [of d]
  by simp_all

lemma from_to_le [simp, le_simps]:
  "u16_from_le (u16_to_le a) = a"
  "u32_from_le (u32_to_le b) = b"
  "u64_from_le (u64_to_le c) = c"
  using unat_bounds(2) [of a] unat_bounds(3) [of b] unat_bounds(4) [of c]
  by (simp_all add: u16_to_le_def u16_from_le_def u32_to_le_def u32_from_le_def
      u64_to_le_def u64_from_le_def le_val_le_list del: le_list_numeral)

lemma unat_from_le:
  "length bs = 2 \<Longrightarrow> unat (u16_from_le bs) = le_val bs"
  "length bs = 4 \<Longrightarrow> unat (u32_from_le bs) = le_val bs"
  "length bs = 8 \<Longrightarrow> unat (u64_from_le bs) = le_val bs"
  using le_val_bound [of bs]
  by (simp_all add: u16_from_le_def u32_from_le_def u64_from_le_def unat_of_nat)

lemma to_from_le [le_simps]:
  "length bs = 2 \<Longrightarrow> u16_to_le (u16_from_le bs) = bs"
  "length bs = 4 \<Longrightarrow> u32_to_le (u32_from_le bs) = bs"
  "length bs = 8 \<Longrightarrow> u64_to_le (u64_from_le bs) = bs"
  by (simp_all add: u16_to_le_def u32_to_le_def u64_to_le_def unat_from_le le_list_le_val
      del: le_list_numeral)

lemma length_slice [simp]: "length (slice a b xs) = min (b - a) (length xs - a)"
  by (simp add: slice_def)

lemma slice_append_left: "b \<le> length xs \<Longrightarrow> slice a b (xs @ ys) = slice a b xs"
  by (simp add: slice_def)

lemma slice_append_right:
  "length xs \<le> a \<Longrightarrow> slice a b (xs @ ys) = slice (a - length xs) (b - length xs) ys"
  by (cases "a \<le> b") (simp_all add: slice_def)

lemma slice_all [simp]: "b = length xs \<Longrightarrow> slice 0 b xs = xs"
  by (simp add: slice_def)

lemma checked_add_eq_Some:
  "checked_add a b = Some c \<longleftrightarrow> unat a + unat b < 2 ^ LENGTH('a) \<and> c = a + (b :: 'a::len word)"
  by (auto simp: checked_add_def)

lemma unat_add_no_wrap:
  "unat a + unat b < 2 ^ LENGTH('a) \<Longrightarrow> unat (a + b :: 'a::len word) = unat a + unat b"
  by (simp add: unat_word_ariths)

lemma unat_mult_no_wrap:
  "unat a * unat b < 2 ^ LENGTH('a) \<Longrightarrow> unat (a * b :: 'a::len word) = unat a * unat b"
  by (simp add: unat_word_ariths)

lemma unat_ucast_up:
  assumes "LENGTH('a) \<le> LENGTH('b)"
  shows "unat (ucast (w :: 'a::len word) :: 'b::len word) = unat w"
proof -
  have "unat w < 2 ^ LENGTH('a)" by simp
  also have "\<dots> \<le> 2 ^ LENGTH('b)" using assms by (simp add: power_increasing)
  finally show ?thesis by (simp add: unsigned_ucast_eq take_bit_nat_eq_self)
qed

lemma unat_ucast_widen [simp]:
  "unat (ucast (a :: u8) :: u16) = unat a"
  "unat (ucast (a :: u8) :: u32) = unat a"
  "unat (ucast (a :: u8) :: u64) = unat a"
  "unat (ucast (b :: u16) :: u32) = unat b"
  "unat (ucast (b :: u16) :: u64) = unat b"
  "unat (ucast (c :: u32) :: u64) = unat c"
  by (simp_all add: unat_ucast_up)

lemma unat_saturating_add:
  "unat (saturating_add a (b :: 'a::len word)) = min (unat a + unat b) (2 ^ LENGTH('a) - 1)"
  by (auto simp: saturating_add_def unat_add_no_wrap unsigned_minus_1_eq_mask mask_eq_exp_minus_1)

lemma unat_saturating_sub:
  "unat (saturating_sub a (b :: 'a::len word)) = unat a - unat b"
  by (auto simp: saturating_sub_def word_le_nat_alt unat_sub)

lemma length_slice_in: "b \<le> length xs \<Longrightarrow> length (slice a b xs) = b - a"
  by (simp add: slice_def)

lemma nth_slice [simp]: "a + j < b \<Longrightarrow> b \<le> length xs \<Longrightarrow> slice a b xs ! j = xs ! (a + j)"
  by (simp add: slice_def)

lemma slice_join: "slice a (a + b) xs @ slice (a + b) (a + (b + c)) xs = slice a (a + (b + c)) xs"
  by (simp add: slice_def take_add) (simp add: add.commute)

lemma slice_take_drop:
  "take l (slice a (a + (l + k)) xs) = slice a (a + l) xs"
  "drop l (slice a (a + (l + k)) xs) = slice (a + l) (a + l + k) xs"
  by (simp_all add: slice_def drop_take add.commute)

lemma unat_add_of_nat:
  assumes "unat (a :: u64) + n < 2 ^ 64"
  shows "unat (a + of_nat n) = unat a + n"
  using assms by (subst unat_add_no_wrap) (auto simp: unat_of_nat)

section \<open>Invariants of step relations\<close>

text \<open>
  The contract every state machine of the development is checked against: an invariant that
  holds initially and that every step keeps holds after every run. Runs are explicit sequences
  of events, so an interleaving of guest and host actions is one list.
\<close>

locale step_system =
  fixes stp :: "'e \<Rightarrow> 's \<Rightarrow> 's"
    and invar :: "'s \<Rightarrow> bool"
  assumes invar_step: "invar s \<Longrightarrow> invar (stp e s)"
begin

lemma invar_run: "invar s \<Longrightarrow> invar (fold stp es s)"
  by (induction es arbitrary: s) (auto simp: invar_step)

end

end
