(* ===== verification/Guest_Memory.thy ===== *)
theory Guest_Memory
  imports Flux_Prelude
begin

text \<open>
  Guest RAM, \<^verbatim>\<open>src/crates/fluxvm-hypervisor/src/memory.rs\<close>. The mapping is a function from offsets
  to bytes with the length of the mapping; \<open>write_at\<close> and \<open>read_at\<close> keep the order of the code's
  checks (address overflow first, then the end of RAM). The outcome of \<^verbatim>\<open>mmap\<close> and the process
  environment are arguments. Contract: the locale \<open>byte_store\<close>, interpreted on \<open>read_at\<close> and
  \<open>write_at\<close>; the device theories use its facts.
\<close>

section \<open>Definitions\<close>

record GuestMemory =
  ram :: "nat \<Rightarrow> u8"
  ram_len :: nat

definition allocate :: "bool \<Rightarrow> nat \<Rightarrow> GuestMemory result" where
  "allocate mmap_ok len =
     (if len = 0 \<or> len mod 4096 \<noteq> 0 then Inl (Memory ''size must be non-zero and 4 KiB aligned'')
      else if \<not> mmap_ok then Inl (Memory ''mmap guest ram failed'')
      else Inr \<lparr>ram = (\<lambda>_. 0), ram_len = len\<rparr>)"

text \<open>
  \<open>env_set\<close> tells which of the environment flags are \<^verbatim>\<open>"1"\<close>; the file is its byte list, or \<open>None\<close>
  when its metadata cannot be read.
\<close>

definition remap_private_file ::
  "(string \<Rightarrow> bool) \<Rightarrow> u8 list option \<Rightarrow> bool \<Rightarrow> (GuestMemory, unit) op" where
  "remap_private_file env_set file mmap_ok m =
     (if env_set ''FLUXVM_KVM_LOCK_MEM'' \<or> env_set ''FLUXVM_HUGEPAGES''
      then (Inl (Memory ''file-backed restore is incompatible with mlock/hugepage guest RAM''), m)
      else if env_set ''FLUXVM_KVM_EAGER_RESTORE''
      then (Inl (Memory ''FLUXVM_KVM_EAGER_RESTORE=1 forces the eager copy''), m)
      else case file of
          None \<Rightarrow> (Inl (Memory ''metadata''), m)
        | Some content \<Rightarrow>
            if length content \<noteq> ram_len m
            then (Inl (Memory ''snapshot RAM size does not match guest RAM''), m)
            else if \<not> mmap_ok then (Inl (Memory ''mmap snapshot RAM failed''), m)
            else (Inr (), m\<lparr>ram := (\<lambda>i. if i < length content then content ! i else ram m i)\<rparr>))"

definition write_at :: "u64 \<Rightarrow> u8 list \<Rightarrow> (GuestMemory, unit) op" where
  "write_at gpa data m =
     (let start = unat gpa; stop = start + length data
      in if stop \<ge> 2 ^ 64 then (Inl (Memory ''GPA overflow''), m)
         else if stop > ram_len m then (Inl (Memory ''write GPA past RAM''), m)
         else (Inr (),
               m\<lparr>ram := (\<lambda>i. if start \<le> i \<and> i < stop then data ! (i - start) else ram m i)\<rparr>))"

definition read_at :: "u64 \<Rightarrow> nat \<Rightarrow> GuestMemory \<Rightarrow> u8 list result" where
  "read_at gpa n m =
     (let start = unat gpa; stop = start + n
      in if stop \<ge> 2 ^ 64 then Inl (Memory ''GPA overflow'')
         else if stop > ram_len m then Inl (Memory ''read GPA past RAM'')
         else Inr (map (ram m) [start..<stop]))"

definition read_u16 :: "u64 \<Rightarrow> GuestMemory \<Rightarrow> u16 result" where
  "read_u16 gpa m = rbind (read_at gpa 2 m) (\<lambda>b. Inr (u16_from_le b))"

definition write_u16 :: "u64 \<Rightarrow> u16 \<Rightarrow> (GuestMemory, unit) op" where
  "write_u16 gpa v = write_at gpa (u16_to_le v)"

text \<open>
  The page operations of the balloon, as the range the \<^verbatim>\<open>madvise\<close> call or the touching read is made
  on. What the kernel does to such a range is an argument of the balloon model.
\<close>

definition advise_dontneed :: "GuestMemory \<Rightarrow> u64 \<Rightarrow> nat \<Rightarrow> (nat \<times> nat) option" where
  "advise_dontneed m gpa len =
     (let start = unat gpa
      in if min (start + len) (2 ^ 64 - 1) > ram_len m then None else Some (start, len))"

definition touch_page :: "GuestMemory \<Rightarrow> u64 \<Rightarrow> nat option" where
  "touch_page m gpa =
     (let start = unat gpa in if start + 1 > ram_len m then None else Some start)"

text \<open>A mapping fits the host address space.\<close>

definition mem_ok :: "GuestMemory \<Rightarrow> bool" where
  "mem_ok m \<longleftrightarrow> ram_len m < 2 ^ 64"

text \<open>The bytes of a guest range, and a guest range overwritten, without the bounds checks.\<close>

definition peek :: "nat \<Rightarrow> nat \<Rightarrow> GuestMemory \<Rightarrow> u8 list" where
  "peek a n m = map (ram m) [a..<a + n]"

definition poke :: "nat \<Rightarrow> u8 list \<Rightarrow> GuestMemory \<Rightarrow> GuestMemory" where
  "poke a d m = m\<lparr>ram := (\<lambda>i. if a \<le> i \<and> i < a + length d then d ! (i - a) else ram m i)\<rparr>"

section \<open>The interface\<close>

text \<open>
  What the devices rely on: a read succeeds exactly inside RAM; a failing write changes nothing; a
  write is read back, and leaves disjoint ranges and the size alone.
\<close>

definition apart :: "u64 \<Rightarrow> nat \<Rightarrow> u64 \<Rightarrow> nat \<Rightarrow> bool" where
  "apart a n b k \<longleftrightarrow> unat a + n \<le> unat b \<or> unat b + k \<le> unat a"

locale byte_store =
  fixes rd :: "u64 \<Rightarrow> nat \<Rightarrow> 'm \<Rightarrow> u8 list result"
    and wr :: "u64 \<Rightarrow> u8 list \<Rightarrow> ('m, unit) op"
    and sz :: "'m \<Rightarrow> nat"
    and wf :: "'m \<Rightarrow> bool"
  assumes rd_ok: "wf m \<Longrightarrow> (\<exists>bs. rd a n m = Inr bs) \<longleftrightarrow> unat a + n \<le> sz m"
    and rd_length: "rd a n m = Inr bs \<Longrightarrow> length bs = n"
    and wr_ok: "wf m \<Longrightarrow> fst (wr a d m) = Inr () \<longleftrightarrow> unat a + length d \<le> sz m"
    and wr_err: "fst (wr a d m) = Inl e \<Longrightarrow> snd (wr a d m) = m"
    and wr_wf: "wf m \<Longrightarrow> wf (snd (wr a d m))"
    and wr_sz: "sz (snd (wr a d m)) = sz m"
    and rd_same: "wr a d m = (Inr (), m') \<Longrightarrow> rd a (length d) m' = Inr d"
    and rd_apart: "wr a d m = (Inr (), m') \<Longrightarrow> apart a (length d) b n \<Longrightarrow> rd b n m' = rd b n m"
begin

lemma wr_succeeds:
  assumes "wf m" and "unat a + length d \<le> sz m"
  obtains m' where "wr a d m = (Inr (), m')" and "wf m'" and "sz m' = sz m"
proof -
  obtain r m' where w: "wr a d m = (r, m')" by fastforce
  from assms have "fst (wr a d m) = Inr ()" using wr_ok by blast
  with w have "wr a d m = (Inr (), m')" by simp
  moreover have "wf m'" using wr_wf [OF assms(1), of a d] w by simp
  moreover have "sz m' = sz m" using wr_sz [of a d m] w by simp
  ultimately show thesis using that by blast
qed

fun wr_seq :: "(u64 \<times> u8 list) list \<Rightarrow> ('m, unit) op" where
  "wr_seq [] m = (Inr (), m)"
| "wr_seq ((a, d) # ws) m = bnd (wr a d) (\<lambda>_. wr_seq ws) m"

lemma rd_wr_seq_apart:
  assumes "wr_seq ws m = (Inr (), m')"
    and "\<And>a d. (a, d) \<in> set ws \<Longrightarrow> apart a (length d) b n"
  shows "rd b n m' = rd b n m"
  using assms
proof (induction ws arbitrary: m)
  case Nil
  then show ?case by simp
next
  case (Cons w ws)
  obtain a d where w: "w = (a, d)" by (cases w)
  with Cons.prems(1) obtain m1 where
    m1: "wr a d m = (Inr (), m1)" "wr_seq ws m1 = (Inr (), m')"
    by (auto simp: bnd_eq_Inr)
  have "rd b n m' = rd b n m1"
    using m1(2) Cons.prems(2) by (intro Cons.IH) auto
  also have "\<dots> = rd b n m"
    using m1(1) Cons.prems(2) w by (intro rd_apart) auto
  finally show ?case .
qed

lemma rd_wr_seq_image:
  assumes "wr_seq ws m = (Inr (), m')" and "(a, d) \<in> set ws"
    and "sorted_wrt (\<lambda>(a, d) (b, e). apart a (length d) b (length e)) ws"
  shows "rd a (length d) m' = Inr d"
  using assms
proof (induction ws arbitrary: m)
  case (Cons w ws)
  obtain b e where w: "w = (b, e)" by (cases w)
  with Cons.prems(1) obtain m1 where m1: "wr b e m = (Inr (), m1)" "wr_seq ws m1 = (Inr (), m')"
    by (auto simp: bnd_eq_Inr)
  show ?case
  proof (cases "(a, d) = w")
    case True
    have "rd a (length d) m' = rd a (length d) m1"
      by (rule rd_wr_seq_apart [OF m1(2)]) (use Cons.prems(3) True in \<open>auto simp: apart_def\<close>)
    then show ?thesis using True w rd_same [OF m1(1)] by simp
  next
    case False
    then show ?thesis using Cons m1(2) by auto
  qed
qed simp

lemma wr_seq_append:
  "wr_seq (xs @ ys) m = (Inr (), m') \<longleftrightarrow> (\<exists>m1. wr_seq xs m = (Inr (), m1) \<and> wr_seq ys m1 = (Inr (), m'))"
  by (induction xs m rule: wr_seq.induct) (auto simp: bnd_eq_Inr)

lemma wr_seq_sz: "sz (snd (wr_seq ws m)) = sz m"
proof (induction ws m rule: wr_seq.induct)
  case (1 m)
  then show ?case by simp
next
  case (2 a d ws m)
  then show ?case
    using wr_sz [of a d m] by (auto simp: bnd_def split: prod.splits sum.splits)
qed

lemma wr_seq_ok:
  assumes "wf m" and "\<And>a d. (a, d) \<in> set ws \<Longrightarrow> unat a + length d \<le> sz m"
  shows "\<exists>m'. wr_seq ws m = (Inr (), m') \<and> wf m' \<and> sz m' = sz m"
  using assms
proof (induction ws arbitrary: m)
  case Nil
  then show ?case by simp
next
  case (Cons w ws)
  obtain a d where w: "w = (a, d)" by (cases w)
  have "unat a + length d \<le> sz m" using Cons.prems(2) w by auto
  then obtain m1 where m1: "wr a d m = (Inr (), m1)" "wf m1" "sz m1 = sz m"
    using wr_succeeds [OF Cons.prems(1)] by blast
  have "\<exists>m'. wr_seq ws m1 = (Inr (), m') \<and> wf m' \<and> sz m' = sz m1"
    using Cons.prems(2) m1 by (intro Cons.IH) auto
  with m1 w show ?case by auto
qed

end

section \<open>Guest RAM provides the interface\<close>

lemma apart_commute: "apart a n b k \<longleftrightarrow> apart b k a n"
  by (auto simp: apart_def)

lemma map_nth_shift:
  assumes "n = length d"
  shows "map (\<lambda>i. d ! (i - s)) [s..<s + n] = d"
  by (rule nth_equalityI) (auto simp: assms)

lemma read_at_Inr:
  "read_at gpa n m = Inr bs \<longleftrightarrow>
     unat gpa + n < 2 ^ 64 \<and> unat gpa + n \<le> ram_len m \<and> bs = map (ram m) [unat gpa..<unat gpa + n]"
  by (auto simp: read_at_def Let_def)

lemma write_at_Inr:
  "write_at gpa d m = (Inr (), m') \<longleftrightarrow>
     unat gpa + length d < 2 ^ 64 \<and> unat gpa + length d \<le> ram_len m \<and>
     m' = m\<lparr>ram := (\<lambda>i. if unat gpa \<le> i \<and> i < unat gpa + length d
                       then d ! (i - unat gpa) else ram m i)\<rparr>"
  by (auto simp: write_at_def Let_def)

lemma write_at_Inl: "write_at gpa d m = (Inl e, m') \<Longrightarrow> m' = m"
  by (auto simp: write_at_def Let_def split: if_splits)

lemma write_at_cases:
  obtains (ok) "write_at gpa d m =
      (Inr (), m\<lparr>ram := (\<lambda>i. if unat gpa \<le> i \<and> i < unat gpa + length d
                            then d ! (i - unat gpa) else ram m i)\<rparr>)"
      and "unat gpa + length d < 2 ^ 64" and "unat gpa + length d \<le> ram_len m"
  | (err) e where "write_at gpa d m = (Inl e, m)"
      and "unat gpa + length d \<ge> 2 ^ 64 \<or> unat gpa + length d > ram_len m"
proof (cases "unat gpa + length d \<ge> 2 ^ 64 \<or> unat gpa + length d > ram_len m")
  case True
  then have "\<exists>e. write_at gpa d m = (Inl e, m)"
    by (auto simp: write_at_def Let_def)
  with True show thesis using err by blast
next
  case False
  then show thesis by (intro ok) (auto simp: write_at_def Let_def)
qed

interpretation gm: byte_store read_at write_at ram_len mem_ok
proof
  fix m :: GuestMemory and a b :: u64 and n :: nat and d bs :: "u8 list" and e m'
  show "mem_ok m \<Longrightarrow> (\<exists>bs. read_at a n m = Inr bs) \<longleftrightarrow> unat a + n \<le> ram_len m"
    by (auto simp: read_at_Inr mem_ok_def)
  show "read_at a n m = Inr bs \<Longrightarrow> length bs = n"
    by (auto simp: read_at_Inr)
  show "mem_ok m \<Longrightarrow> fst (write_at a d m) = Inr () \<longleftrightarrow> unat a + length d \<le> ram_len m"
    by (rule write_at_cases [of a d m]) (auto simp: mem_ok_def)
  show "fst (write_at a d m) = Inl e \<Longrightarrow> snd (write_at a d m) = m"
    by (rule write_at_cases [of a d m]) auto
  show "mem_ok m \<Longrightarrow> mem_ok (snd (write_at a d m))"
    by (rule write_at_cases [of a d m]) (auto simp: mem_ok_def)
  show "ram_len (snd (write_at a d m)) = ram_len m"
    by (rule write_at_cases [of a d m]) auto
  show "write_at a d m = (Inr (), m') \<Longrightarrow> read_at a (length d) m' = Inr d"
    by (auto simp: write_at_Inr read_at_Inr intro!: nth_equalityI)
  show "write_at a d m = (Inr (), m') \<Longrightarrow> apart a (length d) b n \<Longrightarrow>
      read_at b n m' = read_at b n m"
    by (auto simp: write_at_Inr read_at_def Let_def apart_def)
qed

lemma read_u16_Inr:
  "read_u16 gpa m = Inr v \<longleftrightarrow> (\<exists>b. read_at gpa 2 m = Inr b \<and> v = u16_from_le b)"
  by (auto simp: read_u16_def result_simps)

lemma write_at_ram_len [simp]: "ram_len (snd (write_at gpa d m)) = ram_len m"
  by (rule gm.wr_sz)

lemma write_u16_ram_len [simp]: "ram_len (snd (write_u16 gpa v m)) = ram_len m"
  by (simp add: write_u16_def)

lemma ram_write_at_other [mem_frame]:
  "i < unat gpa \<or> unat gpa + length d \<le> i \<Longrightarrow> ram (snd (write_at gpa d m)) i = ram m i"
  by (rule write_at_cases [of gpa d m]) auto

lemma length_peek [simp]: "length (peek a n m) = n"
  by (simp add: peek_def)

lemma ram_len_poke [simp]: "ram_len (poke a d m) = ram_len m"
  by (simp add: poke_def)

lemma ram_poke: "ram (poke a d m) i = (if a \<le> i \<and> i < a + length d then d ! (i - a) else ram m i)"
  by (simp add: poke_def)

lemma GuestMemory_eqI: "(\<And>i. ram m i = ram m' i) \<Longrightarrow> ram_len m = ram_len m' \<Longrightarrow> m = m'"
  for m m' :: GuestMemory
  by (cases m; cases m') auto

lemma poke_Nil [simp]: "poke a [] m = m"
  by (rule GuestMemory_eqI) (auto simp: ram_poke)

lemma poke_append: "poke (a + length x) y (poke a x m) = poke a (x @ y) m"
  by (rule GuestMemory_eqI) (auto simp: ram_poke nth_append)

lemma peek_append: "peek a n m @ peek (a + n) k m = peek a (n + k) m"
  using upt_add_eq_append [of a "a + n" k] by (simp add: peek_def add.assoc)

lemma peek_poke_same: "n = length d \<Longrightarrow> peek a n (poke a d m) = d"
  by (auto simp: peek_def poke_def intro: nth_equalityI)

lemma peek_poke_other: "b + n \<le> a \<or> a + length d \<le> b \<Longrightarrow> peek b n (poke a d m) = peek b n m"
  by (auto simp: peek_def poke_def)

lemma mem_ok_poke [simp]: "mem_ok (poke a d m) = mem_ok m"
  by (simp add: mem_ok_def)

lemma read_at_peek:
  "mem_ok m \<Longrightarrow> unat gpa + n \<le> ram_len m \<Longrightarrow> read_at gpa n m = Inr (peek (unat gpa) n m)"
  by (simp add: read_at_def peek_def mem_ok_def Let_def)

lemma read_at_fails: "unat gpa + n > ram_len m \<Longrightarrow> is_err (read_at gpa n m)"
  by (auto simp: read_at_def Let_def)

lemma write_at_poke:
  "mem_ok m \<Longrightarrow> unat gpa + length d \<le> ram_len m \<Longrightarrow> write_at gpa d m = (Inr (), poke (unat gpa) d m)"
  by (simp add: write_at_def poke_def mem_ok_def Let_def)

lemma mem_ok_write_at [simp]: "mem_ok (snd (write_at gpa d m)) = mem_ok m"
  by (simp add: mem_ok_def)

lemma range_in_ram:
  assumes "mem_ok m"
  shows "(case checked_add gpa (ucast (len :: u32)) of
            Some stop \<Rightarrow> stop \<le> (of_nat (ram_len m) :: u64) | None \<Rightarrow> False)
    \<longleftrightarrow> unat gpa + unat len \<le> ram_len m"
proof -
  have "unat (of_nat (ram_len m) :: u64) = ram_len m"
    using assms by (simp add: mem_ok_def unat_of_nat)
  then show ?thesis
    using assms by (auto simp: checked_add_def word_le_nat_alt mem_ok_def unat_word_ariths)
qed

lemma write_at_len: "write_at g d m = (r, m') \<Longrightarrow> ram_len m' = ram_len m"
  using write_at_ram_len [of g d m] by simp

section \<open>Properties\<close>

text \<open>
  C1. A write inside RAM succeeds, is read back by a read of the same range, leaves every read of
  a disjoint range unchanged, and keeps the size of RAM.
\<close>

theorem guest_write_read:
  assumes "mem_ok m" and "unat gpa + length d \<le> ram_len m"
  shows "\<exists>m'. write_at gpa d m = (Inr (), m') \<and> read_at gpa (length d) m' = Inr d
    \<and> (\<forall>b n. apart gpa (length d) b n \<longrightarrow> read_at b n m' = read_at b n m)
    \<and> ram_len m' = ram_len m"
  using gm.wr_succeeds [OF assms] gm.rd_same gm.rd_apart by metis

theorem guest_write_read_witness:
  "\<exists>m'. write_at 16 [7, 8] \<lparr>ram = (\<lambda>_. 0), ram_len = 4096\<rparr> = (Inr (), m')
    \<and> read_at 16 2 m' = Inr [7, 8]
    \<and> (\<forall>b n. apart 16 2 b n \<longrightarrow>
         read_at b n m' = read_at b n \<lparr>ram = (\<lambda>_. 0), ram_len = 4096\<rparr>)
    \<and> ram_len m' = 4096"
  using guest_write_read [of "\<lparr>ram = (\<lambda>_. 0), ram_len = 4096\<rparr>" 16 "[7, 8]"]
  by (simp add: mem_ok_def numeral_2_eq_2 [symmetric])

text \<open>
  No access past the end of guest RAM: reads and writes of a range that does not lie in RAM
  are errors, whatever the guest-supplied address (also one whose end exceeds 64 bits), and such a
  write leaves guest memory as it was.
\<close>

theorem guest_access_bounded:
  "(unat gpa + n > ram_len m \<longrightarrow> is_err (read_at gpa n m)) \<and>
   (unat gpa + length d > ram_len m \<longrightarrow>
      is_err (fst (write_at gpa d m)) \<and> snd (write_at gpa d m) = m)"
  by (auto simp: read_at_def write_at_def Let_def)

theorem guest_access_bounded_witness:
  "is_err (read_at (- 1) 16 \<lparr>ram = (\<lambda>_. 0), ram_len = 4096\<rparr>)
   \<and> is_err (fst (write_at 4095 [1, 2] \<lparr>ram = (\<lambda>_. 0), ram_len = 4096\<rparr>))"
  using guest_access_bounded [of "\<lparr>ram = (\<lambda>_. 0), ram_len = 4096\<rparr>" "- 1" 16 "[]"]
    guest_access_bounded [of "\<lparr>ram = (\<lambda>_. 0), ram_len = 4096\<rparr>" 4095 0 "[1, 2]"]
  by (simp add: unsigned_minus_1_eq_mask mask_eq_exp_minus_1)

end
