(* ===== verification/Virtqueue.thy ===== *)
theory Virtqueue
  imports Guest_Memory
begin

text \<open>
  The split-virtqueue accesses that every device of \<^verbatim>\<open>src/crates/fluxvm-hypervisor/src/devices\<close> repeats:
  reading a descriptor, reading the head the driver published in the available ring, and
  \<^verbatim>\<open>used_push\<close>, which the five device files carry as identical copies. Addresses come from the
  guest, so address arithmetic is 64-bit and wraps, except where the code uses \<^verbatim>\<open>checked_add\<close>.
\<close>

section \<open>Definitions\<close>

definition VRING_DESC_F_NEXT :: u16 where "VRING_DESC_F_NEXT = 1"
definition VRING_DESC_F_WRITE :: u16 where "VRING_DESC_F_WRITE = 2"
definition VRING_DESC_F_INDIRECT :: u16 where "VRING_DESC_F_INDIRECT = 4"

record Desc =
  d_addr :: u64
  d_len :: u32
  d_flags :: u16
  d_next :: u16

definition desc_of_bytes :: "u8 list \<Rightarrow> Desc" where
  "desc_of_bytes raw =
     \<lparr>d_addr = u64_from_le (slice 0 8 raw), d_len = u32_from_le (slice 8 12 raw),
      d_flags = u16_from_le (slice 12 14 raw), d_next = u16_from_le (slice 14 16 raw)\<rparr>"

definition desc_to_bytes :: "Desc \<Rightarrow> u8 list" where
  "desc_to_bytes d =
     u64_to_le (d_addr d) @ u32_to_le (d_len d) @ u16_to_le (d_flags d) @ u16_to_le (d_next d)"

definition has_flag :: "u16 \<Rightarrow> u16 \<Rightarrow> bool" where
  "has_flag flags f \<longleftrightarrow> flags AND f \<noteq> 0"

definition read_desc :: "u64 \<Rightarrow> u16 \<Rightarrow> GuestMemory \<Rightarrow> Desc result" where
  "read_desc desc_base idx m =
     rbind (read_at (desc_base + ucast idx * 16) 16 m) (\<lambda>raw. Inr (desc_of_bytes raw))"

definition read_desc_checked :: "string \<Rightarrow> u64 \<Rightarrow> u16 \<Rightarrow> GuestMemory \<Rightarrow> Desc result" where
  "read_desc_checked msg desc_base idx m =
     (case checked_add desc_base (ucast idx * 16) of
        None \<Rightarrow> Inl (Memory msg)
      | Some addr \<Rightarrow> rbind (read_at addr 16 m) (\<lambda>raw. Inr (desc_of_bytes raw)))"

definition read_avail_idx :: "u64 \<Rightarrow> GuestMemory \<Rightarrow> u16 result" where
  "read_avail_idx avail m = read_u16 (avail + 2) m"

definition read_avail_head :: "u64 \<Rightarrow> u32 \<Rightarrow> u16 \<Rightarrow> GuestMemory \<Rightarrow> u16 result" where
  "read_avail_head avail qnum last_avail m =
     read_u16 (avail + 4 + ucast ((ucast last_avail :: u32) mod qnum) * 2) m"

definition used_elem_addr :: "u64 \<Rightarrow> u32 \<Rightarrow> u16 \<Rightarrow> u64" where
  "used_elem_addr used_gpa qnum idx = used_gpa + 4 + ucast ((ucast idx :: u32) mod qnum) * 8"

definition used_push :: "u64 \<Rightarrow> u32 \<Rightarrow> u16 \<Rightarrow> u32 \<Rightarrow> (GuestMemory, unit) op" where
  "used_push used_gpa qnum desc_id written =
     bnd (reads (read_u16 (used_gpa + 2))) (\<lambda>idx.
       let elem = used_elem_addr used_gpa qnum idx
       in bnd (write_at elem (u32_to_le (ucast desc_id))) (\<lambda>_.
          bnd (write_at (elem + 4) (u32_to_le written)) (\<lambda>_.
          write_u16 (used_gpa + 2) (idx + 1))))"

text \<open>The used ring lies in RAM without wrapping the address space.\<close>

definition used_ring_ok :: "GuestMemory \<Rightarrow> u64 \<Rightarrow> u32 \<Rightarrow> bool" where
  "used_ring_ok m used_gpa qnum \<longleftrightarrow>
     mem_ok m \<and> 0 < qnum \<and> unat used_gpa + 4 + 8 * unat qnum \<le> ram_len m"

section \<open>Lemmas\<close>

lemma has_flag_simps [simp]:
  "has_flag 0 f = False"
  by (simp add: has_flag_def)

lemma length_desc_to_bytes [simp]: "length (desc_to_bytes d) = 16"
  by (simp add: desc_to_bytes_def)

lemma desc_of_to_bytes [simp]: "desc_of_bytes (desc_to_bytes d) = d"
  by (simp add: desc_of_bytes_def desc_to_bytes_def slice_append_left slice_append_right)

lemma unat_slot: "unat ((ucast (i :: u16) :: u32) mod q) = unat i mod unat q"
  by (simp add: unat_mod_distrib)

lemma unat_ring_addr:
  assumes "unat base + 4 + k * unat qnum < 2 ^ 64" and "0 < qnum" and "unat (c :: u64) = k"
  shows "unat (base + 4 + ucast ((ucast (i :: u16) :: u32) mod qnum) * c)
    = unat base + 4 + k * (unat i mod unat qnum)"
proof -
  let ?s = "unat i mod unat qnum"
  have "?s < unat qnum" using assms(2) by (simp add: word_less_nat_alt)
  then have le: "k * ?s \<le> k * unat qnum" by simp
  have "k * ?s < 2 ^ 64" using le assms(1) by linarith
  then have mul: "unat (ucast ((ucast i :: u32) mod qnum) * c :: u64) = k * ?s"
    using assms(3) by (subst unat_mult_no_wrap) (auto simp: unat_slot mult.commute)
  have base4: "unat (base + 4 :: u64) = unat base + 4"
    using assms(1) by (subst unat_add_no_wrap) auto
  have "unat base + 4 + k * ?s < 2 ^ 64" using le assms(1) by linarith
  then show ?thesis by (subst unat_add_no_wrap) (simp_all add: mul base4)
qed

lemma unat_used_elem_addr:
  assumes "used_ring_ok m used_gpa qnum"
  shows "unat (used_elem_addr used_gpa qnum i) = unat used_gpa + 4 + 8 * (unat i mod unat qnum)"
  unfolding used_elem_addr_def
  by (rule unat_ring_addr) (use assms in \<open>auto simp: used_ring_ok_def mem_ok_def\<close>)

lemma used_elem_in_ring:
  assumes "used_ring_ok m used_gpa qnum"
  shows "unat (used_elem_addr used_gpa qnum i) + 8 \<le> unat used_gpa + 4 + 8 * unat qnum"
proof -
  have "unat i mod unat qnum < unat qnum"
    using assms by (simp add: used_ring_ok_def word_less_nat_alt)
  then show ?thesis by (simp add: unat_used_elem_addr [OF assms])
qed

lemma unat_used_elem_addr4:
  assumes "used_ring_ok m used_gpa qnum"
  shows "unat (used_elem_addr used_gpa qnum i + 4) = unat (used_elem_addr used_gpa qnum i) + 4"
  using used_elem_in_ring [OF assms, of i] assms
  by (subst unat_add_no_wrap) (auto simp: used_ring_ok_def mem_ok_def)

lemma unat_used_idx_addr:
  assumes "used_ring_ok m used_gpa qnum"
  shows "unat (used_gpa + 2) = unat used_gpa + 2"
  using assms by (subst unat_add_no_wrap) (auto simp: used_ring_ok_def mem_ok_def)

text \<open>
  \<open>used_push\<close> seen through the interface of guest memory: three writes in this order.
\<close>

lemma used_push_as_writes:
  assumes "read_u16 (used_gpa + 2) m = Inr idx"
  shows "used_push used_gpa qnum desc_id written m =
    gm.wr_seq [(used_elem_addr used_gpa qnum idx, u32_to_le (ucast desc_id)),
               (used_elem_addr used_gpa qnum idx + 4, u32_to_le written),
               (used_gpa + 2, u16_to_le (idx + 1))] m"
  using assms
  by (simp add: used_push_def Let_def write_u16_def bnd_def split: prod.splits sum.splits)

lemma used_push_ram_len [simp]: "ram_len (snd (used_push u q d w m)) = ram_len m"
proof (cases "read_u16 (u + 2) m")
  case (Inl e)
  then show ?thesis by (simp add: used_push_def bnd_def)
next
  case (Inr idx)
  then show ?thesis by (simp only: used_push_as_writes gm.wr_seq_sz)
qed

lemma used_idx_readable:
  assumes "used_ring_ok m used_gpa qnum"
  shows "\<exists>idx. read_u16 (used_gpa + 2) m = Inr idx"
proof -
  have "0 < unat qnum" using assms by (simp add: used_ring_ok_def word_less_nat_alt)
  then have "\<exists>b. read_at (used_gpa + 2) 2 m = Inr b"
    using assms by (subst gm.rd_ok) (auto simp: used_ring_ok_def unat_used_idx_addr [OF assms])
  then show ?thesis by (auto simp: read_u16_Inr)
qed

text \<open>
  The completion a device publishes: the element at the slot of the old index holds the head and
  the written length, the index is one larger, and nothing outside that element and the index
  changes.
\<close>

lemma used_push_spec:
  assumes ring: "used_ring_ok m used_gpa qnum" and idx: "read_u16 (used_gpa + 2) m = Inr idx"
  obtains m' where "used_push used_gpa qnum desc_id written m = (Inr (), m')"
    and "read_u16 (used_gpa + 2) m' = Inr (idx + 1)"
    and "read_at (used_elem_addr used_gpa qnum idx) 4 m' = Inr (u32_to_le (ucast desc_id))"
    and "read_at (used_elem_addr used_gpa qnum idx + 4) 4 m' = Inr (u32_to_le written)"
    and "\<And>b n. apart (used_elem_addr used_gpa qnum idx) 8 b n \<Longrightarrow> apart (used_gpa + 2) 2 b n \<Longrightarrow>
           read_at b n m' = read_at b n m"
    and "ram_len m' = ram_len m" and "mem_ok m'"
proof -
  let ?e = "used_elem_addr used_gpa qnum idx"
  have ok: "mem_ok m" using ring by (simp add: used_ring_ok_def)
  have e4: "unat (?e + 4) = unat ?e + 4" by (rule unat_used_elem_addr4 [OF ring])
  have i2: "unat (used_gpa + 2) = unat used_gpa + 2" by (rule unat_used_idx_addr [OF ring])
  have lo: "unat used_gpa + 4 \<le> unat ?e" by (simp add: unat_used_elem_addr [OF ring])
  have hi: "unat ?e + 8 \<le> ram_len m"
    using used_elem_in_ring [OF ring, of idx] ring by (simp add: used_ring_ok_def)
  from gm.wr_succeeds [OF ok, of ?e "u32_to_le (ucast desc_id)"] hi
  obtain m1 where m1: "write_at ?e (u32_to_le (ucast desc_id)) m = (Inr (), m1)"
    "mem_ok m1" "ram_len m1 = ram_len m" by (metis add_leD1 length_to_le(2) add.assoc numeral_Bit0)
  from gm.wr_succeeds [OF m1(2), of "?e + 4" "u32_to_le written"] hi e4 m1(3)
  obtain m2 where m2: "write_at (?e + 4) (u32_to_le written) m1 = (Inr (), m2)"
    "mem_ok m2" "ram_len m2 = ram_len m" by (metis add.assoc length_to_le(2) numeral_Bit0)
  from gm.wr_succeeds [OF m2(2), of "used_gpa + 2" "u16_to_le (idx + 1)"] hi lo i2 m2(3)
  obtain m3 where m3: "write_at (used_gpa + 2) (u16_to_le (idx + 1)) m2 = (Inr (), m3)"
    "mem_ok m3" "ram_len m3 = ram_len m" by auto
  show thesis
  proof (rule that)
    show "used_push used_gpa qnum desc_id written m = (Inr (), m3)"
      by (simp add: used_push_as_writes [OF idx] m1 m2 m3)
    show "read_u16 (used_gpa + 2) m3 = Inr (idx + 1)"
      using gm.rd_same [OF m3(1)] by (simp add: read_u16_def)
    have "read_at ?e 4 m3 = read_at ?e 4 m2"
      by (rule gm.rd_apart [OF m3(1)]) (use lo i2 in \<open>auto simp: apart_def\<close>)
    also have "\<dots> = read_at ?e 4 m1"
      by (rule gm.rd_apart [OF m2(1)]) (use e4 in \<open>auto simp: apart_def\<close>)
    also have "\<dots> = Inr (u32_to_le (ucast desc_id))"
      using gm.rd_same [OF m1(1)] by simp
    finally show "read_at ?e 4 m3 = Inr (u32_to_le (ucast desc_id))" .
    have "read_at (?e + 4) 4 m3 = read_at (?e + 4) 4 m2"
      by (rule gm.rd_apart [OF m3(1)]) (use lo i2 e4 in \<open>auto simp: apart_def\<close>)
    then show "read_at (?e + 4) 4 m3 = Inr (u32_to_le written)"
      using gm.rd_same [OF m2(1)] by simp
    show "read_at b n m3 = read_at b n m"
      if "apart ?e 8 b n" and "apart (used_gpa + 2) 2 b n" for b n
    proof -
      have "gm.wr_seq [(?e, u32_to_le (ucast desc_id)), (?e + 4, u32_to_le written),
          (used_gpa + 2, u16_to_le (idx + 1))] m = (Inr (), m3)"
        by (simp add: m1 m2 m3)
      then show ?thesis
        by (rule gm.rd_wr_seq_apart) (use that e4 in \<open>auto simp: apart_def\<close>)
    qed
    show "ram_len m3 = ram_len m" "mem_ok m3" by (fact m3)+
  qed
qed

lemma used_push_len: "used_push u q d w m = (r, m') \<Longrightarrow> ram_len m' = ram_len m"
  using used_push_ram_len [of u q d w m] by simp

section \<open>Properties\<close>

text \<open>
  C13. Publishing a completion on a used ring that lies in RAM: the element of the current slot
  carries the descriptor head and the written length, the used index is advanced by one modulo
  $2^{16}$, and no other byte of guest memory changes.
\<close>

theorem used_push_publishes:
  assumes "used_ring_ok m used_gpa qnum" and "read_u16 (used_gpa + 2) m = Inr idx"
  shows "\<exists>m'. used_push used_gpa qnum desc_id written m = (Inr (), m')
    \<and> read_u16 (used_gpa + 2) m' = Inr (idx + 1)
    \<and> read_at (used_elem_addr used_gpa qnum idx) 4 m' = Inr (u32_to_le (ucast desc_id))
    \<and> read_at (used_elem_addr used_gpa qnum idx + 4) 4 m' = Inr (u32_to_le written)
    \<and> (\<forall>b n. apart (used_elem_addr used_gpa qnum idx) 8 b n \<and> apart (used_gpa + 2) 2 b n \<longrightarrow>
          read_at b n m' = read_at b n m)"
  by (rule used_push_spec [OF assms, of desc_id written]) blast

theorem used_push_publishes_witness:
  "\<exists>m'. used_push 512 8 3 112 \<lparr>ram = (\<lambda>_. 255), ram_len = 4096\<rparr> = (Inr (), m')
    \<and> read_u16 514 m' = Inr 0"
proof -
  let ?m = "\<lparr>ram = (\<lambda>_. 255), ram_len = 4096\<rparr>"
  have "used_ring_ok ?m 512 8" by (simp add: used_ring_ok_def mem_ok_def)
  moreover have "read_u16 (512 + 2) ?m = Inr 65535"
    by (simp add: read_u16_def read_at_def u16_from_le_def)
  ultimately show ?thesis
    using used_push_publishes [of ?m 512 8 65535 3 112] by auto
qed

end
