(* ===== verification/Bus.thy ===== *)
theory Bus
  imports Flux_Prelude
begin

text \<open>
  The port and memory-mapped I/O bus, \<^verbatim>\<open>src/crates/fluxvm-hypervisor/src/bus.rs\<close>. The traits
  \<^verbatim>\<open>PioDevice\<close> and \<^verbatim>\<open>MmioDevice\<close> are records of their methods over the device's state; a read gets
  the caller's buffer and returns it as the device leaves it. The locale \<open>bus_device\<close> is the
  contract of a device; the lemmas on dispatch are proved once inside it. The device theories
  interpret it.
\<close>

section \<open>Definitions\<close>

record 'd PioDevice =
  port_range :: "'d \<Rightarrow> u16 \<times> u16"
  io_out :: "u16 \<Rightarrow> u8 list \<Rightarrow> ('d, unit) op"
  io_in :: "u16 \<Rightarrow> u8 list \<Rightarrow> ('d, u8 list) op"

record 'd MmioDevice =
  mmio_range :: "'d \<Rightarrow> u64 \<times> u64"
  dev_write :: "u64 \<Rightarrow> u8 list \<Rightarrow> ('d, unit) op"
  dev_read :: "u64 \<Rightarrow> u8 list \<Rightarrow> ('d, u8 list) op"

record ('p, 'm) Bus =
  pio :: "'p list"
  mmio :: "'m list"

definition bus_new :: "('p, 'm) Bus" where
  "bus_new = \<lparr>pio = [], mmio = []\<rparr>"

definition add_pio :: "'p \<Rightarrow> ('p, 'm) Bus \<Rightarrow> ('p, 'm) Bus" where
  "add_pio dev b = b\<lparr>pio := pio b @ [dev]\<rparr>"

definition add_mmio :: "'m \<Rightarrow> ('p, 'm) Bus \<Rightarrow> ('p, 'm) Bus" where
  "add_mmio dev b = b\<lparr>mmio := mmio b @ [dev]\<rparr>"

definition in_range :: "'a::linorder \<times> 'a \<Rightarrow> 'a \<Rightarrow> bool" where
  "in_range r x \<longleftrightarrow> fst r \<le> x \<and> x \<le> snd r"

text \<open>The loop of all four accessors: the first device whose range holds the address answers.\<close>

fun dispatch ::
  "('d \<Rightarrow> 'a::linorder \<times> 'a) \<Rightarrow> 'a \<Rightarrow> ('d, 'r) op \<Rightarrow> 'd list \<Rightarrow> ('r result \<times> 'd list) option" where
  "dispatch rng x f [] = None"
| "dispatch rng x f (d # ds) =
     (if in_range (rng d) x then Some (fst (f d), snd (f d) # ds)
      else map_option (\<lambda>(r, ds'). (r, d # ds')) (dispatch rng x f ds))"

definition pio_write :: "'p PioDevice \<Rightarrow> u16 \<Rightarrow> u8 list \<Rightarrow> (('p, 'm) Bus, unit) op" where
  "pio_write P port data b =
     (case dispatch (port_range P) port (io_out P port data) (pio b) of
        None \<Rightarrow> (Inr (), b)
      | Some (r, ds) \<Rightarrow> (r, b\<lparr>pio := ds\<rparr>))"

definition pio_read :: "'p PioDevice \<Rightarrow> u16 \<Rightarrow> u8 list \<Rightarrow> (('p, 'm) Bus, u8 list) op" where
  "pio_read P port data b =
     (case dispatch (port_range P) port (io_in P port data) (pio b) of
        None \<Rightarrow> (Inr (replicate (length data) 0xff), b)
      | Some (r, ds) \<Rightarrow> (r, b\<lparr>pio := ds\<rparr>))"

definition bus_mmio_write :: "'m MmioDevice \<Rightarrow> u64 \<Rightarrow> u8 list \<Rightarrow> (('p, 'm) Bus, unit) op" where
  "bus_mmio_write M addr data b =
     (case dispatch (mmio_range M) addr (dev_write M addr data) (mmio b) of
        None \<Rightarrow> (Inl (Device ''mmio'' ''unhandled write''), b)
      | Some (r, ds) \<Rightarrow> (r, b\<lparr>mmio := ds\<rparr>))"

definition bus_mmio_read :: "'m MmioDevice \<Rightarrow> u64 \<Rightarrow> u8 list \<Rightarrow> (('p, 'm) Bus, u8 list) op" where
  "bus_mmio_read M addr data b =
     (case dispatch (mmio_range M) addr (dev_read M addr data) (mmio b) of
        None \<Rightarrow> (Inr (replicate (length data) 0xff), b)
      | Some (r, ds) \<Rightarrow> (r, b\<lparr>mmio := ds\<rparr>))"

text \<open>No address belongs to two devices.\<close>

definition ranges_disjoint :: "('d \<Rightarrow> 'a::linorder \<times> 'a) \<Rightarrow> 'd list \<Rightarrow> bool" where
  "ranges_disjoint rng ds \<longleftrightarrow>
     (\<forall>i < length ds. \<forall>j < length ds. \<forall>x. i \<noteq> j \<longrightarrow>
        \<not> (in_range (rng (ds ! i)) x \<and> in_range (rng (ds ! j)) x))"

section \<open>Dispatch\<close>

lemma dispatch_None: "dispatch rng x f ds = None \<longleftrightarrow> (\<forall>d \<in> set ds. \<not> in_range (rng d) x)"
  by (induction ds) auto

lemma dispatch_Some:
  "dispatch rng x f ds = Some (r, ds') \<Longrightarrow>
    \<exists>i < length ds. in_range (rng (ds ! i)) x \<and> (\<forall>j < i. \<not> in_range (rng (ds ! j)) x)
      \<and> r = fst (f (ds ! i)) \<and> ds' = ds[i := snd (f (ds ! i))]"
proof (induction ds arbitrary: ds')
  case Nil
  then show ?case by simp
next
  case (Cons d ds)
  show ?case
  proof (cases "in_range (rng d) x")
    case True
    then show ?thesis using Cons.prems by (intro exI [of _ 0]) auto
  next
    case False
    then obtain ds1 where ds1: "dispatch rng x f ds = Some (r, ds1)" "ds' = d # ds1"
      using Cons.prems by auto
    from Cons.IH [OF ds1(1)] obtain i where
      "i < length ds" "in_range (rng (ds ! i)) x" "\<forall>j < i. \<not> in_range (rng (ds ! j)) x"
      "r = fst (f (ds ! i))" "ds1 = ds[i := snd (f (ds ! i))]" by blast
    with False ds1(2) show ?thesis
      by (intro exI [of _ "Suc i"]) (auto simp: less_Suc_eq_0_disj)
  qed
qed

text \<open>With disjoint ranges the position on the bus does not matter: the owner answers.\<close>

lemma dispatch_owner:
  assumes "ranges_disjoint rng ds" and "i < length ds" and "in_range (rng (ds ! i)) x"
  shows "dispatch rng x f ds = Some (fst (f (ds ! i)), ds[i := snd (f (ds ! i))])"
proof -
  from assms(2,3) have "dispatch rng x f ds \<noteq> None" by (auto simp: dispatch_None)
  then obtain r ds' where d: "dispatch rng x f ds = Some (r, ds')" by auto
  from dispatch_Some [OF d] obtain j where
    j: "j < length ds" "in_range (rng (ds ! j)) x" "r = fst (f (ds ! j))"
       "ds' = ds[j := snd (f (ds ! j))]" by blast
  with assms have "j = i" unfolding ranges_disjoint_def by blast
  with d j show ?thesis by simp
qed

section \<open>The contract of a device\<close>

text \<open>
  What the bus relies on: a device never changes its own range, keeps its invariant on every
  access, and answers a read with as many bytes as were asked for.
\<close>

locale bus_device =
  fixes rng :: "'d \<Rightarrow> 'a::linorder \<times> 'a"
    and wr :: "'a \<Rightarrow> u8 list \<Rightarrow> ('d, unit) op"
    and rd :: "'a \<Rightarrow> u8 list \<Rightarrow> ('d, u8 list) op"
    and ok :: "'d \<Rightarrow> bool"
  assumes wr_rng: "rng (snd (wr x data d)) = rng d"
    and rd_rng: "rng (snd (rd x data d)) = rng d"
    and wr_inv: "ok d \<Longrightarrow> ok (snd (wr x data d))"
    and rd_inv: "ok d \<Longrightarrow> ok (snd (rd x data d))"
    and rd_len: "fst (rd x data d) = Inr bs \<Longrightarrow> length bs = length data"
begin

lemma dispatch_keeps:
  assumes "\<And>d. rng (snd (f d)) = rng d" and "\<And>d. ok d \<Longrightarrow> ok (snd (f d))"
    and "dispatch rng x f ds = Some (r, ds')" and "\<forall>d \<in> set ds. ok d"
  shows "map rng ds' = map rng ds" and "\<forall>d \<in> set ds'. ok d"
proof -
  from dispatch_Some [OF assms(3)] obtain i where
    i: "i < length ds" "ds' = ds[i := snd (f (ds ! i))]" by blast
  show "map rng ds' = map rng ds"
    using i assms(1) by (simp add: map_update list_update_same_conv)
  show "\<forall>d \<in> set ds'. ok d"
    using i assms(2,4) set_update_subset_insert [of ds i] nth_mem [OF i(1)] by blast
qed

lemma bus_write_keeps:
  assumes "dispatch rng x (wr x data) ds = Some (r, ds')" and "\<forall>d \<in> set ds. ok d"
  shows "map rng ds' = map rng ds \<and> (\<forall>d \<in> set ds'. ok d)"
  using dispatch_keeps(1) [OF wr_rng wr_inv assms] dispatch_keeps(2) [OF wr_rng wr_inv assms]
  by (rule conjI)

lemma bus_read_keeps:
  assumes "dispatch rng x (rd x data) ds = Some (r, ds')" and "\<forall>d \<in> set ds. ok d"
  shows "map rng ds' = map rng ds \<and> (\<forall>d \<in> set ds'. ok d)"
  using dispatch_keeps(1) [OF rd_rng rd_inv assms] dispatch_keeps(2) [OF rd_rng rd_inv assms]
  by (rule conjI)

lemma bus_read_length:
  assumes "dispatch rng x (rd x data) ds = Some (Inr bs, ds')"
  shows "length bs = length data"
  using dispatch_Some [OF assms] rd_len by metis

end

section \<open>Properties\<close>

text \<open>
  Routing of the memory-mapped bus. With disjoint device ranges an access to an address of
  device \<open>i\<close> reaches exactly that device, whatever the registration order, and leaves every other
  device as it was; a write that no device claims is an error and a read of such an address
  returns all ones.
\<close>

theorem mmio_routing:
  assumes "ranges_disjoint (mmio_range M) (mmio b)"
  shows "(i < length (mmio b) \<and> in_range (mmio_range M (mmio b ! i)) addr \<longrightarrow>
      bus_mmio_write M addr data b =
        (fst (dev_write M addr data (mmio b ! i)),
         b\<lparr>mmio := (mmio b)[i := snd (dev_write M addr data (mmio b ! i))]\<rparr>)
      \<and> bus_mmio_read M addr data b =
        (fst (dev_read M addr data (mmio b ! i)),
         b\<lparr>mmio := (mmio b)[i := snd (dev_read M addr data (mmio b ! i))]\<rparr>))
    \<and> ((\<forall>d \<in> set (mmio b). \<not> in_range (mmio_range M d) addr) \<longrightarrow>
      is_err (fst (bus_mmio_write M addr data b)) \<and> snd (bus_mmio_write M addr data b) = b
      \<and> bus_mmio_read M addr data b = (Inr (replicate (length data) 0xff), b))"
proof (intro conjI impI)
  assume i: "i < length (mmio b) \<and> in_range (mmio_range M (mmio b ! i)) addr"
  note owner = dispatch_owner [OF assms conjunct1 [OF i] conjunct2 [OF i]]
  show "bus_mmio_write M addr data b =
        (fst (dev_write M addr data (mmio b ! i)),
         b\<lparr>mmio := (mmio b)[i := snd (dev_write M addr data (mmio b ! i))]\<rparr>)"
    by (simp add: bus_mmio_write_def owner)
  show "bus_mmio_read M addr data b =
        (fst (dev_read M addr data (mmio b ! i)),
         b\<lparr>mmio := (mmio b)[i := snd (dev_read M addr data (mmio b ! i))]\<rparr>)"
    by (simp add: bus_mmio_read_def owner)
next
  assume "\<forall>d \<in> set (mmio b). \<not> in_range (mmio_range M d) addr"
  note none = dispatch_None [THEN iffD2, OF this]
  show "is_err (fst (bus_mmio_write M addr data b))" "snd (bus_mmio_write M addr data b) = b"
    "bus_mmio_read M addr data b = (Inr (replicate (length data) 0xff), b)"
    by (simp_all add: bus_mmio_write_def bus_mmio_read_def none)
qed

end
