(* ===== verification/Virtio_Mmio.thy ===== *)
theory Virtio_Mmio
  imports Bus
begin

text \<open>
  The virtio-mmio transport, \<^verbatim>\<open>src/crates/fluxvm-hypervisor/src/devices/virtio_mmio.rs\<close>: the state of
  a device and of its queues, the constructors of the seven device kinds, the register file
  (\<open>mmio_write\<close>, \<open>mmio_read\<close>) and the interrupt and notify operations. The mutex around the state
  makes each of these one step. The eventfd is a descriptor number (negative when unavailable) and
  the number of times it was signalled.
\<close>

section \<open>Data\<close>

definition VIRTIO_MMIO_MAGIC :: u32 where "VIRTIO_MMIO_MAGIC = 0x74726976"
definition VIRTIO_MMIO_VERSION :: u32 where "VIRTIO_MMIO_VERSION = 2"
definition VIRTIO_ID_NET :: u32 where "VIRTIO_ID_NET = 1"
definition VIRTIO_ID_BLOCK :: u32 where "VIRTIO_ID_BLOCK = 2"
definition VIRTIO_ID_RNG :: u32 where "VIRTIO_ID_RNG = 4"
definition VIRTIO_ID_BALLOON :: u32 where "VIRTIO_ID_BALLOON = 5"
definition VIRTIO_ID_VSOCK :: u32 where "VIRTIO_ID_VSOCK = 19"
definition VIRTIO_ID_FS :: u32 where "VIRTIO_ID_FS = 26"
definition VIRTIO_F_VERSION_1 :: u64 where "VIRTIO_F_VERSION_1 = push_bit 32 1"
definition VIRTIO_BLK_F_RO :: u64 where "VIRTIO_BLK_F_RO = push_bit 5 1"
definition VIRTIO_NET_F_CTRL_VQ :: u64 where "VIRTIO_NET_F_CTRL_VQ = push_bit 17 1"
definition VIRTIO_NET_F_MQ :: u64 where "VIRTIO_NET_F_MQ = push_bit 22 1"
definition NET_MAX_QUEUE_PAIRS :: u16 where "NET_MAX_QUEUE_PAIRS = 4"
definition MAX_QUEUES :: nat where "MAX_QUEUES = 9"
definition VIRTIO_MMIO_INT_VRING :: u32 where "VIRTIO_MMIO_INT_VRING = 1"
definition VIRTIO_MMIO_INT_CONFIG :: u32 where "VIRTIO_MMIO_INT_CONFIG = 2"
definition MMIO_LEN :: u64 where "MMIO_LEN = 0x200"

lemmas virtio_consts = VIRTIO_MMIO_MAGIC_def VIRTIO_MMIO_VERSION_def VIRTIO_ID_NET_def
  VIRTIO_ID_BLOCK_def VIRTIO_ID_RNG_def VIRTIO_ID_BALLOON_def VIRTIO_ID_VSOCK_def VIRTIO_ID_FS_def
  VIRTIO_F_VERSION_1_def VIRTIO_BLK_F_RO_def VIRTIO_NET_F_CTRL_VQ_def VIRTIO_NET_F_MQ_def
  NET_MAX_QUEUE_PAIRS_def MAX_QUEUES_def VIRTIO_MMIO_INT_VRING_def VIRTIO_MMIO_INT_CONFIG_def
  MMIO_LEN_def

record QueueState =
  q_num :: u32
  q_ready :: u32
  q_desc :: u64
  q_avail :: u64
  q_used :: u64
  q_last_avail :: u16

definition queue_default :: QueueState where
  "queue_default = \<lparr>q_num = 0, q_ready = 0, q_desc = 0, q_avail = 0, q_used = 0, q_last_avail = 0\<rparr>"

record VirtioState =
  device_id :: u32
  features :: u64
  driver_features :: u64
  status :: u32
  mac :: "u8 list"
  capacity_sectors :: u64
  guest_cid :: u32
  balloon_num_pages :: u32
  balloon_actual :: u32
  fs_tag :: "u8 list"
  queues :: "QueueState list"
  num_queues :: u32
  sel :: u32
  notify :: "u32 option"
  interrupt_status :: u32
  irq :: u32
  net_max_pairs :: u16
  net_active_pairs :: u16

definition virtio_default :: VirtioState where
  "virtio_default =
     \<lparr>device_id = VIRTIO_ID_NET,
      features = VIRTIO_F_VERSION_1 OR push_bit 5 1 OR push_bit 16 1,
      driver_features = 0, status = 0, mac = [0x02, 0x00, 0x00, 0x00, 0x00, 0x02],
      capacity_sectors = 0, guest_cid = 3, balloon_num_pages = 0, balloon_actual = 0,
      fs_tag = replicate 36 0, queues = replicate MAX_QUEUES queue_default, num_queues = 2,
      sel = 0, notify = None, interrupt_status = 0, irq = 5,
      net_max_pairs = 1, net_active_pairs = 1\<rparr>"

record VirtioMmio =
  vm_base :: u64
  vm_size :: u64
  vm_state :: VirtioState
  dev_feat_sel :: u32
  drv_feat_sel :: u32
  interrupt_evt :: int
  evt_signals :: nat

section \<open>Constructors\<close>

definition vm_new :: "int \<Rightarrow> u64 \<Rightarrow> VirtioState \<Rightarrow> VirtioMmio" where
  "vm_new evt base st =
     \<lparr>vm_base = base, vm_size = MMIO_LEN, vm_state = st, dev_feat_sel = 0, drv_feat_sel = 0,
      interrupt_evt = evt, evt_signals = 0\<rparr>"

definition vm_net :: "int \<Rightarrow> u64 \<Rightarrow> u8 list \<Rightarrow> VirtioMmio" where
  "vm_net evt base mc = vm_new evt base (virtio_default\<lparr>mac := mc, irq := 5, num_queues := 2\<rparr>)"

definition vm_net_mq :: "int \<Rightarrow> u64 \<Rightarrow> u8 list \<Rightarrow> u16 \<Rightarrow> VirtioMmio" where
  "vm_net_mq evt base mc pairs =
     (let pairs = min pairs NET_MAX_QUEUE_PAIRS
      in if pairs \<le> 1 then vm_net evt base mc
         else vm_new evt base
           (virtio_default\<lparr>mac := mc, irq := 5,
              features := features virtio_default OR VIRTIO_NET_F_CTRL_VQ OR VIRTIO_NET_F_MQ,
              net_max_pairs := pairs, num_queues := 2 * ucast pairs + 1\<rparr>))"

definition vm_block :: "int \<Rightarrow> u64 \<Rightarrow> u64 \<Rightarrow> bool \<Rightarrow> VirtioMmio" where
  "vm_block evt base capacity read_only =
     vm_new evt base
       (virtio_default\<lparr>device_id := VIRTIO_ID_BLOCK,
          features := (if read_only then VIRTIO_F_VERSION_1 OR VIRTIO_BLK_F_RO
                       else VIRTIO_F_VERSION_1),
          capacity_sectors := capacity, mac := replicate 6 0, irq := 6, num_queues := 1\<rparr>)"

definition vm_vsock :: "int \<Rightarrow> u64 \<Rightarrow> u32 \<Rightarrow> u32 \<Rightarrow> VirtioMmio" where
  "vm_vsock evt base cid irqn =
     vm_new evt base
       (virtio_default\<lparr>device_id := VIRTIO_ID_VSOCK, features := VIRTIO_F_VERSION_1,
          guest_cid := max cid 3, mac := replicate 6 0, irq := irqn, num_queues := 3\<rparr>)"

definition vm_balloon :: "int \<Rightarrow> u64 \<Rightarrow> u32 \<Rightarrow> VirtioMmio" where
  "vm_balloon evt base irqn =
     vm_new evt base
       (virtio_default\<lparr>device_id := VIRTIO_ID_BALLOON, features := VIRTIO_F_VERSION_1,
          mac := replicate 6 0, irq := irqn, num_queues := 2\<rparr>)"

definition vm_rng :: "int \<Rightarrow> u64 \<Rightarrow> u32 \<Rightarrow> VirtioMmio" where
  "vm_rng evt base irqn =
     vm_new evt base
       (virtio_default\<lparr>device_id := VIRTIO_ID_RNG, features := VIRTIO_F_VERSION_1,
          mac := replicate 6 0, irq := irqn, num_queues := 1\<rparr>)"

text \<open>The tag helpers of \<^verbatim>\<open>virtio_fs.rs\<close>.\<close>

definition FS_TAG_LEN :: nat where "FS_TAG_LEN = 36"

definition validate_tag :: "u8 list \<Rightarrow> unit result" where
  "validate_tag tag =
     (if tag = [] \<or> length tag \<ge> FS_TAG_LEN
      then Inl (Unsupported ''virtio-fs tag must be 1..35 bytes'')
      else if 0 \<in> set tag then Inl (Unsupported ''virtio-fs tag must not contain NUL'')
      else Inr ())"

definition tag_config_bytes :: "u8 list \<Rightarrow> u8 list result" where
  "tag_config_bytes tag =
     rbind (validate_tag tag) (\<lambda>_. Inr (tag @ replicate (FS_TAG_LEN - length tag) 0))"

definition vm_fs :: "int \<Rightarrow> u64 \<Rightarrow> u32 \<Rightarrow> u8 list \<Rightarrow> VirtioMmio result" where
  "vm_fs evt base irqn tag =
     rbind (tag_config_bytes tag) (\<lambda>tg.
       Inr (vm_new evt base
         (virtio_default\<lparr>device_id := VIRTIO_ID_FS, features := VIRTIO_F_VERSION_1,
            mac := replicate 6 0, irq := irqn, num_queues := 2, fs_tag := tg\<rparr>)))"

section \<open>Interrupts and notify\<close>

definition vm_interrupt_evt :: "VirtioMmio \<Rightarrow> int option" where
  "vm_interrupt_evt d = (if interrupt_evt d \<ge> 0 then Some (interrupt_evt d) else None)"

definition trigger_eventfd :: "VirtioMmio \<Rightarrow> VirtioMmio" where
  "trigger_eventfd d = (if interrupt_evt d < 0 then d else d\<lparr>evt_signals := Suc (evt_signals d)\<rparr>)"

definition raise_vring_interrupt :: "VirtioMmio \<Rightarrow> VirtioMmio" where
  "raise_vring_interrupt d =
     trigger_eventfd (d\<lparr>vm_state := (vm_state d)
       \<lparr>interrupt_status := interrupt_status (vm_state d) OR VIRTIO_MMIO_INT_VRING\<rparr>\<rparr>)"

definition raise_config_interrupt :: "VirtioMmio \<Rightarrow> VirtioMmio" where
  "raise_config_interrupt d =
     trigger_eventfd (d\<lparr>vm_state := (vm_state d)
       \<lparr>interrupt_status := interrupt_status (vm_state d) OR VIRTIO_MMIO_INT_CONFIG\<rparr>\<rparr>)"

definition take_notify :: "VirtioMmio \<Rightarrow> u32 option \<times> VirtioMmio" where
  "take_notify d = (notify (vm_state d), d\<lparr>vm_state := (vm_state d)\<lparr>notify := None\<rparr>\<rparr>)"

section \<open>The register file\<close>

definition vm_mmio_range :: "VirtioMmio \<Rightarrow> u64 \<times> u64" where
  "vm_mmio_range d = (vm_base d, vm_base d + vm_size d - 1)"

definition rel :: "VirtioMmio \<Rightarrow> u64 \<Rightarrow> u64" where
  "rel d addr = saturating_sub addr (vm_base d)"

definition max_q :: "VirtioState \<Rightarrow> u32" where
  "max_q st = min (saturating_sub (num_queues st) 1) (of_nat MAX_QUEUES - 1)"

definition sel_index :: "VirtioState \<Rightarrow> nat" where
  "sel_index st = unat (min (sel st) (max_q st))"

definition upd_q :: "(QueueState \<Rightarrow> QueueState) \<Rightarrow> VirtioState \<Rightarrow> VirtioState" where
  "upd_q f st =
     st\<lparr>queues := (queues st)[sel_index st := f (queues st ! sel_index st)]\<rparr>"

definition set_lo :: "u64 \<Rightarrow> u32 \<Rightarrow> u64" where
  "set_lo w val = (w AND NOT 0xffffffff) OR ucast val"

definition set_hi :: "u64 \<Rightarrow> u32 \<Rightarrow> u64" where
  "set_hi w val = (w AND 0xffffffff) OR push_bit 32 (ucast val)"

definition write_val :: "u8 list \<Rightarrow> u32" where
  "write_val data =
     (if length data = 1 then ucast (data ! 0)
      else if length data = 2 then ucast (u16_from_le data)
      else u32_from_le (take 4 (data @ replicate 4 0)))"

definition reset_state :: "VirtioState \<Rightarrow> VirtioState" where
  "reset_state st =
     st\<lparr>driver_features := 0, status := 0, net_active_pairs := 1, sel := 0, notify := None,
        interrupt_status := 0, queues := map (\<lambda>_. queue_default) (queues st)\<rparr>"

definition mmio_write :: "u64 \<Rightarrow> u8 list \<Rightarrow> (VirtioMmio, unit) op" where
  "mmio_write addr data d =
     (let val = write_val data; off = rel d addr; st = vm_state d;
          put = (\<lambda>st'. d\<lparr>vm_state := st'\<rparr>)
      in (Inr (),
        if off = 0x014 then d\<lparr>dev_feat_sel := val\<rparr>
        else if off = 0x024 then d\<lparr>drv_feat_sel := val\<rparr>
        else if off = 0x020 then
          put (st\<lparr>driver_features :=
            (if drv_feat_sel d = 0 then set_lo (driver_features st) val
             else set_hi (driver_features st) val)\<rparr>)
        else if off = 0x030 then put (st\<lparr>sel := val\<rparr>)
        else if off = 0x038 then put (upd_q (\<lambda>q. q\<lparr>q_num := val\<rparr>) st)
        else if off = 0x044 then put (upd_q (\<lambda>q. q\<lparr>q_ready := val\<rparr>) st)
        else if off = 0x050 then put (st\<lparr>notify := Some val\<rparr>)
        else if off = 0x064 then put (st\<lparr>interrupt_status := interrupt_status st AND NOT val\<rparr>)
        else if off = 0x070 then
          (if val = 0 then d\<lparr>vm_state := reset_state st, dev_feat_sel := 0, drv_feat_sel := 0\<rparr>
           else put (st\<lparr>status := val\<rparr>))
        else if off = 0x080 then put (upd_q (\<lambda>q. q\<lparr>q_desc := set_lo (q_desc q) val\<rparr>) st)
        else if off = 0x084 then put (upd_q (\<lambda>q. q\<lparr>q_desc := set_hi (q_desc q) val\<rparr>) st)
        else if off = 0x090 then put (upd_q (\<lambda>q. q\<lparr>q_avail := set_lo (q_avail q) val\<rparr>) st)
        else if off = 0x094 then put (upd_q (\<lambda>q. q\<lparr>q_avail := set_hi (q_avail q) val\<rparr>) st)
        else if off = 0x0a0 then put (upd_q (\<lambda>q. q\<lparr>q_used := set_lo (q_used q) val\<rparr>) st)
        else if off = 0x0a4 then put (upd_q (\<lambda>q. q\<lparr>q_used := set_hi (q_used q) val\<rparr>) st)
        else if off = 0x100 \<and> device_id st = VIRTIO_ID_BALLOON
          then put (st\<lparr>balloon_num_pages := val\<rparr>)
        else d))"

text \<open>Copying \<^verbatim>\<open>bytes[i..i + n]\<close> over the first \<open>n\<close> bytes of the caller's buffer.\<close>

definition copy_out :: "u8 list \<Rightarrow> nat \<Rightarrow> u8 list \<Rightarrow> u8 list" where
  "copy_out bytes i data =
     (let n = min (length data) (length bytes - i) in take n (drop i bytes) @ drop n data)"

text \<open>A window of device configuration, as the arms of the \<^verbatim>\<open>match\<close> on the device id read it.\<close>

definition cfg_window :: "u64 \<Rightarrow> u8 list \<Rightarrow> u64 \<Rightarrow> u8 list \<Rightarrow> u8 list option" where
  "cfg_window lo bytes off data =
     (if lo \<le> off \<and> off < lo + of_nat (length bytes) \<and> data \<noteq> []
      then Some (copy_out bytes (unat (off - lo)) data) else None)"

definition cfg_read :: "VirtioState \<Rightarrow> u64 \<Rightarrow> u8 list \<Rightarrow> u8 list option" where
  "cfg_read st off data =
     (if device_id st = VIRTIO_ID_BLOCK then cfg_window 0x100 (u64_to_le (capacity_sectors st)) off data
      else if device_id st = VIRTIO_ID_VSOCK then
        cfg_window 0x100 (u64_to_le (ucast (guest_cid st))) off data
      else if device_id st = VIRTIO_ID_BALLOON then
        (case cfg_window 0x100 (u32_to_le (balloon_num_pages st)) off data of
           Some r \<Rightarrow> Some r
         | None \<Rightarrow> cfg_window 0x104 (u32_to_le (balloon_actual st)) off data)
      else if device_id st = VIRTIO_ID_RNG then None
      else if device_id st = VIRTIO_ID_FS then cfg_window 0x100 (fs_tag st) off data
      else
        (case (if features st AND VIRTIO_NET_F_MQ \<noteq> 0
               then cfg_window 0x108 (u16_to_le (net_max_pairs st)) off data else None) of
           Some r \<Rightarrow> Some r
         | None \<Rightarrow>
             if 0x100 \<le> off \<and> off < 0x106 then
               Some (if data = [] then [] else data[0 := mac st ! unat (off - 0x100)])
             else if off = 0x106 \<and> length data \<ge> 2 then Some (data[0 := 1, 1 := 0])
             else None))"

definition reg_read :: "VirtioMmio \<Rightarrow> u64 \<Rightarrow> u32" where
  "reg_read d off =
     (let st = vm_state d
      in if off = 0x000 then VIRTIO_MMIO_MAGIC
         else if off = 0x004 then VIRTIO_MMIO_VERSION
         else if off = 0x008 then device_id st
         else if off = 0x00c then 0x554d5846
         else if off = 0x010 then
           (if dev_feat_sel d = 0 then ucast (features st) else ucast (drop_bit 32 (features st)))
         else if off = 0x034 then 256
         else if off = 0x044 then q_ready (queues st ! sel_index st)
         else if off = 0x060 then interrupt_status st
         else if off = 0x070 then status st
         else 0)"

definition mmio_read :: "u64 \<Rightarrow> u8 list \<Rightarrow> (VirtioMmio, u8 list) op" where
  "mmio_read addr data d =
     (let off = rel d addr
      in (Inr (case cfg_read (vm_state d) off data of
            Some r \<Rightarrow> r
          | None \<Rightarrow> copy_out (u32_to_le (reg_read d off)) 0 data), d))"

definition virtio_mmio_device :: "VirtioMmio MmioDevice" where
  "virtio_mmio_device =
     \<lparr>mmio_range = vm_mmio_range, dev_write = mmio_write, dev_read = mmio_read\<rparr>"

section \<open>Well-formed devices\<close>

text \<open>The arrays of the Rust state have fixed lengths.\<close>

definition virtio_wf :: "VirtioState \<Rightarrow> bool" where
  "virtio_wf st \<longleftrightarrow> length (queues st) = MAX_QUEUES \<and> length (mac st) = 6 \<and> length (fs_tag st) = 36"

definition mmio_wf :: "VirtioMmio \<Rightarrow> bool" where
  "mmio_wf d \<longleftrightarrow> virtio_wf (vm_state d)"

text \<open>The register window does not wrap around the end of the address space.\<close>

definition window_ok :: "VirtioMmio \<Rightarrow> bool" where
  "window_ok d \<longleftrightarrow> unat (vm_base d) + 0x200 \<le> 2 ^ 64"

text \<open>
  What can happen to a device: register accesses of the guest, interrupts and notify handling on
  the host, and the three fields the queue handlers write.
\<close>

datatype mmio_event =
    GuestWrite u64 "u8 list"
  | GuestRead u64 "u8 list"
  | RaiseVring
  | RaiseConfig
  | TakeNotify
  | AdvanceQueue nat u16
  | SetActivePairs u16
  | SetBalloonActual u32

fun vm_step :: "mmio_event \<Rightarrow> VirtioMmio \<Rightarrow> VirtioMmio" where
  "vm_step (GuestWrite addr data) d = snd (mmio_write addr data d)"
| "vm_step (GuestRead addr data) d = snd (mmio_read addr data d)"
| "vm_step RaiseVring d = raise_vring_interrupt d"
| "vm_step RaiseConfig d = raise_config_interrupt d"
| "vm_step TakeNotify d = snd (take_notify d)"
| "vm_step (AdvanceQueue i v) d =
     d\<lparr>vm_state := (vm_state d)\<lparr>queues := (queues (vm_state d))
        [i := (queues (vm_state d) ! i)\<lparr>q_last_avail := v\<rparr>]\<rparr>\<rparr>"
| "vm_step (SetActivePairs n) d = d\<lparr>vm_state := (vm_state d)\<lparr>net_active_pairs := n\<rparr>\<rparr>"
| "vm_step (SetBalloonActual n) d = d\<lparr>vm_state := (vm_state d)\<lparr>balloon_actual := n\<rparr>\<rparr>"

text \<open>The device with everything a driver can change put back to its initial value.\<close>

definition scrub :: "VirtioMmio \<Rightarrow> VirtioMmio" where
  "scrub d = d\<lparr>dev_feat_sel := 0, drv_feat_sel := 0, evt_signals := 0,
     vm_state := (reset_state (vm_state d))\<lparr>balloon_num_pages := 0, balloon_actual := 0\<rparr>\<rparr>"

definition is_fresh :: "VirtioMmio \<Rightarrow> bool" where
  "is_fresh d \<longleftrightarrow> scrub d = d"

text \<open>A driver's 32-bit access to the register at an offset.\<close>

definition driver_write :: "u64 \<Rightarrow> u32 \<Rightarrow> VirtioMmio \<Rightarrow> VirtioMmio" where
  "driver_write off v d = snd (mmio_write (vm_base d + off) (u32_to_le v) d)"

definition driver_read :: "u64 \<Rightarrow> VirtioMmio \<Rightarrow> u8 list result" where
  "driver_read off d = fst (mmio_read (vm_base d + off) [0, 0, 0, 0] d)"

section \<open>Lemmas\<close>

lemma map_const_update [simp]: "map (\<lambda>_. c) (xs[i := y]) = map (\<lambda>_. c) xs"
  by (simp add: map_replicate_const)

lemma mmio_write_Inr [simp]: "fst (mmio_write addr data d) = Inr ()"
  by (simp add: mmio_write_def Let_def)

lemma mmio_read_state [simp]: "snd (mmio_read addr data d) = d"
  by (simp add: mmio_read_def Let_def)

lemma max_q_le: "unat (max_q st) \<le> 8"
  by (simp add: max_q_def MAX_QUEUES_def min_def word_le_nat_alt)

lemma sel_index_bound: "virtio_wf st \<Longrightarrow> sel_index st < length (queues st)"
  using max_q_le [of st]
  by (auto simp: sel_index_def virtio_wf_def MAX_QUEUES_def min_def word_le_nat_alt)

lemma scrub_mmio_write: "scrub (snd (mmio_write addr data d)) = scrub d"
  by (simp add: mmio_write_def Let_def scrub_def reset_state_def upd_q_def)

lemma scrub_step: "scrub (vm_step e d) = scrub d"
  by (cases e)
    (simp_all add: scrub_mmio_write, simp_all add: scrub_def reset_state_def take_notify_def
      raise_vring_interrupt_def raise_config_interrupt_def trigger_eventfd_def)

interpretation scrubbed: step_system vm_step "\<lambda>d. scrub d = scrub d0" for d0
  by unfold_locales (simp add: scrub_step)

lemma wf_mmio_write: "mmio_wf d \<Longrightarrow> mmio_wf (snd (mmio_write addr data d))"
  by (simp add: mmio_write_def Let_def mmio_wf_def virtio_wf_def reset_state_def upd_q_def)

lemma length_copy_out [simp]: "length (copy_out bytes i data) = length data"
  by (simp add: copy_out_def Let_def)

lemma length_cfg_window: "cfg_window lo bytes off data = Some r \<Longrightarrow> length r = length data"
  by (auto simp: cfg_window_def split: if_splits)

lemma length_cfg_read: "cfg_read st off data = Some r \<Longrightarrow> length r = length data"
  by (auto simp: cfg_read_def dest: length_cfg_window split: if_splits option.splits)

interpretation virtio_bus: bus_device vm_mmio_range mmio_write mmio_read mmio_wf
proof
  fix d :: VirtioMmio and x data bs
  show "vm_mmio_range (snd (mmio_write x data d)) = vm_mmio_range d"
    by (simp add: mmio_write_def Let_def vm_mmio_range_def)
  show "vm_mmio_range (snd (mmio_read x data d)) = vm_mmio_range d" by simp
  show "mmio_wf d \<Longrightarrow> mmio_wf (snd (mmio_write x data d))" by (rule wf_mmio_write)
  show "mmio_wf d \<Longrightarrow> mmio_wf (snd (mmio_read x data d))" by simp
  show "fst (mmio_read x data d) = Inr bs \<Longrightarrow> length bs = length data"
    by (auto simp: mmio_read_def Let_def dest: length_cfg_read split: option.splits)
qed

lemma rel_base: "window_ok d \<Longrightarrow> unat off < 0x200 \<Longrightarrow> rel d (vm_base d + off) = off"
proof -
  assume w: "window_ok d" "unat off < 0x200"
  then have "unat (vm_base d + off) = unat (vm_base d) + unat off"
    by (subst unat_add_no_wrap) (auto simp: window_ok_def)
  then have "vm_base d \<le> vm_base d + off" by (simp add: word_le_nat_alt)
  then show "rel d (vm_base d + off) = off"
    by (auto simp: rel_def saturating_sub_def)
qed

lemma write_val_u32 [simp]: "write_val (u32_to_le v) = v"
  by (simp add: write_val_def)

lemma low_half_mask: "(0xffffffff :: u64) = mask 32"
  by (simp add: mask_eq_exp_minus_1)

lemma set_hi_lo:
  "set_hi (set_lo w (ucast a)) (ucast (drop_bit 32 a)) = a"
  "set_lo (set_hi w (ucast (drop_bit 32 a))) (ucast a) = a"
  by (rule bit_word_eqI; auto simp: set_hi_def set_lo_def low_half_mask bit_simps)+

lemma window_ok_driver_write [simp]: "window_ok (driver_write off v d) = window_ok d"
  by (simp add: window_ok_def driver_write_def mmio_write_def Let_def)

text \<open>One register write of the driver, by register.\<close>

lemma driver_write_reg:
  assumes "window_ok d"
  shows "driver_write 0x014 v d = d\<lparr>dev_feat_sel := v\<rparr>"
    and "driver_write 0x024 v d = d\<lparr>drv_feat_sel := v\<rparr>"
    and "driver_write 0x020 v d = d\<lparr>vm_state := (vm_state d)\<lparr>driver_features :=
          (if drv_feat_sel d = 0 then set_lo (driver_features (vm_state d)) v
           else set_hi (driver_features (vm_state d)) v)\<rparr>\<rparr>"
    and "driver_write 0x030 v d = d\<lparr>vm_state := (vm_state d)\<lparr>sel := v\<rparr>\<rparr>"
    and "driver_write 0x038 v d = d\<lparr>vm_state := upd_q (\<lambda>q. q\<lparr>q_num := v\<rparr>) (vm_state d)\<rparr>"
    and "driver_write 0x044 v d = d\<lparr>vm_state := upd_q (\<lambda>q. q\<lparr>q_ready := v\<rparr>) (vm_state d)\<rparr>"
    and "driver_write 0x080 v d =
          d\<lparr>vm_state := upd_q (\<lambda>q. q\<lparr>q_desc := set_lo (q_desc q) v\<rparr>) (vm_state d)\<rparr>"
    and "driver_write 0x084 v d =
          d\<lparr>vm_state := upd_q (\<lambda>q. q\<lparr>q_desc := set_hi (q_desc q) v\<rparr>) (vm_state d)\<rparr>"
    and "driver_write 0x090 v d =
          d\<lparr>vm_state := upd_q (\<lambda>q. q\<lparr>q_avail := set_lo (q_avail q) v\<rparr>) (vm_state d)\<rparr>"
    and "driver_write 0x094 v d =
          d\<lparr>vm_state := upd_q (\<lambda>q. q\<lparr>q_avail := set_hi (q_avail q) v\<rparr>) (vm_state d)\<rparr>"
    and "driver_write 0x0a0 v d =
          d\<lparr>vm_state := upd_q (\<lambda>q. q\<lparr>q_used := set_lo (q_used q) v\<rparr>) (vm_state d)\<rparr>"
    and "driver_write 0x0a4 v d =
          d\<lparr>vm_state := upd_q (\<lambda>q. q\<lparr>q_used := set_hi (q_used q) v\<rparr>) (vm_state d)\<rparr>"
    and "driver_write 0x070 0 d =
          d\<lparr>vm_state := reset_state (vm_state d), dev_feat_sel := 0, drv_feat_sel := 0\<rparr>"
  by (simp_all add: driver_write_def mmio_write_def Let_def rel_base [OF assms])

lemma upd_q_upd_q:
  assumes "virtio_wf st"
  shows "upd_q g (upd_q f st) = upd_q (g \<circ> f) st"
  using sel_index_bound [OF assms]
  by (simp add: upd_q_def sel_index_def max_q_def)

lemma upd_q_keeps [simp]:
  "virtio_wf (upd_q f st) = virtio_wf st"
  "window_ok (d\<lparr>vm_state := st'\<rparr>) = window_ok d"
  "window_ok (d\<lparr>dev_feat_sel := v\<rparr>) = window_ok d"
  "window_ok (d\<lparr>drv_feat_sel := v\<rparr>) = window_ok d"
  by (simp_all add: upd_q_def virtio_wf_def window_ok_def)

lemma sel_index_sel:
  assumes "i < num_queues st" and "i < 9"
  shows "sel_index (st\<lparr>sel := i\<rparr>) = unat i"
proof -
  have "i \<le> num_queues st - 1" "i \<le> 8" "1 \<le> num_queues st"
    using assms by (auto simp: word_le_nat_alt word_less_nat_alt unat_sub_if_size)
  then have "i \<le> max_q st"
    by (auto simp: max_q_def MAX_QUEUES_def saturating_sub_def)
  then show ?thesis by (simp add: sel_index_def max_q_def min_absorb1)
qed

lemma cfg_read_below [simp]: "unat off < 0x100 \<Longrightarrow> cfg_read st off data = None"
  by (simp add: cfg_read_def cfg_window_def word_le_nat_alt)
    (auto simp: word_less_nat_alt)

lemma driver_read_reg:
  assumes "window_ok d" and "unat off < 0x100"
  shows "driver_read off d = Inr (u32_to_le (reg_read d off))"
  using assms by (simp add: driver_read_def mmio_read_def rel_base copy_out_def)

lemma queue_fields:
  "q\<lparr>q_num := n, q_desc := dsc, q_avail := av, q_used := us, q_ready := r\<rparr> =
   \<lparr>q_num = n, q_ready = r, q_desc = dsc, q_avail = av, q_used = us, q_last_avail = q_last_avail q\<rparr>"
  by (cases q) simp

section \<open>Properties\<close>


lemma constructors_fresh:
  "is_fresh (vm_net evt base mc)"
  "is_fresh (vm_net_mq evt base mc pairs)"
  "is_fresh (vm_block evt base cap ro)"
  "is_fresh (vm_vsock evt base cid irqn)"
  "is_fresh (vm_balloon evt base irqn)"
  "is_fresh (vm_rng evt base irqn)"
  "vm_fs evt base irqn tag = Inr d \<Longrightarrow> is_fresh d"
  by (auto simp: is_fresh_def scrub_def reset_state_def vm_new_def vm_net_def vm_net_mq_def
      vm_block_def vm_vsock_def vm_balloon_def vm_rng_def vm_fs_def virtio_default_def Let_def
      map_replicate_const result_simps)


text \<open>
  Queue set-up. The driver's register writes for queue \<open>i\<close> (selector, size, the two halves of
  the three ring addresses, ready) program exactly that queue with exactly these 64-bit addresses
  and leave every other queue alone.
\<close>

theorem queue_setup_programs:
  assumes "mmio_wf d" and "window_ok d" and "i < num_queues (vm_state d)" and "i < 9"
  shows "vm_state (fold (\<lambda>(off, v). driver_write off v)
       [(0x030, i), (0x038, n), (0x080, ucast dsc), (0x084, ucast (drop_bit 32 dsc)),
        (0x090, ucast av), (0x094, ucast (drop_bit 32 av)),
        (0x0a0, ucast us), (0x0a4, ucast (drop_bit 32 us)), (0x044, 1)] d)
    = (vm_state d)\<lparr>sel := i, queues := (queues (vm_state d))[unat i :=
        \<lparr>q_num = n, q_ready = 1, q_desc = dsc, q_avail = av, q_used = us,
         q_last_avail = q_last_avail (queues (vm_state d) ! unat i)\<rparr>]\<rparr>"
proof -
  have wf: "virtio_wf ((vm_state d)\<lparr>sel := i\<rparr>)"
    using assms(1) by (simp add: mmio_wf_def virtio_wf_def)
  show ?thesis
    using sel_index_sel [OF assms(3,4)] assms(2)
    by (simp add: driver_write_reg upd_q_upd_q wf)
      (simp add: upd_q_def comp_def set_hi_lo queue_fields)
qed

theorem queue_setup_programs_witness:
  "q_desc (queues (vm_state (fold (\<lambda>(off, v). driver_write off v)
       [(0x030, 1), (0x038, 256), (0x080, 0x23456789), (0x084, 1), (0x090, 0x2000), (0x094, 0),
        (0x0a0, 0x3000), (0x0a4, 0), (0x044, 1)]
       (vm_net 3 0xd0000000 [2, 0, 0, 0, 0, 2]))) ! 1) = 0x123456789"
proof -
  let ?d = "vm_net 3 0xd0000000 [2, 0, 0, 0, 0, 2]"
  have "mmio_wf ?d" "window_ok ?d" "num_queues (vm_state ?d) = 2"
    "length (queues (vm_state ?d)) = 9"
    by (simp_all add: vm_net_def vm_new_def mmio_wf_def virtio_wf_def virtio_default_def
        window_ok_def MAX_QUEUES_def)
  moreover have mod_eq: "(0x123456789 :: u32) = 0x23456789" by simp
  ultimately show ?thesis
    using queue_setup_programs [of ?d 1 256 "0x123456789" "0x2000" "0x3000"] mod_eq by simp
qed

text \<open>
  Feature negotiation. A driver that selects and reads the two halves of the device features
  gets all 64 bits of them, and one that selects and writes two halves leaves exactly that 64-bit
  value as the accepted driver features.
\<close>

theorem feature_negotiation:
  assumes "window_ok d"
  shows "driver_read 0x010 (driver_write 0x014 0 d) = Inr (u32_to_le (ucast (features (vm_state d))))
    \<and> driver_read 0x010 (driver_write 0x014 1 d) =
        Inr (u32_to_le (ucast (drop_bit 32 (features (vm_state d)))))
    \<and> driver_features (vm_state (fold (\<lambda>(off, v). driver_write off v)
        [(0x024, 0), (0x020, ucast f), (0x024, 1), (0x020, ucast (drop_bit 32 f))] d)) = f"
  using assms
  by (simp add: driver_write_reg set_hi_lo driver_read_reg reg_read_def)

theorem feature_negotiation_witness:
  "driver_read 0x010 (driver_write 0x014 1 (vm_block 3 0xd0000000 2048 True)) = Inr [1, 0, 0, 0]"
  using feature_negotiation [of "vm_block 3 0xd0000000 2048 True" 0]
  by (simp add: window_ok_def vm_block_def vm_new_def virtio_default_def virtio_consts u32_to_le_def)

text \<open>
  Configuration space. On a block device the eight bytes from offset 0x100 are the
  little-endian capacity in sectors, on a vsock device the guest CID, on a virtio-fs device the
  36 bytes hold the tag. The guest may read them in pieces of any size and alignment inside the
  window and gets exactly the bytes of that piece.
\<close>

theorem config_space_reads:
  assumes "window_ok d" and "data \<noteq> []" and "i + length data \<le> length cfg"
    and "device_id (vm_state d) = VIRTIO_ID_BLOCK \<and> cfg = u64_to_le (capacity_sectors (vm_state d))
      \<or> device_id (vm_state d) = VIRTIO_ID_VSOCK \<and> cfg = u64_to_le (ucast (guest_cid (vm_state d)))
      \<or> device_id (vm_state d) = VIRTIO_ID_FS \<and> cfg = fs_tag (vm_state d) \<and> length cfg = 36"
  shows "mmio_read (vm_base d + (0x100 + of_nat i)) data d = (Inr (slice i (i + length data) cfg), d)"
proof -
  have len: "length cfg \<le> 36" using assms(4) by auto
  have il: "i < length cfg" using assms(2,3) by (cases data) auto
  have i: "unat (of_nat i :: u64) = i" using len il by (simp add: unat_of_nat)
  have off: "unat (0x100 + of_nat i :: u64) = 0x100 + i"
    using len il i by (subst unat_add_no_wrap) auto
  have rel: "rel d (vm_base d + (0x100 + of_nat i)) = 0x100 + of_nat i"
    using assms(1) off len il by (intro rel_base) auto
  have win: "cfg_window 0x100 cfg (0x100 + of_nat i) data = Some (slice i (i + length data) cfg)"
    using assms(2,3) len il off
    by (auto simp: cfg_window_def copy_out_def slice_def word_le_nat_alt word_less_nat_alt i
        unat_of_nat unat_word_ariths min_def)
  show ?thesis
    using assms(4) win rel
    by (auto simp: mmio_read_def cfg_read_def virtio_consts)
qed

theorem config_space_reads_witness:
  "mmio_read 0xd0000102 [0, 0] (vm_block 3 0xd0000000 0x12345678 False) =
     (Inr [0x34, 0x12], vm_block 3 0xd0000000 0x12345678 False)"
  using config_space_reads [of "vm_block 3 0xd0000000 0x12345678 False" "[0, 0]" 2
      "u64_to_le 0x12345678"]
  by (simp add: window_ok_def vm_block_def vm_new_def virtio_default_def virtio_consts u64_to_le_def
      slice_def)

theorem mmio_routing_witness:
  "fst (bus_mmio_read virtio_mmio_device 0xd0001008 [0, 0, 0, 0]
     \<lparr>pio = ([] :: unit list), mmio = [vm_net 5 0xd0000000 [2, 0, 0, 0, 0, 2], vm_block 6 0xd0001000 2048 False]\<rparr>)
   = Inr [2, 0, 0, 0]"
proof -
  let ?d = "vm_block 6 0xd0001000 2048 False"
  let ?b = "\<lparr>pio = ([] :: unit list), mmio = [vm_net 5 0xd0000000 [2, 0, 0, 0, 0, 2], ?d]\<rparr>"
  have disj: "ranges_disjoint (mmio_range virtio_mmio_device) (mmio ?b)"
    by (simp add: ranges_disjoint_def in_range_def virtio_mmio_device_def vm_mmio_range_def
        vm_net_def vm_block_def vm_new_def virtio_consts nth_Cons' word_le_nat_alt)
  have rng: "in_range (mmio_range virtio_mmio_device (mmio ?b ! 1)) 0xd0001008"
    by (simp add: in_range_def virtio_mmio_device_def vm_mmio_range_def vm_block_def vm_new_def
        virtio_consts)
  have w: "window_ok ?d" "vm_base ?d = 0xd0001000" "device_id (vm_state ?d) = 2"
    by (simp_all add: window_ok_def vm_block_def vm_new_def virtio_consts)
  have "fst (mmio_read 0xd0001008 [0, 0, 0, 0] ?d) = Inr [2, 0, 0, 0]"
    using driver_read_reg [OF w(1), of 8]
    by (simp add: driver_read_def w reg_read_def u32_to_le_def)
  then show ?thesis
    using mmio_routing [OF disj, of 1 "0xd0001008" "[0, 0, 0, 0]"] rng
    by (simp add: virtio_mmio_device_def)
qed

end
