(* ===== verification/Queue_Device.thy ===== *)
theory Queue_Device
  imports Virtqueue Virtio_Mmio
begin

text \<open>
  The contract every queue device keeps with the transport: handling a notification may write
  guest RAM and advance the device's position in its queues, and nothing else of the registers the
  driver programmed. Each device theory interprets \<open>queue_device\<close> on its own handler.
\<close>

section \<open>Definitions\<close>

definition q_view :: "QueueState \<Rightarrow> QueueState" where
  "q_view q = q\<lparr>q_last_avail := 0\<rparr>"

text \<open>The registers of a device with the fields its handlers advance masked out.\<close>

definition ring_view :: "VirtioState \<Rightarrow> VirtioState" where
  "ring_view st = st\<lparr>queues := map q_view (queues st), balloon_actual := 0, net_active_pairs := 0\<rparr>"

definition get_q :: "VirtioState \<Rightarrow> nat \<Rightarrow> QueueState" where
  "get_q st i = queues st ! i"

definition set_last_avail :: "nat \<Rightarrow> u16 \<Rightarrow> VirtioState \<Rightarrow> VirtioState" where
  "set_last_avail i v st = st\<lparr>queues := (queues st)[i := (queues st ! i)\<lparr>q_last_avail := v\<rparr>]\<rparr>"

text \<open>
  The head of every notify loop: nothing when the device has caught up with the available index,
  else the chain head in the next slot of the available ring.
\<close>

definition pop_avail :: "QueueState \<Rightarrow> GuestMemory \<Rightarrow> u16 option result" where
  "pop_avail q m =
     rbind (read_avail_idx (q_avail q) m) (\<lambda>avail_idx.
       if q_last_avail q = avail_idx then Inr None
       else rbind (read_avail_head (q_avail q) (q_num q) (q_last_avail q) m) (\<lambda>head. Inr (Some head)))"

text \<open>
  What a driver linked: the indices and descriptors of a chain, each read by \<open>rd\<close>, accepted by
  \<open>good\<close>, inside the table and naming the next one, the last one without the next flag.
\<close>

fun desc_path ::
  "(u16 \<Rightarrow> Desc result) \<Rightarrow> (Desc \<Rightarrow> bool) \<Rightarrow> u32 \<Rightarrow> u16 list \<Rightarrow> Desc list \<Rightarrow> bool" where
  "desc_path rd good qnum [] ds \<longleftrightarrow> False"
| "desc_path rd good qnum (i # is) ds \<longleftrightarrow>
     (case ds of
        [] \<Rightarrow> False
      | d # ds' \<Rightarrow>
          ucast i < qnum \<and> rd i = Inr d \<and> good d \<and>
          has_flag (d_flags d) VRING_DESC_F_NEXT = (is \<noteq> []) \<and>
          (if is = [] then ds' = [] else d_next d = hd is \<and> desc_path rd good qnum is ds'))"

section \<open>Lemmas\<close>

lemma desc_path_indices: "desc_path rd good qnum is ds \<Longrightarrow> i \<in> set is \<Longrightarrow> unat i < unat qnum"
  by (induction "is" arbitrary: ds) (auto simp: word_less_nat_alt split: list.splits if_splits)

lemma desc_path_fits:
  assumes "desc_path rd good qnum is ds" and "distinct is"
  shows "length is \<le> unat qnum"
proof -
  have "inj_on (unat :: u16 \<Rightarrow> nat) (set is)" by (auto simp: inj_on_def word_unat_eq_iff)
  then have "card ((unat :: u16 \<Rightarrow> nat) ` set is) = length is"
    using assms(2) by (simp add: card_image distinct_card)
  moreover have "unat ` set is \<subseteq> {..<unat qnum}" using desc_path_indices [OF assms(1)] by auto
  ultimately show ?thesis using card_mono [of "{..<unat qnum}" "unat ` set is"] by simp
qed

lemma q_view_last_avail [simp]: "q_view (q\<lparr>q_last_avail := v\<rparr>) = q_view q"
  by (simp add: q_view_def)

lemma map_q_view_update [simp]:
  "map q_view (qs[i := (qs ! i)\<lparr>q_last_avail := v\<rparr>]) = map q_view qs"
proof (cases "i < length qs")
  case True
  then have "(map q_view qs)[i := q_view (qs ! i)] = map q_view qs"
    by (metis list_update_id nth_map)
  then show ?thesis by (simp add: map_update)
qed (simp add: list_update_beyond)

lemma ring_view_set_last_avail [simp]: "ring_view (set_last_avail i v st) = ring_view st"
  by (simp add: ring_view_def set_last_avail_def)

lemma ring_view_simps [simp]:
  "ring_view (st\<lparr>balloon_actual := a\<rparr>) = ring_view st"
  "ring_view (st\<lparr>net_active_pairs := n\<rparr>) = ring_view st"
  by (simp_all add: ring_view_def)

lemma get_q_set_last_avail:
  "i < length (queues st) \<Longrightarrow>
   get_q (set_last_avail i v st) i = (get_q st i)\<lparr>q_last_avail := v\<rparr>"
  by (simp add: get_q_def set_last_avail_def)

lemma length_set_last_avail [simp]:
  "length (queues (set_last_avail i v st)) = length (queues st)"
  by (simp add: set_last_avail_def)

lemma ring_view_queue:
  assumes "ring_view st' = ring_view st" and "i < length (queues st)"
  shows "q_num (get_q st' i) = q_num (get_q st i)" and "q_ready (get_q st' i) = q_ready (get_q st i)"
    and "q_desc (get_q st' i) = q_desc (get_q st i)" and "q_avail (get_q st' i) = q_avail (get_q st i)"
    and "q_used (get_q st' i) = q_used (get_q st i)"
proof -
  have "map q_view (queues st') = map q_view (queues st)"
    using arg_cong [OF assms(1), of queues] by (simp add: ring_view_def)
  then have "map q_view (queues st') ! i = map q_view (queues st) ! i"
    and "length (queues st') = length (queues st)"
    by (auto dest: map_eq_imp_length_eq)
  then have v: "q_view (get_q st' i) = q_view (get_q st i)"
    using assms(2) by (simp add: get_q_def)
  show "q_num (get_q st' i) = q_num (get_q st i)" "q_ready (get_q st' i) = q_ready (get_q st i)"
    "q_desc (get_q st' i) = q_desc (get_q st i)" "q_avail (get_q st' i) = q_avail (get_q st i)"
    "q_used (get_q st' i) = q_used (get_q st i)"
    using v [THEN arg_cong, of q_num] v [THEN arg_cong, of q_ready] v [THEN arg_cong, of q_desc]
      v [THEN arg_cong, of q_avail] v [THEN arg_cong, of q_used]
    by (simp_all add: q_view_def)
qed

section \<open>The contract\<close>

locale queue_device =
  fixes handle :: "'e \<Rightarrow> 's \<Rightarrow> 's"
    and dmem :: "'s \<Rightarrow> GuestMemory"
    and dst :: "'s \<Rightarrow> VirtioState"
    and ok :: "'s \<Rightarrow> bool"
  assumes handle_ok: "ok s \<Longrightarrow> ok (handle e s)"
    and handle_ram_len: "ok s \<Longrightarrow> ram_len (dmem (handle e s)) = ram_len (dmem s)"
    and handle_rings: "ok s \<Longrightarrow> ring_view (dst (handle e s)) = ring_view (dst s)"
begin

lemma run_keeps:
  assumes "ok s"
  shows "ok (fold handle es s) \<and> ram_len (dmem (fold handle es s)) = ram_len (dmem s)
    \<and> ring_view (dst (fold handle es s)) = ring_view (dst s)"
  using assms
  by (induction es arbitrary: s) (simp_all add: handle_ok handle_ram_len handle_rings)

lemma run_used_ring:
  assumes "ok s" and "i < length (queues (dst s))"
    and "used_ring_ok (dmem s) (q_used (get_q (dst s) i)) (q_num (get_q (dst s) i))"
  shows "used_ring_ok (dmem (fold handle es s)) (q_used (get_q (dst (fold handle es s)) i))
     (q_num (get_q (dst (fold handle es s)) i))"
  using assms(3) run_keeps [OF assms(1), of es]
    ring_view_queue [OF conjunct2 [OF conjunct2 [OF run_keeps [OF assms(1)]]] assms(2)]
  by (simp add: used_ring_ok_def mem_ok_def)

end

section \<open>Notify loops\<close>

text \<open>
  The loop of a notify handler: take the next chain head until the ring is drained, serve the
  chain, count it, and stop once more than 64 were counted. The count is a \<^verbatim>\<open>u32\<close> that may start above
  zero, so it may wrap once.
\<close>

definition round_budget :: "u32 \<Rightarrow> nat" where
  "round_budget n = (if 64 < n then 66 else 65 - unat n)"

lemma round_decreases:
  assumes "\<not> 64 < (n :: u32) + 1"
  shows "round_budget (n + 1) < round_budget n"
proof (cases "64 < n")
  case False
  then have "unat n \<le> 64" by (simp add: word_less_nat_alt)
  then have "unat (n + 1) = unat n + 1" by (subst unat_add_no_wrap) auto
  then show ?thesis using assms False by (simp add: word_less_nat_alt round_budget_def)
qed (use assms in \<open>simp add: round_budget_def\<close>)

function notify_loop ::
  "('s \<Rightarrow> u16 option result) \<Rightarrow> (u16 \<Rightarrow> ('s, unit) op) \<Rightarrow> u32 \<Rightarrow> ('s, u32) op" where
  "notify_loop pop serve n s =
     (case pop s of
        Inl e \<Rightarrow> (Inl e, s)
      | Inr None \<Rightarrow> (Inr n, s)
      | Inr (Some head) \<Rightarrow>
          (case serve head s of
             (Inl e, s') \<Rightarrow> (Inl e, s')
           | (Inr _, s') \<Rightarrow> if 64 < n + 1 then (Inr (n + 1), s') else notify_loop pop serve (n + 1) s'))"
  by pat_completeness auto

termination
  by (relation "measure (\<lambda>(pop, serve, n, s). round_budget n)", rule wf_measure)
     (unfold in_measure prod.case, erule round_decreases)

declare notify_loop.simps [simp del]

lemma round_budget_le: "round_budget n \<le> 66"
  using diff_le_self [of 65 "unat n"] by (auto simp: round_budget_def)

lemma round_budget_pos: "1 \<le> round_budget n"
  by (auto simp: round_budget_def word_less_nat_alt)

text \<open>
  What serving one chain has to promise: \<open>served k s s'\<close> says that \<open>s'\<close> is \<open>s\<close> after \<open>k\<close> chains.
\<close>

locale chain_server =
  fixes pop :: "'s \<Rightarrow> u16 option result"
    and serve :: "u16 \<Rightarrow> ('s, unit) op"
    and served :: "nat \<Rightarrow> 's \<Rightarrow> 's \<Rightarrow> bool"
  assumes served_none: "served 0 s s"
    and served_trans: "served j s s' \<Longrightarrow> served k s' s'' \<Longrightarrow> served (j + k) s s''"
    and serve_done: "serve head s = (Inr u, s') \<Longrightarrow> served 1 s s'"
    and serve_failed: "serve head s = (Inl e, s') \<Longrightarrow> served 0 s s'"
begin

lemma loop_round:
  assumes "pop s = Inr (Some head)" and "serve head s = (Inr u, s')"
  shows "notify_loop pop serve n s = (if 64 < n + 1 then (Inr (n + 1), s') else notify_loop pop serve (n + 1) s')"
  using assms by (subst notify_loop.simps) simp

lemma loop_served: "\<exists>k \<le> round_budget n. served k s (snd (notify_loop pop serve n s))"
proof (induction "round_budget n" arbitrary: n s rule: less_induct)
  case less
  have stop: ?case if "snd (notify_loop pop serve n s) = s'" "served 0 s s'" for s'
    using that by (intro exI [of _ 0]) simp
  show ?case
  proof (cases "\<exists>head. pop s = Inr (Some head)")
    case False
    then have "snd (notify_loop pop serve n s) = s"
      by (subst notify_loop.simps) (auto split: sum.splits option.splits)
    then show ?thesis using stop served_none by blast
  next
    case True
    then obtain head where p: "pop s = Inr (Some head)" by blast
    obtain r s' where sv: "serve head s = (r, s')" by (cases "serve head s") auto
    show ?thesis
    proof (cases r)
      case (Inl e)
      have "snd (notify_loop pop serve n s) = s'" using p sv Inl by (subst notify_loop.simps) simp
      then show ?thesis using stop serve_failed sv Inl by blast
    next
      case (Inr u)
      note d = serve_done [OF sv [unfolded Inr]] and l = loop_round [OF p sv [unfolded Inr], of n]
      show ?thesis
      proof (cases "64 < n + 1")
        case True
        then show ?thesis using d l round_budget_pos by (intro exI [of _ 1]) simp
      next
        case False
        obtain k where "k \<le> round_budget (n + 1)" "served k s' (snd (notify_loop pop serve (n + 1) s'))"
          using less [OF round_decreases [OF False]] by blast
        then show ?thesis using l False round_decreases [OF False] served_trans [OF d, of k]
          by (intro exI [of _ "1 + k"]) simp
      qed
    qed
  qed
qed

end

end
