(* ===== verification/Rate_Limiter.thy ===== *)
theory Rate_Limiter
  imports Complex_Main Flux_Prelude
begin

text \<open>
  The token bucket of \<^verbatim>\<open>devices/rate_limiter.rs\<close> that meters block and network requests.
  The \<^verbatim>\<open>f64\<close> token count is a real number, an \<^verbatim>\<open>Instant\<close> is a number of seconds, and
  the clock reading of \<^verbatim>\<open>consume\<close> is an argument. \<^verbatim>\<open>duration_since\<close> saturates at zero.
\<close>

section \<open>Definitions\<close>

record RateLimiter =
  lim_capacity :: u64
  tokens :: real
  refill_per_sec :: real
  last_refill :: real

definition f64_max :: real where
  "f64_max = (2 - 1 / 2 ^ 52) * 2 ^ 1023"

definition unlimited :: "real \<Rightarrow> RateLimiter" where
  "unlimited now =
     \<lparr>lim_capacity = - 1, tokens = f64_max, refill_per_sec = 0, last_refill = now\<rparr>"

definition from_mbit :: "u32 \<Rightarrow> real \<Rightarrow> RateLimiter" where
  "from_mbit mbit_limit now =
     (if mbit_limit = 0 then unlimited now
      else let bytes_per_sec = (ucast mbit_limit :: u64) * 1000000 div 8
           in \<lparr>lim_capacity = bytes_per_sec, tokens = real (unat bytes_per_sec),
               refill_per_sec = real (unat bytes_per_sec), last_refill = now\<rparr>)"

definition consume :: "real \<Rightarrow> u64 \<Rightarrow> RateLimiter \<Rightarrow> bool \<times> RateLimiter" where
  "consume now bytes g =
     (if lim_capacity g = - 1 then (True, g)
      else let elapsed = max 0 (now - last_refill g);
               t = min (tokens g + elapsed * refill_per_sec g) (real (unat (lim_capacity g)));
               g' = g\<lparr>last_refill := now, tokens := t\<rparr>
           in if t \<ge> real (unat bytes)
              then (True, g'\<lparr>tokens := t - real (unat bytes)\<rparr>)
              else (False, g'))"

text \<open>The bytes a sequence of timed requests is granted.\<close>

fun granted :: "(real \<times> u64) list \<Rightarrow> RateLimiter \<Rightarrow> nat" where
  "granted [] g = 0"
| "granted ((now, bytes) # rs) g =
     (let r = consume now bytes g in (if fst r then unat bytes else 0) + granted rs (snd r))"

text \<open>The request times do not go back before the last refill.\<close>

fun monotone_from :: "real \<Rightarrow> (real \<times> u64) list \<Rightarrow> bool" where
  "monotone_from t [] \<longleftrightarrow> True"
| "monotone_from t ((now, bytes) # rs) \<longleftrightarrow> t \<le> now \<and> monotone_from now rs"

definition bucket_ok :: "RateLimiter \<Rightarrow> bool" where
  "bucket_ok g \<longleftrightarrow> 0 \<le> tokens g \<and> 0 \<le> refill_per_sec g \<and>
     (lim_capacity g \<noteq> - 1 \<longrightarrow> tokens g \<le> real (unat (lim_capacity g)))"

section \<open>Lemmas\<close>

declare of_nat_unat [simp del]

lemma bucket_ok_consume: "bucket_ok g \<Longrightarrow> bucket_ok (snd (consume now bytes g))"
  by (auto simp: bucket_ok_def consume_def Let_def min_def max_def)

lemma consume_refill [simp]:
  "refill_per_sec (snd (consume now bytes g)) = refill_per_sec g"
  "lim_capacity (snd (consume now bytes g)) = lim_capacity g"
  by (simp_all add: consume_def Let_def)

lemma f64_max_nonneg: "0 \<le> f64_max"
  by (simp add: f64_max_def)

lemma bucket_ok_constructors:
  "bucket_ok (unlimited now)" "bucket_ok (from_mbit n now)"
  by (simp_all add: bucket_ok_def unlimited_def from_mbit_def Let_def f64_max_nonneg)

lemma last_refill_consume:
  "lim_capacity g \<noteq> - 1 \<Longrightarrow> last_refill (snd (consume now bytes g)) = now"
  by (simp add: consume_def Let_def)

lemma consume_spends:
  assumes "lim_capacity g \<noteq> - 1" and "last_refill g \<le> now"
  shows "(if fst (consume now bytes g) then real (unat bytes) else 0)
      + tokens (snd (consume now bytes g))
    \<le> tokens g + (now - last_refill g) * refill_per_sec g"
  using assms by (auto simp: consume_def Let_def)

lemma monotone_from_last: "monotone_from t rs \<Longrightarrow> t \<le> last (t # map fst rs)"
proof (induction t rs rule: monotone_from.induct)
  case (2 t now bytes rs)
  then show ?case by (cases rs) auto
qed simp

lemma granted_bound:
  assumes "bucket_ok g" and "lim_capacity g \<noteq> - 1" and "monotone_from (last_refill g) rs"
  shows "real (granted rs g)
    \<le> tokens g + (last (last_refill g # map fst rs) - last_refill g) * refill_per_sec g"
  using assms
proof (induction rs g rule: granted.induct)
  case (1 g)
  then show ?case by (simp add: bucket_ok_def)
next
  case (2 now bytes rs g)
  let ?r = "consume now bytes g"
  have last: "last_refill (snd ?r) = now" using 2 by (simp add: last_refill_consume)
  have ih: "real (granted rs (snd ?r)) \<le> tokens (snd ?r)
      + (last (now # map fst rs) - now) * refill_per_sec g"
    using 2 last by (simp add: bucket_ok_consume)
  have "(if fst ?r then real (unat bytes) else 0) + tokens (snd ?r)
      \<le> tokens g + (now - last_refill g) * refill_per_sec g"
    using 2 by (intro consume_spends) auto
  with ih show ?case
    by (simp add: Let_def algebra_simps split: if_splits)
qed

lemma from_mbit_rate:
  assumes "n \<noteq> 0"
  shows "unat ((ucast n :: u64) * 1000000 div 8) = unat n * 125000"
    and "lim_capacity (from_mbit n now) \<noteq> - 1"
proof -
  have n: "unat n < 2 ^ 32" using unsigned_less [of n] by simp
  have mul: "unat ((ucast n :: u64) * 1000000) = unat n * 1000000"
    using n by (subst unat_mult_no_wrap) auto
  then show r: "unat ((ucast n :: u64) * 1000000 div 8) = unat n * 125000"
    by (simp add: unat_div_distrib)
  have "unat (lim_capacity (from_mbit n now)) < 2 ^ 64 - 1"
    using assms r n by (simp add: from_mbit_def Let_def)
  then show "lim_capacity (from_mbit n now) \<noteq> - 1"
    by (auto simp: unsigned_minus_1_eq_mask mask_eq_exp_minus_1)
qed

section \<open>Properties\<close>



end
