(* ===== verification/Virtio_Blk.thy ===== *)
theory Virtio_Blk
  imports Queue_Device Rate_Limiter
begin

text \<open>
  The virtio-blk device of \<^verbatim>\<open>devices/virtio_blk.rs\<close>: opening a raw image, walking a descriptor
  chain, validating and executing a request in bounded chunks, and the notify loop.
  The host file is its bytes, its position and a script of the faults its next operations meet:
  \<open>Some k\<close> makes an operation fail after \<open>k\<close> bytes, \<open>None\<close> lets it through.
\<close>

unbundle bit_operations_syntax

section \<open>The host file\<close>

record File =
  f_data :: "u8 list"
  f_pos :: nat
  f_faults :: "nat option list"

definition next_fault :: "File \<Rightarrow> nat option \<times> File" where
  "next_fault f =
     (case f_faults f of [] \<Rightarrow> (None, f) | x # xs \<Rightarrow> (x, f\<lparr>f_faults := xs\<rparr>))"

definition file_metadata_len :: "File \<Rightarrow> nat option \<times> File" where
  "file_metadata_len f =
     (case next_fault f of (None, f') \<Rightarrow> (Some (length (f_data f)), f') | (Some _, f') \<Rightarrow> (None, f'))"

definition file_seek :: "nat \<Rightarrow> File \<Rightarrow> bool \<times> File" where
  "file_seek pos f =
     (case next_fault f of (None, f') \<Rightarrow> (True, f'\<lparr>f_pos := pos\<rparr>) | (Some _, f') \<Rightarrow> (False, f'))"

definition read_exact :: "nat \<Rightarrow> File \<Rightarrow> u8 list option \<times> File" where
  "read_exact n f =
     (let avail = length (f_data f) - f_pos f
      in case next_fault f of
           (None, f') \<Rightarrow>
             if n \<le> avail
             then (Some (take n (drop (f_pos f) (f_data f))), f'\<lparr>f_pos := f_pos f + n\<rparr>)
             else (None, f'\<lparr>f_pos := f_pos f + avail\<rparr>)
         | (Some k, f') \<Rightarrow> (None, f'\<lparr>f_pos := f_pos f + min k (min n avail)\<rparr>))"

definition splice :: "nat \<Rightarrow> u8 list \<Rightarrow> u8 list \<Rightarrow> u8 list" where
  "splice pos buf xs =
     take pos (xs @ replicate (pos - length xs) 0) @ buf @ drop (pos + length buf) xs"

definition write_all :: "u8 list \<Rightarrow> File \<Rightarrow> bool \<times> File" where
  "write_all buf f =
     (case next_fault f of
        (None, f') \<Rightarrow>
          (True, f'\<lparr>f_data := (if buf = [] then f_data f else splice (f_pos f) buf (f_data f)),
                   f_pos := f_pos f + length buf\<rparr>)
      | (Some k, f') \<Rightarrow>
          (let part = take k buf
           in (False, f'\<lparr>f_data := (if part = [] then f_data f else splice (f_pos f) part (f_data f)),
                        f_pos := f_pos f + length part\<rparr>)))"

definition sync_data :: "File \<Rightarrow> bool \<times> File" where
  "sync_data f = (case next_fault f of (None, f') \<Rightarrow> (True, f') | (Some _, f') \<Rightarrow> (False, f'))"

section \<open>The image\<close>

definition SECTOR_SIZE :: u64 where "SECTOR_SIZE = 512"
definition VIRTIO_BLK_T_IN :: u32 where "VIRTIO_BLK_T_IN = 0"
definition VIRTIO_BLK_T_OUT :: u32 where "VIRTIO_BLK_T_OUT = 1"
definition VIRTIO_BLK_T_FLUSH :: u32 where "VIRTIO_BLK_T_FLUSH = 4"
definition VIRTIO_BLK_T_GET_ID :: u32 where "VIRTIO_BLK_T_GET_ID = 8"
definition VIRTIO_BLK_S_OK :: u8 where "VIRTIO_BLK_S_OK = 0"
definition VIRTIO_BLK_S_IOERR :: u8 where "VIRTIO_BLK_S_IOERR = 1"
definition VIRTIO_BLK_S_UNSUPP :: u8 where "VIRTIO_BLK_S_UNSUPP = 2"
definition IO_CHUNK_SIZE :: nat where "IO_CHUNK_SIZE = 1024 * 1024"

lemmas blk_consts = SECTOR_SIZE_def VIRTIO_BLK_T_IN_def VIRTIO_BLK_T_OUT_def
  VIRTIO_BLK_T_FLUSH_def VIRTIO_BLK_T_GET_ID_def VIRTIO_BLK_S_OK_def VIRTIO_BLK_S_IOERR_def
  VIRTIO_BLK_S_UNSUPP_def

record BlockBackend =
  bk_file :: File
  bk_capacity :: u64
  bk_read_only :: bool

text \<open>The byte strings \<^verbatim>\<open>QFI\\xfb\<close>, \<^verbatim>\<open>KDMV\<close>, \<^verbatim>\<open>vhdx\<close>, \<^verbatim>\<open>conectix\<close> and \<^verbatim>\<open>fluxvm-blk0\\0\<close>.\<close>

definition ascii :: "string \<Rightarrow> u8 list" where
  "ascii s = map (\<lambda>c. word_of_nat (of_char c)) s"

definition qcow2_magic :: "u8 list" where "qcow2_magic = ascii ''QFI'' @ [0xfb]"
definition blk_id :: "u8 list" where "blk_id = ascii ''fluxvm-blk0'' @ [0]"

text \<open>\<open>opened\<close> is the file that the host's open call returned, \<open>None\<close> when it failed.\<close>

definition block_open :: "File option \<Rightarrow> bool \<Rightarrow> BlockBackend result" where
  "block_open opened read_only =
     (case opened of None \<Rightarrow> Inl (Hypervisor ''open block image'') | Some f0 \<Rightarrow>
      (case file_metadata_len f0 of (None, f1) \<Rightarrow> Inl (Hypervisor ''stat block image'')
       | (Some len, f1) \<Rightarrow>
      (case read_exact 4 f1 of (None, f2) \<Rightarrow> Inl (Io ''read'')
       | (Some magic, f2) \<Rightarrow>
      if magic = qcow2_magic then Inl (Unsupported ''qcow2 image requires conversion to raw'')
      else if magic = ascii ''KDMV'' \<or> magic = ascii ''vhdx''
      then Inl (Unsupported ''image contains a VMDK/VHDX header, not raw sectors'')
      else
        (case (if len \<ge> 512 then
                 (case file_seek (len - 512) f2 of (False, f3) \<Rightarrow> (Inl (Io ''seek''), f3)
                  | (True, f3) \<Rightarrow>
                    (case read_exact 8 f3 of (None, f4) \<Rightarrow> (Inl (Io ''read''), f4)
                     | (Some footer, f4) \<Rightarrow>
                       if footer = ascii ''conectix''
                       then (Inl (Unsupported ''image contains a VHD footer, not raw sectors''), f4)
                       else (Inr (), f4)))
               else (Inr (), f2)) of
           (Inl e, f5) \<Rightarrow> Inl e
         | (Inr u, f5) \<Rightarrow>
             (case file_seek 0 f5 of (False, f6) \<Rightarrow> Inl (Io ''seek'')
              | (True, f6) \<Rightarrow>
                if len = 0 \<or> len mod 512 \<noteq> 0
                then Inl (Unsupported ''raw disk must have nonzero, 512-byte-aligned capacity'')
                else Inr \<lparr>bk_file = f6, bk_capacity = of_nat ((len + 511) div 512),
                          bk_read_only = read_only\<rparr>)))))"

section \<open>Descriptor chains\<close>

type_synonym part = "u64 \<times> u32 \<times> bool"

record DescChain =
  dc_head :: u16
  dc_parts :: "part list"

text \<open>The loop over \<^verbatim>\<open>0..qnum.min(64)\<close>: \<open>fuel\<close> hops remain, \<open>seen\<close> are the indices visited.\<close>

fun walk_loop ::
  "nat \<Rightarrow> u16 list \<Rightarrow> part list \<Rightarrow> GuestMemory \<Rightarrow> u64 \<Rightarrow> u16 \<Rightarrow> u32 \<Rightarrow> part list result" where
  "walk_loop 0 seen parts m desc_base idx qnum =
     Inl (Device ''virtio-blk'' ''unterminated descriptor chain'')"
| "walk_loop (Suc fuel) seen parts m desc_base idx qnum =
     (if ucast idx \<ge> qnum \<or> idx \<in> set seen
      then Inl (Device ''virtio-blk'' ''descriptor index out of range or chain cycle'')
      else rbind (read_desc_checked ''descriptor GPA overflow'' desc_base idx m) (\<lambda>d.
        if has_flag (d_flags d) VRING_DESC_F_INDIRECT
        then Inl (Unsupported ''virtio-blk indirect descriptors are not supported'')
        else
          let parts' = parts @ [(d_addr d, d_len d, has_flag (d_flags d) VRING_DESC_F_WRITE)]
          in if \<not> has_flag (d_flags d) VRING_DESC_F_NEXT then Inr parts'
             else walk_loop fuel (seen @ [idx]) parts' m desc_base (d_next d) qnum))"

definition walk_chain :: "GuestMemory \<Rightarrow> u64 \<Rightarrow> u16 \<Rightarrow> u32 \<Rightarrow> DescChain result" where
  "walk_chain m desc_base head qnum =
     rbind (walk_loop (unat (min qnum 64)) [] [] m desc_base head qnum) (\<lambda>parts.
       Inr \<lparr>dc_head = head, dc_parts = parts\<rparr>)"

section \<open>Requests\<close>

fun total_len :: "GuestMemory \<Rightarrow> bool \<Rightarrow> part list \<Rightarrow> u64 \<Rightarrow> u64 option" where
  "total_len m device_writes [] tot = Some tot"
| "total_len m device_writes ((gpa, len, writable) # ps) tot =
     (if writable \<noteq> device_writes \<or>
         \<not> (case checked_add gpa (ucast len) of Some stop \<Rightarrow> stop \<le> of_nat (ram_len m) | None \<Rightarrow> False)
      then None
      else case checked_add tot (ucast len) of
             None \<Rightarrow> None
           | Some tot' \<Rightarrow> total_len m device_writes ps tot')"

definition valid_io_request ::
  "GuestMemory \<Rightarrow> BlockBackend \<Rightarrow> part list \<Rightarrow> u64 \<Rightarrow> bool \<Rightarrow> bool" where
  "valid_io_request m backend data_parts sector device_writes =
     (case total_len m device_writes data_parts 0 of
        None \<Rightarrow> False
      | Some tot \<Rightarrow>
          if tot mod SECTOR_SIZE \<noteq> 0 \<or> tot > ucast (- 1 - 1 :: u32) then False
          else case (Option.bind (checked_mul sector SECTOR_SIZE) (\<lambda>start. checked_add start tot),
                     checked_mul (bk_capacity backend) SECTOR_SIZE) of
                 (Some stop, Some capacity) \<Rightarrow> stop \<le> capacity
               | _ \<Rightarrow> False)"

text \<open>
  The \<^verbatim>\<open>while\<close> loop over one data part. It returns whether the transfer may go on (\<open>False\<close> is the
  \<^verbatim>\<open>break 'parts\<close> with an I/O error) and the bytes written to the guest so far.
\<close>

type_synonym blk_io = "GuestMemory \<times> File"

partial_function (option) part_loop ::
  "bool \<Rightarrow> nat \<Rightarrow> u64 \<Rightarrow> nat \<Rightarrow> nat \<Rightarrow> u32 \<Rightarrow> blk_io \<Rightarrow> ((bool \<times> u32) result \<times> blk_io) option" where
  "part_loop reading scratch gpa len dn w s =
     (if dn < len then
        let n = min (len - dn) scratch; addr = gpa + of_nat dn
        in if reading then
             (case read_exact n (snd s) of
                (None, f') \<Rightarrow> Some (Inr (False, w), (fst s, f'))
              | (Some buf, f') \<Rightarrow>
                  (case write_at addr buf (fst s) of
                     (Inl e, m') \<Rightarrow> Some (Inl e, (m', f'))
                   | (Inr u, m') \<Rightarrow>
                       part_loop reading scratch gpa len (dn + n) (w + of_nat n) (m', f')))
           else
             (case read_at addr n (fst s) of
                Inl e \<Rightarrow> Some (Inl e, s)
              | Inr buf \<Rightarrow>
                  (case write_all buf (snd s) of
                     (good, f') \<Rightarrow>
                       if good then part_loop reading scratch gpa len (dn + n) w (fst s, f')
                       else Some (Inr (False, w), (fst s, f'))))
      else Some (Inr (True, w), s))"

fun parts_loop ::
  "bool \<Rightarrow> nat \<Rightarrow> part list \<Rightarrow> u32 \<Rightarrow> blk_io \<Rightarrow> ((bool \<times> u32) result \<times> blk_io) option" where
  "parts_loop reading scratch [] w s = Some (Inr (True, w), s)"
| "parts_loop reading scratch ((gpa, len, wr) # ps) w s =
     (case part_loop reading scratch gpa (unat len) 0 w s of
        None \<Rightarrow> None
      | Some (Inl e, s') \<Rightarrow> Some (Inl e, s')
      | Some (Inr (False, w'), s') \<Rightarrow> Some (Inr (False, w'), s')
      | Some (Inr (True, w'), s') \<Rightarrow> parts_loop reading scratch ps w' s')"

definition chunk_len :: "part list \<Rightarrow> nat" where
  "chunk_len ps = min (fold max (map (\<lambda>(_, len, _). unat len) ps) 0) IO_CHUNK_SIZE"

text \<open>
  The \<^verbatim>\<open>IN\<close> and \<^verbatim>\<open>OUT\<close> arm: the new length of the bounce buffer, the status byte and the bytes
  written to the guest. Only the length of the bounce buffer matters: it is overwritten before
  every use.
\<close>

definition data_arm ::
  "bool \<Rightarrow> bool \<Rightarrow> part list \<Rightarrow> u64 \<Rightarrow> nat \<Rightarrow> blk_io \<Rightarrow> ((u8 \<times> u32) result \<times> nat \<times> blk_io) option" where
  "data_arm read_only reading data_parts sector scratch s =
     (if \<not> reading \<and> read_only then Some (Inr (VIRTIO_BLK_S_IOERR, 0), scratch, s)
      else let scratch' = max scratch (chunk_len data_parts)
           in case file_seek (unat (sector * SECTOR_SIZE)) (snd s) of
                (False, f') \<Rightarrow> Some (Inr (VIRTIO_BLK_S_IOERR, 0), scratch', (fst s, f'))
              | (True, f') \<Rightarrow>
                  (case parts_loop reading scratch' data_parts 0 (fst s, f') of
                     None \<Rightarrow> None
                   | Some (Inl e, s') \<Rightarrow> Some (Inl e, scratch', s')
                   | Some (Inr (good, w), s') \<Rightarrow>
                       Some (Inr (if good then VIRTIO_BLK_S_OK else VIRTIO_BLK_S_IOERR, w),
                             scratch', s')))"

definition other_arm ::
  "u32 \<Rightarrow> part list \<Rightarrow> blk_io \<Rightarrow> (u8 \<times> u32) result \<times> blk_io" where
  "other_arm req_type data_parts s =
     (if req_type = VIRTIO_BLK_T_FLUSH then
        (case sync_data (snd s) of
           (good, f') \<Rightarrow>
             (Inr (if good then VIRTIO_BLK_S_OK else VIRTIO_BLK_S_IOERR, 0), (fst s, f')))
      else if req_type = VIRTIO_BLK_T_GET_ID then
        (case data_parts of
           (gpa, len, True) # _ \<Rightarrow>
             (let n = min (length blk_id) (unat len)
              in case write_at gpa (take n blk_id) (fst s) of
                   (Inl e, m') \<Rightarrow> (Inl e, (m', snd s))
                 | (Inr u, m') \<Rightarrow> (Inr (VIRTIO_BLK_S_OK, of_nat n), (m', snd s)))
         | _ \<Rightarrow> (Inr (VIRTIO_BLK_S_OK, 0), s))
      else (Inr (VIRTIO_BLK_S_UNSUPP, 0), s))"

definition finish_request ::
  "u64 \<Rightarrow> (u8 \<times> u32) result \<Rightarrow> blk_io \<Rightarrow> u32 result \<times> blk_io" where
  "finish_request status_gpa r s =
     (case r of
        Inl e \<Rightarrow> (Inl e, s)
      | Inr (sts, w) \<Rightarrow>
          (case write_at status_gpa [sts] (fst s) of
             (Inl e, m') \<Rightarrow> (Inl e, (m', snd s))
           | (Inr u, m') \<Rightarrow> (Inr (saturating_add w 1), (m', snd s))))"

text \<open>The state of a request: guest RAM, the backend and the length of the bounce buffer.\<close>

type_synonym blk_req = "GuestMemory \<times> BlockBackend \<times> nat"

definition process_request :: "DescChain \<Rightarrow> blk_req \<Rightarrow> (u32 result \<times> blk_req) option" where
  "process_request chain s =
     (case s of (m, backend, scratch) \<Rightarrow>
      if length (dc_parts chain) < 2 then Some (Inr 0, s)
      else case hd (dc_parts chain) of (hdr_gpa, hdr_len, hdr_w) \<Rightarrow>
      if hdr_len < 16 \<or> hdr_w then Some (Inr 0, s)
      else case read_at hdr_gpa 16 m of
        Inl e \<Rightarrow> Some (Inl e, s)
      | Inr hdr \<Rightarrow>
      let req_type = u32_from_le (slice 0 4 hdr); sector = u64_from_le (slice 8 16 hdr)
      in case last (dc_parts chain) of (status_gpa, status_len, status_w) \<Rightarrow>
      if \<not> status_w \<or> status_len < 1 then Some (Inr 0, s)
      else
      let data_parts = butlast (tl (dc_parts chain));
          is_io = (req_type = VIRTIO_BLK_T_IN \<or> req_type = VIRTIO_BLK_T_OUT);
          reading = (req_type = VIRTIO_BLK_T_IN)
      in if is_io \<and> \<not> valid_io_request m backend data_parts sector reading then
           (case write_at status_gpa [VIRTIO_BLK_S_IOERR] m of
              (Inl e, m') \<Rightarrow> Some (Inl e, m', backend, scratch)
            | (Inr u, m') \<Rightarrow> Some (Inr 1, m', backend, scratch))
         else if is_io then
           (case data_arm (bk_read_only backend) reading data_parts sector scratch
                   (m, bk_file backend) of
              None \<Rightarrow> None
            | Some (r, scratch', io) \<Rightarrow>
                (case finish_request status_gpa r io of
                   (res, (m', f')) \<Rightarrow> Some (res, m', backend\<lparr>bk_file := f'\<rparr>, scratch')))
         else
           (case other_arm req_type data_parts (m, bk_file backend) of
              (r, io) \<Rightarrow>
                (case finish_request status_gpa r io of
                   (res, (m', f')) \<Rightarrow> Some (res, m', backend\<lparr>bk_file := f'\<rparr>, scratch))))"

section \<open>The notify loop\<close>

record blk_state =
  b_mem :: GuestMemory
  b_st :: VirtioState
  b_backend :: BlockBackend
  b_limiter :: "RateLimiter option"

definition limiter_admits ::
  "real \<Rightarrow> u64 \<Rightarrow> RateLimiter option \<Rightarrow> bool \<times> RateLimiter option" where
  "limiter_admits now bytes lmt =
     (case lmt of
        None \<Rightarrow> (True, None)
      | Some l \<Rightarrow> (case consume now bytes l of (good, l') \<Rightarrow> (good, Some l')))"

text \<open>
  One turn of the loop after its head was read; \<open>now\<close> is the clock reading the limiter takes. The
  result says whether a request was processed (\<open>False\<close> is the \<^verbatim>\<open>break\<close> on the rate limit).
\<close>

definition blk_serve ::
  "real \<Rightarrow> u16 \<Rightarrow> nat \<Rightarrow> blk_state \<Rightarrow> (bool result \<times> nat \<times> blk_state) option" where
  "blk_serve now head scratch s =
     (let q = get_q (b_st s) 0
      in case walk_chain (b_mem s) (q_desc q) head (q_num q) of
           Inl e \<Rightarrow> Some (Inl e, scratch, s)
         | Inr chain \<Rightarrow>
             (let bytes = sum_list (map (\<lambda>(_, l, _). ucast l) (dc_parts chain)) :: u64
              in case limiter_admits now bytes (b_limiter s) of
                   (False, lmt') \<Rightarrow> Some (Inr False, scratch, s\<lparr>b_limiter := lmt'\<rparr>)
                 | (True, lmt') \<Rightarrow>
                     (case process_request chain (b_mem s, b_backend s, scratch) of
                        None \<Rightarrow> None
                      | Some (r, m', backend', scratch') \<Rightarrow>
                          (let written = (case r of Inl _ \<Rightarrow> 1 | Inr w \<Rightarrow> w);
                               s' = s\<lparr>b_limiter := lmt', b_backend := backend'\<rparr>
                           in case used_push (q_used q) (q_num q) (dc_head chain) written m' of
                                (Inl e, m'') \<Rightarrow> Some (Inl e, scratch', s'\<lparr>b_mem := m''\<rparr>)
                              | (Inr u, m'') \<Rightarrow>
                                  Some (Inr True, scratch',
                                    s'\<lparr>b_mem := m'',
                                       b_st := set_last_avail 0 (q_last_avail q + 1) (b_st s)\<rparr>)))))"

text \<open>\<open>fuel\<close> is 65 minus the requests \<open>n\<close> done so far: the loop breaks when \<^verbatim>\<open>n > 64\<close>.\<close>

fun blk_loop :: "nat \<Rightarrow> (nat \<Rightarrow> real) \<Rightarrow> nat \<Rightarrow> nat \<Rightarrow> blk_state \<Rightarrow> (nat result \<times> blk_state) option" where
  "blk_loop 0 now n scratch s = Some (Inr n, s)"
| "blk_loop (Suc fuel) now n scratch s =
     (let q = get_q (b_st s) 0
      in case pop_avail q (b_mem s) of
           Inl e \<Rightarrow> Some (Inl e, s)
         | Inr None \<Rightarrow> Some (Inr n, s)
         | Inr (Some head) \<Rightarrow>
             (case blk_serve (now n) head scratch s of
                None \<Rightarrow> None
              | Some (Inl e, scratch', s') \<Rightarrow> Some (Inl e, s')
              | Some (Inr False, scratch', s') \<Rightarrow> Some (Inr n, s')
              | Some (Inr True, scratch', s') \<Rightarrow> blk_loop fuel now (Suc n) scratch' s'))"

definition blk_handle_notify :: "(nat \<Rightarrow> real) \<Rightarrow> blk_state \<Rightarrow> (nat result \<times> blk_state) option" where
  "blk_handle_notify now s =
     (let q = get_q (b_st s) 0
      in if q_ready q = 0 \<or> q_num q = 0 then Some (Inr 0, s) else blk_loop 65 now 0 0 s)"

section \<open>Reference definitions\<close>

definition part_len :: "part \<Rightarrow> nat" where
  "part_len p = unat (fst (snd p))"

definition parts_len :: "part list \<Rightarrow> nat" where
  "parts_len ps = sum_list (map part_len ps)"

text \<open>The data of a request in one piece: what a write request stores, and where a read puts it.\<close>

definition gather_parts :: "GuestMemory \<Rightarrow> part list \<Rightarrow> u8 list" where
  "gather_parts m ps = concat (map (\<lambda>p. peek (unat (fst p)) (part_len p) m) ps)"

fun scatter_parts :: "part list \<Rightarrow> u8 list \<Rightarrow> GuestMemory \<Rightarrow> GuestMemory" where
  "scatter_parts [] bytes m = m"
| "scatter_parts (p # ps) bytes m =
     scatter_parts ps (drop (part_len p) bytes) (poke (unat (fst p)) (take (part_len p) bytes) m)"

definition part_in_ram :: "GuestMemory \<Rightarrow> part \<Rightarrow> bool" where
  "part_in_ram m p \<longleftrightarrow> unat (fst p) + part_len p \<le> ram_len m"

text \<open>A backend whose capacity is the size of its file.\<close>

definition backend_ok :: "BlockBackend \<Rightarrow> bool" where
  "backend_ok b \<longleftrightarrow> length (f_data (bk_file b)) = unat (bk_capacity b) * 512 \<and>
     length (f_data (bk_file b)) < 2 ^ 64"

text \<open>Two images of one length that differ at most in a range.\<close>

definition same_outside :: "nat \<Rightarrow> nat \<Rightarrow> u8 list \<Rightarrow> u8 list \<Rightarrow> bool" where
  "same_outside lo hi xs ys \<longleftrightarrow> length xs = length ys \<and>
     (\<forall>i < length xs. i < lo \<or> hi \<le> i \<longrightarrow> xs ! i = ys ! i)"

text \<open>The descriptors a driver links into a chain, by their indices.\<close>

definition linked :: "GuestMemory \<Rightarrow> u64 \<Rightarrow> u32 \<Rightarrow> u16 list \<Rightarrow> Desc list \<Rightarrow> bool" where
  "linked m base qnum =
     desc_path (\<lambda>i. read_desc_checked ''descriptor GPA overflow'' base i m)
       (\<lambda>d. \<not> has_flag (d_flags d) VRING_DESC_F_INDIRECT) qnum"

definition part_of_desc :: "Desc \<Rightarrow> part" where
  "part_of_desc d = (d_addr d, d_len d, has_flag (d_flags d) VRING_DESC_F_WRITE)"

section \<open>Files\<close>

lemma next_fault_cases:
  obtains (none) f' where "next_fault f = (None, f')" and "f_data f' = f_data f" and "f_pos f' = f_pos f"
  | (some) k f' where "next_fault f = (Some k, f')" and "f_data f' = f_data f" and "f_pos f' = f_pos f"
proof (cases "f_faults f")
  case Nil
  then show thesis using none by (simp add: next_fault_def)
next
  case (Cons x xs)
  then show thesis using none some by (cases x) (simp_all add: next_fault_def)
qed

lemma next_fault_Nil: "f_faults f = [] \<Longrightarrow> next_fault f = (None, f)"
  by (simp add: next_fault_def)

lemma f_data_ops [simp]:
  "f_data (snd (file_metadata_len f)) = f_data f"
  "f_data (snd (file_seek pos f)) = f_data f"
  "f_data (snd (read_exact n f)) = f_data f"
  "f_data (snd (sync_data f)) = f_data f"
  by (rule next_fault_cases [of f];
      simp add: file_metadata_len_def file_seek_def read_exact_def sync_data_def Let_def)+

lemma read_exact_length: "read_exact n f = (Some buf, f') \<Longrightarrow> length buf = n"
  by (rule next_fault_cases [of f]) (auto simp: read_exact_def Let_def split: if_splits)

lemma same_outside_refl [simp]: "same_outside lo hi xs xs"
  by (simp add: same_outside_def)

lemma same_outside_trans:
  "same_outside lo hi xs ys \<Longrightarrow> same_outside lo hi ys zs \<Longrightarrow> same_outside lo hi xs zs"
  by (simp add: same_outside_def)

lemma length_splice: "pos + length buf \<le> length xs \<Longrightarrow> length (splice pos buf xs) = length xs"
  by (simp add: splice_def)

lemma splice_in: "pos + length buf \<le> length xs \<Longrightarrow>
    splice pos buf xs = take pos xs @ buf @ drop (pos + length buf) xs"
  by (simp add: splice_def)

lemma same_outside_splice:
  assumes "lo \<le> pos" and "pos + length buf \<le> hi" and "pos + length buf \<le> length xs"
  shows "same_outside lo hi xs (splice pos buf xs)"
  using assms by (auto simp: same_outside_def splice_in nth_append min_def)

lemma splice_splice:
  assumes "pos + length a + length b \<le> length xs"
  shows "splice (pos + length a) b (splice pos a xs) = splice pos (a @ b) xs"
  using assms by (simp add: splice_in length_splice add.commute add.left_commute)

lemma splice_Nil [simp]: "pos \<le> length xs \<Longrightarrow> splice pos [] xs = xs"
  by (simp add: splice_in)

lemma slice_splice:
  assumes "pos + length buf \<le> length xs"
  shows "slice pos (pos + length buf) (splice pos buf xs) = buf"
  using assms by (simp add: slice_def splice_in)

lemma write_all_frame:
  assumes "lo \<le> f_pos f" and "f_pos f + length buf \<le> hi" and "hi \<le> length (f_data f)"
  shows "same_outside lo hi (f_data f) (f_data (snd (write_all buf f)))"
    and "f_pos f \<le> f_pos (snd (write_all buf f))"
    and "f_pos (snd (write_all buf f)) \<le> f_pos f + length buf"
proof -
  show "same_outside lo hi (f_data f) (f_data (snd (write_all buf f)))"
    by (rule next_fault_cases [of f])
      (use assms in \<open>auto simp: write_all_def Let_def intro!: same_outside_splice\<close>)
  show "f_pos f \<le> f_pos (snd (write_all buf f))" "f_pos (snd (write_all buf f)) \<le> f_pos f + length buf"
    by (rule next_fault_cases [of f]; simp add: write_all_def Let_def)+
qed

lemma write_all_ok:
  assumes "f_faults f = []" and "f_pos f + length buf \<le> length (f_data f)"
  shows "write_all buf f =
    (True, f\<lparr>f_data := splice (f_pos f) buf (f_data f), f_pos := f_pos f + length buf\<rparr>)"
  using assms by (simp add: write_all_def next_fault_Nil)

lemma read_exact_ok:
  assumes "f_faults f = []" and "f_pos f + n \<le> length (f_data f)"
  shows "read_exact n f =
    (Some (slice (f_pos f) (f_pos f + n) (f_data f)), f\<lparr>f_pos := f_pos f + n\<rparr>)"
  using assms by (simp add: read_exact_def next_fault_Nil Let_def slice_def)

section \<open>The chunk loop\<close>

text \<open>
  The rule all facts on the chunk loop go through: an invariant over the bytes done, with one
  obligation for a chunk in each direction. It also shows that the loop ends.
\<close>

lemma part_loop_rule:
  assumes "0 < len - dn \<Longrightarrow> 0 < scratch" and "dn \<le> len" and "I dn w (m, f)"
    and stop: "\<And>w m f. I len w (m, f) \<Longrightarrow> Q (Inr (True, w)) (m, f)"
    and rd: "\<And>dn w m f n. reading \<Longrightarrow> I dn w (m, f) \<Longrightarrow> 0 < n \<Longrightarrow> dn + n \<le> len \<Longrightarrow>
      case read_exact n f of
        (None, f') \<Rightarrow> Q (Inr (False, w)) (m, f')
      | (Some buf, f') \<Rightarrow>
          (case write_at (gpa + of_nat dn) buf m of
             (Inl e, m') \<Rightarrow> Q (Inl e) (m', f')
           | (Inr u, m') \<Rightarrow> I (dn + n) (w + of_nat n) (m', f'))"
    and wr: "\<And>dn w m f n. \<not> reading \<Longrightarrow> I dn w (m, f) \<Longrightarrow> 0 < n \<Longrightarrow> dn + n \<le> len \<Longrightarrow>
      case read_at (gpa + of_nat dn) n m of
        Inl e \<Rightarrow> Q (Inl e) (m, f)
      | Inr buf \<Rightarrow>
          (case write_all buf f of
             (good, f') \<Rightarrow> if good then I (dn + n) w (m, f') else Q (Inr (False, w)) (m, f'))"
  shows "\<exists>r m' f'. part_loop reading scratch gpa len dn w (m, f) = Some (r, (m', f')) \<and> Q r (m', f')"
  using assms(1-3)
proof (induction "len - dn" arbitrary: dn w m f rule: less_induct)
  case less
  show ?case
  proof (cases "dn < len")
    case False
    with less.prems have "dn = len" by simp
    with less.prems stop show ?thesis by (simp add: part_loop.simps)
  next
    case True
    define n where "n = min (len - dn) scratch"
    have n: "0 < n" "dn + n \<le> len" "len - (dn + n) < len - dn" "0 < len - (dn + n) \<Longrightarrow> 0 < scratch"
      using True less.prems by (auto simp: n_def)
    note ih = less.hyps [OF n(3,4,2)]
    note unfold = part_loop.simps [of reading scratch gpa len dn w "(m, f)"]
    show ?thesis
    proof (cases reading)
      case True
      with rd [OF True less.prems(3) n(1,2)] ih unfold \<open>dn < len\<close> show ?thesis
        by (auto simp: Let_def n_def [symmetric] split: prod.splits option.splits sum.splits)
    next
      case False
      with wr [OF False less.prems(3) n(1,2)] ih unfold \<open>dn < len\<close> show ?thesis
        by (auto simp: Let_def n_def [symmetric] split: prod.splits sum.splits if_splits)
    qed
  qed
qed

lemma unat_gpa_add:
  fixes gpa :: u64
  assumes "mem_ok m" and "unat gpa + len \<le> ram_len m" and "dn \<le> len"
  shows "unat (gpa + of_nat dn) = unat gpa + dn"
proof -
  have "dn < 2 ^ 64" "unat gpa + dn < 2 ^ 64" using assms by (auto simp: mem_ok_def)
  then show ?thesis by (subst unat_add_no_wrap) (auto simp: unat_of_nat)
qed

text \<open>Without faults, a chunked transfer is the transfer in one piece.\<close>

lemma part_loop_read:
  assumes "mem_ok m" and "unat gpa + len \<le> ram_len m" and "f_faults f = []"
    and "f_pos f + len \<le> length (f_data f)" and "0 < len \<Longrightarrow> 0 < scratch"
  shows "part_loop True scratch gpa len 0 w (m, f) =
    Some (Inr (True, w + of_nat len),
      (poke (unat gpa) (slice (f_pos f) (f_pos f + len) (f_data f)) m, f\<lparr>f_pos := f_pos f + len\<rparr>))"
proof -
  let ?I = "\<lambda>dn w' (m', f'). w' = w + of_nat dn \<and> f' = f\<lparr>f_pos := f_pos f + dn\<rparr> \<and>
      m' = poke (unat gpa) (slice (f_pos f) (f_pos f + dn) (f_data f)) m"
  have "\<exists>r m' f'. part_loop True scratch gpa len 0 w (m, f) = Some (r, (m', f')) \<and>
      (r = Inr (True, w + of_nat len) \<and> ?I len (w + of_nat len) (m', f'))"
  proof (rule part_loop_rule [where I = ?I], goal_cases)
    case (5 dn w' m' f' n)
    let ?buf = "slice (f_pos f + dn) (f_pos f + dn + n) (f_data f)"
    have rd: "read_exact n f' = (Some ?buf, f\<lparr>f_pos := f_pos f + dn + n\<rparr>)"
      using 5 assms by (subst read_exact_ok) auto
    have addr: "unat (gpa + of_nat dn) = unat gpa + dn"
      using 5 assms by (intro unat_gpa_add) auto
    have lens: "length (slice (f_pos f) (f_pos f + dn) (f_data f)) = dn" "length ?buf = n"
      using 5 assms by (auto simp: slice_def)
    have "write_at (gpa + of_nat dn) ?buf m' = (Inr (), poke (unat gpa + dn) ?buf m')"
      using 5 assms lens addr by (subst write_at_poke) auto
    moreover have "poke (unat gpa + dn) ?buf m' =
        poke (unat gpa) (slice (f_pos f) (f_pos f + (dn + n)) (f_data f)) m"
      using 5 lens poke_append [of "unat gpa" "slice (f_pos f) (f_pos f + dn) (f_data f)" ?buf m]
      by (simp add: add.assoc slice_join)
    ultimately show ?case using 5 rd by (simp add: add.assoc)
  qed (use assms in \<open>auto simp: slice_def\<close>)
  then show ?thesis by auto
qed

lemma part_loop_write:
  assumes "mem_ok m" and "unat gpa + len \<le> ram_len m" and "f_faults f = []"
    and "f_pos f + len \<le> length (f_data f)" and "0 < len \<Longrightarrow> 0 < scratch"
  shows "part_loop False scratch gpa len 0 w (m, f) =
    Some (Inr (True, w),
      (m, f\<lparr>f_data := splice (f_pos f) (peek (unat gpa) len m) (f_data f), f_pos := f_pos f + len\<rparr>))"
proof -
  let ?I = "\<lambda>dn w' (m', f'). w' = w \<and> m' = m \<and>
      f' = f\<lparr>f_data := splice (f_pos f) (peek (unat gpa) dn m) (f_data f), f_pos := f_pos f + dn\<rparr>"
  have "\<exists>r m' f'. part_loop False scratch gpa len 0 w (m, f) = Some (r, (m', f')) \<and>
      (r = Inr (True, w) \<and> ?I len w (m', f'))"
  proof (rule part_loop_rule [where I = ?I], goal_cases)
    case (6 dn w' m' f' n)
    let ?buf = "peek (unat gpa + dn) n m"
    have addr: "unat (gpa + of_nat dn) = unat gpa + dn"
      using 6 assms by (intro unat_gpa_add) auto
    have rd: "read_at (gpa + of_nat dn) n m' = Inr ?buf"
      using 6 assms addr by (subst read_at_peek) auto
    have "splice (f_pos f + dn) ?buf (splice (f_pos f) (peek (unat gpa) dn m) (f_data f)) =
        splice (f_pos f) (peek (unat gpa) (dn + n) m) (f_data f)"
      using 6 assms splice_splice [of "f_pos f" "peek (unat gpa) dn m" ?buf "f_data f"]
      by (simp add: peek_append)
    then have "write_all ?buf f' = (True, f\<lparr>f_data := splice (f_pos f) (peek (unat gpa) (dn + n) m) (f_data f),
        f_pos := f_pos f + (dn + n)\<rparr>)"
      using 6 assms by (subst write_all_ok) (auto simp: length_splice)
    then show ?case using 6 rd by simp
  qed (use assms in \<open>auto simp: peek_def\<close>)
  then show ?thesis by auto
qed

text \<open>Whatever faults the file meets, a transfer ends and touches only what it may.\<close>

lemma part_loop_safe_read:
  assumes "0 < len \<Longrightarrow> 0 < scratch"
  shows "\<exists>r m' f'. part_loop True scratch gpa len 0 w (m, f) = Some (r, (m', f')) \<and>
    (ram_len m' = ram_len m \<and> f_data f' = f_data f)"
  by (rule part_loop_rule [where I = "\<lambda>dn w (m', f'). ram_len m' = ram_len m \<and> f_data f' = f_data f"
        and Q = "\<lambda>r (m', f'). ram_len m' = ram_len m \<and> f_data f' = f_data f", simplified])
    (use assms in \<open>auto split: prod.splits option.splits sum.splits
       dest: arg_cong [of _ _ "\<lambda>x. ram_len (snd x)"] arg_cong [of _ _ "\<lambda>x. f_data (snd x)"]\<close>)

lemma part_loop_safe_write:
  assumes "0 < len \<Longrightarrow> 0 < scratch" and "lo \<le> f_pos f" and "f_pos f + len \<le> hi"
    and "hi \<le> length (f_data f)"
  shows "\<exists>r f'. part_loop False scratch gpa len 0 w (m, f) = Some (r, (m, f')) \<and>
    same_outside lo hi (f_data f) (f_data f') \<and> f_pos f \<le> f_pos f' \<and> f_pos f' \<le> f_pos f + len"
proof -
  let ?J = "\<lambda>n f'. same_outside lo hi (f_data f) (f_data f') \<and> f_pos f \<le> f_pos f' \<and> f_pos f' \<le> f_pos f + n"
  have "\<exists>r m' f'. part_loop False scratch gpa len 0 w (m, f) = Some (r, (m', f')) \<and> (m' = m \<and> ?J len f')"
  proof (rule part_loop_rule [where I = "\<lambda>dn w (m', f'). m' = m \<and> ?J dn f'"
        and Q = "\<lambda>r (m', f'). m' = m \<and> ?J len f'", unfolded prod.case], goal_cases)
    case (6 dn w' m' f' n)
    then have 3: "m' = m" "?J dn f'" "dn + n \<le> len" by auto
    have len: "length (f_data f') = length (f_data f)" using 3 by (simp add: same_outside_def)
    show ?case
    proof (cases "read_at (gpa + of_nat dn) n m")
      case (Inl e)
      with 3 show ?thesis by auto
    next
      case (Inr buf)
      then have "length buf = n" by (rule gm.rd_length)
      then have "same_outside lo hi (f_data f') (f_data (snd (write_all buf f')))"
        "f_pos f' \<le> f_pos (snd (write_all buf f'))"
        "f_pos (snd (write_all buf f')) \<le> f_pos f' + n"
        using write_all_frame [of lo f' buf hi] 3 assms len by auto
      with 3 Inr show ?thesis
        by (auto intro: same_outside_trans split: prod.splits)
    qed
  qed (use assms in auto)
  then show ?thesis by auto
qed

lemma parts_len_simps [simp]:
  "parts_len [] = 0" "parts_len (p # ps) = part_len p + parts_len ps"
  by (simp_all add: parts_len_def)

lemma part_len_triple [simp]: "part_len (gpa, len, wr) = unat len"
  by (simp add: part_len_def)

lemma ram_len_scatter [simp]: "ram_len (scatter_parts ps bytes m) = ram_len m"
  by (induction ps bytes m rule: scatter_parts.induct) simp_all

lemma part_in_ram_poke [simp]: "part_in_ram (poke a d m) = part_in_ram m"
  by (rule ext) (simp add: part_in_ram_def)

lemma parts_loop_read:
  assumes "mem_ok m" and "list_all (part_in_ram m) ps" and "f_faults f = []"
    and "f_pos f + parts_len ps \<le> length (f_data f)" and "0 < parts_len ps \<Longrightarrow> 0 < scratch"
  shows "parts_loop True scratch ps w (m, f) =
    Some (Inr (True, w + of_nat (parts_len ps)),
      (scatter_parts ps (slice (f_pos f) (f_pos f + parts_len ps) (f_data f)) m,
       f\<lparr>f_pos := f_pos f + parts_len ps\<rparr>))"
  using assms
proof (induction ps arbitrary: w m f)
  case (Cons p ps)
  obtain gpa len wr where p: "p = (gpa, len, wr)" by (cases p)
  let ?m = "poke (unat gpa) (slice (f_pos f) (f_pos f + unat len) (f_data f)) m"
  have one: "part_loop True scratch gpa (unat len) 0 w (m, f) =
    Some (Inr (True, w + of_nat (unat len)), (?m, f\<lparr>f_pos := f_pos f + unat len\<rparr>))"
    using Cons.prems p by (intro part_loop_read) (auto simp: part_in_ram_def)
  have "list_all (part_in_ram ?m) ps" using Cons.prems(2) by simp
  then have "parts_loop True scratch ps (w + of_nat (unat len)) (?m, f\<lparr>f_pos := f_pos f + unat len\<rparr>) =
    Some (Inr (True, w + of_nat (unat len) + of_nat (parts_len ps)),
      (scatter_parts ps (slice (f_pos f + unat len) (f_pos f + unat len + parts_len ps) (f_data f)) ?m,
       f\<lparr>f_pos := f_pos f + unat len + parts_len ps\<rparr>))"
    using Cons.prems p
      Cons.IH [of ?m "f\<lparr>f_pos := f_pos f + unat len\<rparr>" "w + of_nat (unat len)"] by simp
  with one p show ?case by (simp add: slice_take_drop add.assoc)
qed simp

lemma parts_loop_write:
  assumes "mem_ok m" and "list_all (part_in_ram m) ps" and "f_faults f = []"
    and "f_pos f + parts_len ps \<le> length (f_data f)" and "0 < parts_len ps \<Longrightarrow> 0 < scratch"
  shows "parts_loop False scratch ps w (m, f) =
    Some (Inr (True, w), (m, f\<lparr>f_data := splice (f_pos f) (gather_parts m ps) (f_data f),
       f_pos := f_pos f + parts_len ps\<rparr>))"
  using assms
proof (induction ps arbitrary: f)
  case (Cons p ps)
  obtain gpa len wr where p: "p = (gpa, len, wr)" by (cases p)
  let ?x = "peek (unat gpa) (unat len) m"
  let ?f = "f\<lparr>f_data := splice (f_pos f) ?x (f_data f), f_pos := f_pos f + unat len\<rparr>"
  have one: "part_loop False scratch gpa (unat len) 0 w (m, f) = Some (Inr (True, w), (m, ?f))"
    using Cons.prems p by (intro part_loop_write) (auto simp: part_in_ram_def)
  have g: "length (gather_parts m ps) = parts_len ps"
    by (induction ps) (simp_all add: gather_parts_def)
  have "splice (f_pos f + unat len) (gather_parts m ps) (splice (f_pos f) ?x (f_data f)) =
      splice (f_pos f) (gather_parts m (p # ps)) (f_data f)"
    using Cons.prems p g splice_splice [of "f_pos f" ?x "gather_parts m ps" "f_data f"]
    by (simp add: gather_parts_def)
  moreover have "parts_loop False scratch ps w (m, ?f) =
    Some (Inr (True, w), (m, ?f\<lparr>f_data := splice (f_pos f + unat len) (gather_parts m ps) (f_data ?f),
       f_pos := f_pos f + unat len + parts_len ps\<rparr>))"
    using Cons.prems p Cons.IH [of ?f] by (simp add: length_splice)
  ultimately show ?case using one p by (simp add: add.assoc)
qed (simp add: gather_parts_def)

lemma parts_loop_safe_read:
  assumes "0 < parts_len ps \<Longrightarrow> 0 < scratch"
  shows "\<exists>r m' f'. parts_loop True scratch ps w (m, f) = Some (r, (m', f')) \<and>
    ram_len m' = ram_len m \<and> f_data f' = f_data f"
  using assms
proof (induction ps arbitrary: w m f)
  case (Cons p ps)
  obtain gpa len wr where p: "p = (gpa, len, wr)" by (cases p)
  have "0 < unat len \<Longrightarrow> 0 < scratch" using Cons.prems p by simp
  from part_loop_safe_read [OF this] obtain r m1 f1 where
    one: "part_loop True scratch gpa (unat len) 0 w (m, f) = Some (r, (m1, f1))"
      "ram_len m1 = ram_len m" "f_data f1 = f_data f" by blast
  have "\<exists>r m' f'. parts_loop True scratch ps w' (m1, f1) = Some (r, (m', f')) \<and>
      ram_len m' = ram_len m1 \<and> f_data f' = f_data f1" for w'
    using Cons.prems by (intro Cons.IH) simp
  then show ?case using one p by (force split: sum.splits prod.splits bool.splits)
qed simp

lemma parts_loop_safe_write:
  assumes "0 < parts_len ps \<Longrightarrow> 0 < scratch" and "lo \<le> f_pos f" and "f_pos f + parts_len ps \<le> hi"
    and "hi \<le> length (f_data f)"
  shows "\<exists>r f'. parts_loop False scratch ps w (m, f) = Some (r, (m, f')) \<and>
    same_outside lo hi (f_data f) (f_data f')"
  using assms
proof (induction ps arbitrary: w f)
  case (Cons p ps)
  obtain gpa len wr where p: "p = (gpa, len, wr)" by (cases p)
  have "0 < unat len \<Longrightarrow> 0 < scratch" "f_pos f + unat len \<le> hi" using Cons.prems p by auto
  from part_loop_safe_write [OF this(1) Cons.prems(2) this(2) Cons.prems(4)] obtain r f1 where
    one: "part_loop False scratch gpa (unat len) 0 w (m, f) = Some (r, (m, f1))"
      "same_outside lo hi (f_data f) (f_data f1)" "f_pos f \<le> f_pos f1" "f_pos f1 \<le> f_pos f + unat len"
    by blast
  then have "length (f_data f1) = length (f_data f)" by (simp add: same_outside_def)
  then have "\<exists>r f'. parts_loop False scratch ps w' (m, f1) = Some (r, (m, f')) \<and>
      same_outside lo hi (f_data f1) (f_data f')" for w'
    using Cons.prems p one by (intro Cons.IH) auto
  then show ?case using one p
    by (fastforce intro: same_outside_trans split: sum.splits prod.splits bool.splits)
qed simp

section \<open>Validation\<close>

lemma total_len_eq:
  assumes "mem_ok m"
  shows "total_len m dw ps t =
    (if (\<forall>p \<in> set ps. part_in_ram m p \<and> snd (snd p) = dw) \<and> unat t + parts_len ps < 2 ^ 64
     then Some (t + of_nat (parts_len ps)) else None)"
proof (induction ps arbitrary: t)
  case (Cons p ps)
  obtain gpa len wr where p: "p = (gpa, len, wr)" by (cases p)
  show ?case
  proof (cases "unat t + unat len < 2 ^ 64")
    case True
    then have "unat (t + ucast len) = unat t + unat len" by (subst unat_add_no_wrap) auto
    then show ?thesis
      using True range_in_ram [OF assms, of gpa len] p
      by (auto simp: Cons.IH checked_add_def part_in_ram_def add.assoc)
  next
    case False
    then show ?thesis using p by (auto simp: checked_add_def)
  qed
next
  case Nil
  show ?case using unsigned_less [of t] by simp
qed

lemma checked_sectors:
  "checked_mul s SECTOR_SIZE = (if unat s * 512 < 2 ^ 64 then Some (s * 512) else None)"
  "unat s * 512 < 2 ^ 64 \<Longrightarrow> unat (s * 512 :: u64) = unat s * 512"
proof -
  show "checked_mul s SECTOR_SIZE = (if unat s * 512 < 2 ^ 64 then Some (s * 512) else None)"
    by (simp add: checked_mul_def blk_consts)
  show "unat s * 512 < 2 ^ 64 \<Longrightarrow> unat (s * 512 :: u64) = unat s * 512"
    by (subst unat_mult_no_wrap) auto
qed

lemma valid_io_request_iff:
  assumes "mem_ok m"
  shows "valid_io_request m b ps sector dw \<longleftrightarrow>
    (\<forall>p \<in> set ps. part_in_ram m p \<and> snd (snd p) = dw) \<and> parts_len ps mod 512 = 0 \<and>
    parts_len ps < 2 ^ 32 - 1 \<and> unat sector * 512 + parts_len ps \<le> unat (bk_capacity b) * 512 \<and>
    unat (bk_capacity b) * 512 < 2 ^ 64"
proof (cases "(\<forall>p \<in> set ps. part_in_ram m p \<and> snd (snd p) = dw) \<and> parts_len ps < 2 ^ 64")
  case False
  then show ?thesis
    using assms by (auto simp: valid_io_request_def total_len_eq)
next
  case True
  then have t: "total_len m dw ps 0 = Some (of_nat (parts_len ps))"
    using assms by (simp add: total_len_eq)
  have u: "unat (of_nat (parts_len ps) :: u64) = parts_len ps"
    using True by (simp add: unat_of_nat)
  have m: "(of_nat (parts_len ps) :: u64) mod SECTOR_SIZE = 0 \<longleftrightarrow> parts_len ps mod 512 = 0"
    by (simp add: word_unat_eq_iff unat_mod_distrib u blk_consts)
  have c: "(of_nat (parts_len ps) :: u64) > ucast (- 1 - 1 :: u32) \<longleftrightarrow> parts_len ps > 2 ^ 32 - 2"
    by (simp add: word_less_nat_alt u)
  have "unat (sector * 512 + of_nat (parts_len ps)) = unat sector * 512 + parts_len ps"
    if "unat sector * 512 + parts_len ps < 2 ^ 64"
    using that by (subst unat_add_no_wrap) (auto simp: checked_sectors u)
  then show ?thesis
    using True t m c u
    by (auto simp: valid_io_request_def checked_sectors checked_add_def word_le_nat_alt)
qed

lemma fold_max_ge: "(a :: nat) \<le> fold max xs a" "x \<in> set xs \<Longrightarrow> x \<le> fold max xs a"
  by (induction xs arbitrary: a) (auto intro: order_trans [OF max.cobounded1] order_trans [OF max.cobounded2])

lemma chunk_len_pos: "0 < parts_len ps \<Longrightarrow> 0 < chunk_len ps"
proof -
  assume "0 < parts_len ps"
  then have "\<exists>p \<in> set ps. 0 < part_len p"
    by (induction ps) auto
  then obtain p where p: "p \<in> set ps" "0 < part_len p" by blast
  then have "part_len p \<in> set (map (\<lambda>(_, len, _). unat len) ps)"
    by (simp add: part_len_def [abs_def] case_prod_beta)
  from fold_max_ge(2) [OF this, of 0] p show ?thesis
    by (auto simp: chunk_len_def IO_CHUNK_SIZE_def)
qed

lemma seek_ok: "f_faults f = [] \<Longrightarrow> file_seek pos f = (True, f\<lparr>f_pos := pos\<rparr>)"
  by (simp add: file_seek_def next_fault_Nil)

lemma f_pos_seek: "fst (file_seek pos f) \<Longrightarrow> f_pos (snd (file_seek pos f)) = pos"
  by (rule next_fault_cases [of f]) (auto simp: file_seek_def)

section \<open>The data arm\<close>

lemma valid_range:
  assumes "mem_ok m" and "backend_ok b" and "valid_io_request m b ps sector dw"
  shows "unat (sector * SECTOR_SIZE) = unat sector * 512"
    and "unat sector * 512 + parts_len ps \<le> length (f_data (bk_file b))"
    and "list_all (part_in_ram m) ps"
  using assms by (auto simp: valid_io_request_iff backend_ok_def checked_sectors(2) SECTOR_SIZE_def
      list_all_iff)

lemma data_arm_write:
  assumes "mem_ok m" and "backend_ok b" and "valid_io_request m b ps sector False"
    and "f_faults (bk_file b) = []"
  shows "data_arm False False ps sector scratch (m, bk_file b) =
    Some (Inr (VIRTIO_BLK_S_OK, 0), max scratch (chunk_len ps),
      (m, (bk_file b)\<lparr>f_data := splice (unat sector * 512) (gather_parts m ps) (f_data (bk_file b)),
           f_pos := unat sector * 512 + parts_len ps\<rparr>))"
  using valid_range [OF assms(1-3)] assms chunk_len_pos [of ps]
  by (simp add: data_arm_def Let_def seek_ok parts_loop_write less_max_iff_disj)

lemma data_arm_read:
  assumes "mem_ok m" and "backend_ok b" and "valid_io_request m b ps sector True"
    and "f_faults (bk_file b) = []"
  shows "data_arm ro True ps sector scratch (m, bk_file b) =
    Some (Inr (VIRTIO_BLK_S_OK, of_nat (parts_len ps)), max scratch (chunk_len ps),
      (scatter_parts ps
         (slice (unat sector * 512) (unat sector * 512 + parts_len ps) (f_data (bk_file b))) m,
       (bk_file b)\<lparr>f_pos := unat sector * 512 + parts_len ps\<rparr>))"
  using valid_range [OF assms(1-3)] assms chunk_len_pos [of ps]
  by (simp add: data_arm_def Let_def seek_ok parts_loop_read less_max_iff_disj)

lemma data_arm_safe:
  assumes "mem_ok m" and "backend_ok b" and "valid_io_request m b ps sector reading"
  shows "\<exists>r scratch' m' f'. data_arm ro reading ps sector scratch (m, bk_file b) = Some (r, scratch', (m', f'))
    \<and> ram_len m' = ram_len m
    \<and> same_outside (unat sector * 512) (unat sector * 512 + parts_len ps) (f_data (bk_file b)) (f_data f')
    \<and> (reading \<or> ro \<longrightarrow> f_data f' = f_data (bk_file b))"
proof -
  let ?f = "snd (file_seek (unat sector * 512) (bk_file b))"
  let ?sc = "max scratch (chunk_len ps)"
  have sc: "0 < parts_len ps \<Longrightarrow> 0 < ?sc" using chunk_len_pos [of ps] by (simp add: less_max_iff_disj)
  note rng = valid_range [OF assms]
  obtain good f where s: "file_seek (unat sector * 512) (bk_file b) = (good, f)" by fastforce
  then have f: "f_data f = f_data (bk_file b)"
    using f_data_ops(2) [of "unat sector * 512" "bk_file b"] by simp
  consider "\<not> reading \<and> ro" | "\<not> good" | "good" "reading" | "good" "\<not> reading" "\<not> ro" by blast
  then show ?thesis
  proof cases
    case 3
    from parts_loop_safe_read [OF sc, where w = 0 and m = m and f = f] f s rng 3 show ?thesis
      by (fastforce simp: data_arm_def Let_def split: sum.splits)
  next
    case 4
    have "f_pos f = unat sector * 512" using f_pos_seek [of "unat sector * 512" "bk_file b"] s 4 by simp
    with parts_loop_safe_write [OF sc, where lo = "unat sector * 512" and f = f and
        hi = "unat sector * 512 + parts_len ps" and w = 0 and m = m]
      f s rng 4 show ?thesis
      by (fastforce simp: data_arm_def Let_def split: sum.splits)
  qed (use f s rng in \<open>auto simp: data_arm_def Let_def\<close>)
qed

section \<open>Requests\<close>

text \<open>A chain laid out as the driver lays out a request: header, data parts, status byte.\<close>

definition is_request ::
  "GuestMemory \<Rightarrow> DescChain \<Rightarrow> u32 \<Rightarrow> u64 \<Rightarrow> part list \<Rightarrow> u64 \<Rightarrow> bool" where
  "is_request m chain ty sector ps status_gpa \<longleftrightarrow>
     (case (hd (dc_parts chain), last (dc_parts chain)) of
        ((hdr_gpa, hdr_len, hdr_w), (st_gpa, st_len, st_w)) \<Rightarrow>
          length (dc_parts chain) \<ge> 2 \<and> \<not> hdr_w \<and> 16 \<le> hdr_len \<and> st_w \<and> 1 \<le> st_len \<and>
          status_gpa = st_gpa \<and> ps = butlast (tl (dc_parts chain)) \<and>
          (case read_at hdr_gpa 16 m of
             Inl _ \<Rightarrow> False
           | Inr hdr \<Rightarrow> ty = u32_from_le (slice 0 4 hdr) \<and> sector = u64_from_le (slice 8 16 hdr)))"

text \<open>A chain that is not laid out like that changes nothing.\<close>

lemma process_request_malformed:
  assumes "\<And>ty sector ps sg. \<not> is_request m chain ty sector ps sg"
  shows "\<exists>r. process_request chain (m, b, sc) = Some (r, m, b, sc)"
  using assms
  by (fastforce simp: process_request_def is_request_def Let_def not_less not_le
      split: prod.splits sum.splits)

lemma process_request_eq:
  assumes "is_request m chain ty sector ps sg"
  shows "process_request chain (m, b, sc) =
    (let is_io = (ty = VIRTIO_BLK_T_IN \<or> ty = VIRTIO_BLK_T_OUT); reading = (ty = VIRTIO_BLK_T_IN)
     in if is_io \<and> \<not> valid_io_request m b ps sector reading then
          (case write_at sg [VIRTIO_BLK_S_IOERR] m of
             (Inl e, m') \<Rightarrow> Some (Inl e, m', b, sc) | (Inr u, m') \<Rightarrow> Some (Inr 1, m', b, sc))
        else if is_io then
          (case data_arm (bk_read_only b) reading ps sector sc (m, bk_file b) of
             None \<Rightarrow> None
           | Some (r, sc', io) \<Rightarrow>
               (case finish_request sg r io of
                  (res, (m', f')) \<Rightarrow> Some (res, m', b\<lparr>bk_file := f'\<rparr>, sc')))
        else
          (case other_arm ty ps (m, bk_file b) of
             (r, io) \<Rightarrow>
               (case finish_request sg r io of
                  (res, (m', f')) \<Rightarrow> Some (res, m', b\<lparr>bk_file := f'\<rparr>, sc))))"
proof -
  obtain hg hl hw where h: "hd (dc_parts chain) = (hg, hl, hw)" by (cases "hd (dc_parts chain)")
  obtain tg tl' tw where t: "last (dc_parts chain) = (tg, tl', tw)" by (cases "last (dc_parts chain)")
  from assms h t obtain hdr where r: "read_at hg 16 m = Inr hdr" "16 \<le> hl" "1 \<le> tl'"
    "\<not> length (dc_parts chain) < 2" "hw = False" "tw = True" "sg = tg" "ps = butlast (tl (dc_parts chain))"
    "ty = u32_from_le (slice 0 4 hdr)" "sector = u64_from_le (slice 8 16 hdr)"
    by (auto simp: is_request_def not_less split: sum.splits)
  note ge = r(2,3) [unfolded linorder_not_less [symmetric]]
  show ?thesis
    by (simp only: process_request_def prod.case sum.case h t r(1,4-) ge Let_def if_False if_True simp_thms)
qed

lemma finish_request_ok:
  assumes "mem_ok (fst s)" and "unat sg < ram_len (fst s)"
  shows "finish_request sg (Inr (sts, w)) s =
    (Inr (saturating_add w 1), (poke (unat sg) [sts] (fst s), snd s))"
  using assms by (simp add: finish_request_def write_at_poke)

lemma finish_request_safe:
  "ram_len (fst (snd (finish_request sg r s))) = ram_len (fst s)"
  "snd (snd (finish_request sg r s)) = snd s"
  by (auto simp: finish_request_def dest: write_at_len split: sum.splits prod.splits)

lemma sync_data_data: "sync_data f = (g, f') \<Longrightarrow> f_data f' = f_data f"
  using f_data_ops(4) [of f] by simp

lemma other_arm_safe:
  "ram_len (fst (snd (other_arm ty ps s))) = ram_len (fst s)"
  "f_data (snd (snd (other_arm ty ps s))) = f_data (snd s)"
proof -
  show "ram_len (fst (snd (other_arm ty ps s))) = ram_len (fst s)"
    by (auto simp: other_arm_def Let_def dest: write_at_len
        split: sum.splits prod.splits list.splits bool.splits)
  show "f_data (snd (snd (other_arm ty ps s))) = f_data (snd s)"
    by (auto simp: other_arm_def Let_def dest: sync_data_data split: sum.splits prod.splits list.splits bool.splits)
qed

lemma process_write:
  assumes "mem_ok m" and "backend_ok b" and "is_request m chain VIRTIO_BLK_T_OUT sector ps sg"
    and "valid_io_request m b ps sector False" and "\<not> bk_read_only b" and "f_faults (bk_file b) = []"
    and "unat sg < ram_len m"
  shows "process_request chain (m, b, sc) =
    Some (Inr 1, poke (unat sg) [VIRTIO_BLK_S_OK] m,
      b\<lparr>bk_file := (bk_file b)
          \<lparr>f_data := splice (unat sector * 512) (gather_parts m ps) (f_data (bk_file b)),
           f_pos := unat sector * 512 + parts_len ps\<rparr>\<rparr>, max sc (chunk_len ps))"
proof -
  have ty: "VIRTIO_BLK_T_OUT \<noteq> VIRTIO_BLK_T_IN" by (simp add: blk_consts)
  show ?thesis
    using assms ty
    by (simp add: process_request_eq data_arm_write finish_request_ok saturating_add_def)
qed

lemma process_read:
  assumes "mem_ok m" and "backend_ok b" and "is_request m chain VIRTIO_BLK_T_IN sector ps sg"
    and "valid_io_request m b ps sector True" and "f_faults (bk_file b) = []"
    and "unat sg < ram_len m"
  shows "process_request chain (m, b, sc) =
    Some (Inr (of_nat (parts_len ps) + 1),
      poke (unat sg) [VIRTIO_BLK_S_OK] (scatter_parts ps
        (slice (unat sector * 512) (unat sector * 512 + parts_len ps) (f_data (bk_file b))) m),
      b\<lparr>bk_file := (bk_file b)\<lparr>f_pos := unat sector * 512 + parts_len ps\<rparr>\<rparr>,
      max sc (chunk_len ps))"
proof -
  have "parts_len ps + 1 < 2 ^ 32" using assms(1,4) by (simp add: valid_io_request_iff)
  then have "saturating_add (of_nat (parts_len ps) :: u32) 1 = of_nat (parts_len ps) + 1"
    by (simp add: saturating_add_def unat_of_nat)
  then show ?thesis
    using assms by (simp add: process_request_eq data_arm_read finish_request_ok mem_ok_def)
qed

lemma process_request_safe:
  assumes "mem_ok m" and "backend_ok b"
  shows "\<exists>r m' f' sc'. process_request chain (m, b, sc) = Some (r, m', b\<lparr>bk_file := f'\<rparr>, sc')
    \<and> ram_len m' = ram_len m
    \<and> (f_data f' = f_data (bk_file b) \<or>
       \<not> bk_read_only b \<and>
       (\<exists>sector ps sg. is_request m chain VIRTIO_BLK_T_OUT sector ps sg \<and>
          valid_io_request m b ps sector False \<and>
          same_outside (unat sector * 512) (unat sector * 512 + parts_len ps)
            (f_data (bk_file b)) (f_data f')))"
proof (cases "\<exists>ty sector ps sg. is_request m chain ty sector ps sg")
  case False
  then obtain r where "process_request chain (m, b, sc) = Some (r, m, b, sc)"
    using process_request_malformed by blast
  then have "process_request chain (m, b, sc) = Some (r, m, b\<lparr>bk_file := bk_file b\<rparr>, sc)" by simp
  then show ?thesis by blast
next
  case True
  then obtain ty sector ps sg where req: "is_request m chain ty sector ps sg" by blast
  let ?io = "ty = VIRTIO_BLK_T_IN \<or> ty = VIRTIO_BLK_T_OUT" and ?rd = "ty = VIRTIO_BLK_T_IN"
  consider (invalid) "?io" "\<not> valid_io_request m b ps sector ?rd"
    | (io) "?io" "valid_io_request m b ps sector ?rd" | (other) "\<not> ?io" by blast
  then show ?thesis
  proof cases
    case invalid
    obtain e m' where w: "write_at sg [VIRTIO_BLK_S_IOERR] m = (e, m')" by fastforce
    have "\<exists>r. process_request chain (m, b, sc) = Some (r, m', b\<lparr>bk_file := bk_file b\<rparr>, sc)"
      using invalid w by (cases e) (auto simp: process_request_eq [OF req] Let_def)
    with write_at_len [OF w] show ?thesis by blast
  next
    case io
    from data_arm_safe [OF assms io(2), of "bk_read_only b" sc] obtain r sc' m1 f1 where
      arm: "data_arm (bk_read_only b) ?rd ps sector sc (m, bk_file b) = Some (r, sc', (m1, f1))"
        "ram_len m1 = ram_len m"
        "same_outside (unat sector * 512) (unat sector * 512 + parts_len ps)
           (f_data (bk_file b)) (f_data f1)"
        "?rd \<or> bk_read_only b \<longrightarrow> f_data f1 = f_data (bk_file b)"
      by blast
    obtain res m' f' where fin: "finish_request sg r (m1, f1) = (res, (m', f'))"
      by (metis prod.exhaust)
    then have "ram_len m' = ram_len m" "f' = f1"
      using finish_request_safe [of sg r "(m1, f1)"] arm(2) by auto
    then have p: "process_request chain (m, b, sc) = Some (res, m', b\<lparr>bk_file := f1\<rparr>, sc')"
      using io arm(1) fin by (simp add: process_request_eq [OF req] Let_def)
    show ?thesis
    proof (cases "?rd \<or> bk_read_only b")
      case True
      with arm(4) p \<open>ram_len m' = ram_len m\<close> show ?thesis by blast
    next
      case False
      with io have "ty = VIRTIO_BLK_T_OUT" by blast
      with False io req arm(3) p \<open>ram_len m' = ram_len m\<close> show ?thesis by auto
    qed
  next
    case other
    obtain r m1 f1 where arm: "other_arm ty ps (m, bk_file b) = (r, (m1, f1))"
      by (metis prod.exhaust)
    obtain res m' f' where fin: "finish_request sg r (m1, f1) = (res, (m', f'))"
      by (metis prod.exhaust)
    have "ram_len m' = ram_len m" "f_data f' = f_data (bk_file b)"
      using finish_request_safe [of sg r "(m1, f1)"] other_arm_safe [of ty ps "(m, bk_file b)"] arm fin
      by auto
    moreover have "process_request chain (m, b, sc) = Some (res, m', b\<lparr>bk_file := f'\<rparr>, sc)"
      using other arm fin by (simp add: process_request_eq [OF req] Let_def)
    ultimately show ?thesis by blast
  qed
qed

lemma same_outside_length: "same_outside lo hi xs ys \<Longrightarrow> length ys = length xs"
  by (simp add: same_outside_def)

lemma backend_ok_after:
  assumes "mem_ok m" and "backend_ok b" and "process_request chain (m, b, sc) = Some (r, m', b', sc')"
  shows "backend_ok b'" and "ram_len m' = ram_len m" and "bk_capacity b' = bk_capacity b"
    and "bk_read_only b' = bk_read_only b" and "bk_read_only b \<Longrightarrow> f_data (bk_file b') = f_data (bk_file b)"
    and "length (f_data (bk_file b')) = length (f_data (bk_file b))"
  using process_request_safe [OF assms(1,2), of chain sc] assms(2,3)
  by (auto simp: backend_ok_def dest: same_outside_length)

section \<open>Descriptor chains\<close>

lemma walk_loop_step:
  assumes "ucast idx < qnum" and "idx \<notin> set seen"
    and "read_desc_checked ''descriptor GPA overflow'' base idx m = Inr d"
    and "\<not> has_flag (d_flags d) VRING_DESC_F_INDIRECT"
  shows "walk_loop (Suc fuel) seen parts m base idx qnum =
    (if has_flag (d_flags d) VRING_DESC_F_NEXT
     then walk_loop fuel (seen @ [idx]) (parts @ [part_of_desc d]) m base (d_next d) qnum
     else Inr (parts @ [part_of_desc d]))"
  using assms by (simp add: rbind_def part_of_desc_def linorder_not_le [symmetric])

lemma walk_loop_sound:
  assumes "walk_loop fuel seen parts m base idx qnum = Inr out"
  shows "\<exists>is ds. linked m base qnum (idx # is) ds \<and> distinct (idx # is) \<and>
    set (idx # is) \<inter> set seen = {} \<and> length (idx # is) \<le> fuel \<and> out = parts @ map part_of_desc ds"
  using assms
proof (induction fuel arbitrary: seen parts idx)
  case (Suc fuel)
  from Suc.prems obtain d where d: "ucast idx < qnum" "idx \<notin> set seen"
    "read_desc_checked ''descriptor GPA overflow'' base idx m = Inr d"
    "\<not> has_flag (d_flags d) VRING_DESC_F_INDIRECT"
    by (auto simp: rbind_def not_le split: if_splits sum.splits)
  show ?case
  proof (cases "has_flag (d_flags d) VRING_DESC_F_NEXT")
    case False
    then have "out = parts @ map part_of_desc [d]"
      using Suc.prems walk_loop_step [OF d] by simp
    with False d show ?thesis by (intro exI [of _ "[]"] exI [of _ "[d]"]) (simp add: linked_def)
  next
    case True
    then have "walk_loop fuel (seen @ [idx]) (parts @ [part_of_desc d]) m base (d_next d) qnum = Inr out"
      using Suc.prems walk_loop_step [OF d] by simp
    from Suc.IH [OF this] obtain "is" ds where
      "linked m base qnum (d_next d # is) ds" "distinct (d_next d # is)"
      "set (d_next d # is) \<inter> set (seen @ [idx]) = {}" "length (d_next d # is) \<le> fuel"
      "out = (parts @ [part_of_desc d]) @ map part_of_desc ds" by blast
    with d True show ?thesis
      by (intro exI [of _ "d_next d # is"] exI [of _ "d # ds"]) (auto simp: linked_def)
  qed
qed simp

lemma walk_loop_complete:
  assumes "linked m base qnum is ds" and "distinct is" and "set is \<inter> set seen = {}"
    and "length is \<le> fuel"
  shows "walk_loop fuel seen parts m base (hd is) qnum = Inr (parts @ map part_of_desc ds)"
  using assms
proof (induction "is" arbitrary: ds fuel seen parts)
  case (Cons i "is")
  then obtain k where k: "fuel = Suc k" by (cases fuel) auto
  from Cons.prems(1) obtain d ds' where d: "ds = d # ds'" "ucast i < qnum"
    "read_desc_checked ''descriptor GPA overflow'' base i m = Inr d"
    "\<not> has_flag (d_flags d) VRING_DESC_F_INDIRECT"
    "has_flag (d_flags d) VRING_DESC_F_NEXT = (is \<noteq> [])"
    "if is = [] then ds' = [] else d_next d = hd is \<and> linked m base qnum is ds'"
    by (auto simp: linked_def split: list.splits)
  note step = walk_loop_step [OF d(2) _ d(3,4), of seen k parts]
  show ?case
  proof (cases "is = []")
    case True
    with d k Cons.prems step show ?thesis by simp
  next
    case False
    then have "walk_loop k (seen @ [i]) (parts @ [part_of_desc d]) m base (hd is) qnum =
        Inr ((parts @ [part_of_desc d]) @ map part_of_desc ds')"
      using d k Cons.prems by (intro Cons.IH) auto
    with False d k Cons.prems step show ?thesis by simp
  qed
qed (simp add: linked_def)

section \<open>The notify loop\<close>

definition blk_ok :: "blk_state \<Rightarrow> bool" where
  "blk_ok s \<longleftrightarrow> mem_ok (b_mem s) \<and> backend_ok (b_backend s)"

definition blk_keeps :: "blk_state \<Rightarrow> blk_state \<Rightarrow> bool" where
  "blk_keeps s s' \<longleftrightarrow>
     ram_len (b_mem s') = ram_len (b_mem s) \<and> ring_view (b_st s') = ring_view (b_st s) \<and>
     length (queues (b_st s')) = length (queues (b_st s)) \<and>
     bk_capacity (b_backend s') = bk_capacity (b_backend s) \<and>
     bk_read_only (b_backend s') = bk_read_only (b_backend s) \<and>
     length (f_data (bk_file (b_backend s'))) = length (f_data (bk_file (b_backend s))) \<and>
     (bk_read_only (b_backend s) \<longrightarrow>
        f_data (bk_file (b_backend s')) = f_data (bk_file (b_backend s)))"

definition last_avail0 :: "blk_state \<Rightarrow> u16" where
  "last_avail0 s = q_last_avail (get_q (b_st s) 0)"

lemma blk_keeps_refl [simp]: "blk_keeps s s"
  by (simp add: blk_keeps_def)

lemma blk_keeps_trans: "blk_keeps s s' \<Longrightarrow> blk_keeps s' s'' \<Longrightarrow> blk_keeps s s''"
  by (simp add: blk_keeps_def)

lemma blk_keeps_ok: "blk_keeps s s' \<Longrightarrow> blk_ok s \<Longrightarrow> blk_ok s'"
  by (simp add: blk_keeps_def blk_ok_def backend_ok_def mem_ok_def)

lemma blk_serve_safe:
  assumes "blk_ok s" and "0 < length (queues (b_st s))"
  shows "\<exists>r sc' s'. blk_serve now head sc s = Some (r, sc', s') \<and> blk_keeps s s' \<and>
    last_avail0 s' = last_avail0 s + (if r = Inr True then 1 else 0)"
proof -
  let ?q = "get_q (b_st s) 0"
  consider (bad) e where "walk_chain (b_mem s) (q_desc ?q) head (q_num ?q) = Inl e"
    | (chain) c where "walk_chain (b_mem s) (q_desc ?q) head (q_num ?q) = Inr c"
    by (cases "walk_chain (b_mem s) (q_desc ?q) head (q_num ?q)") auto
  then show ?thesis
  proof cases
    case bad
    then show ?thesis by (simp add: blk_serve_def)
  next
    case chain
    let ?bytes = "sum_list (map (\<lambda>(_, l, _). ucast l) (dc_parts c)) :: u64"
    obtain good lmt where l: "limiter_admits now ?bytes (b_limiter s) = (good, lmt)" by fastforce
    obtain r m' f' sc' where p:
      "process_request c (b_mem s, b_backend s, sc) = Some (r, m', (b_backend s)\<lparr>bk_file := f'\<rparr>, sc')"
      using process_request_safe [of "b_mem s" "b_backend s" c sc] assms(1) by (auto simp: blk_ok_def)
    note keep = backend_ok_after [OF _ _ p]
    obtain ur m'' where u:
      "used_push (q_used ?q) (q_num ?q) (dc_head c) (case r of Inl _ \<Rightarrow> 1 | Inr w \<Rightarrow> w) m' = (ur, m'')"
      by fastforce
    show ?thesis
    proof (cases good)
      case False
      with chain l show ?thesis
        by (simp add: blk_serve_def blk_keeps_def last_avail0_def)
    next
      case True
      with chain l p u keep assms used_push_len [OF u] show ?thesis
        by (cases ur) (auto simp: blk_serve_def Let_def blk_keeps_def blk_ok_def last_avail0_def
            get_q_set_last_avail)
    qed
  qed
qed

lemma blk_loop_safe:
  assumes "blk_ok s" and "0 < length (queues (b_st s))"
  shows "\<exists>r s'. blk_loop fuel now n sc s = Some (r, s') \<and> blk_keeps s s' \<and>
    (\<forall>k. r = Inr k \<longrightarrow> n \<le> k \<and> k \<le> n + fuel \<and> last_avail0 s' = last_avail0 s + of_nat (k - n))"
  using assms
proof (induction fuel arbitrary: n sc s)
  case (Suc fuel)
  let ?q = "get_q (b_st s) 0"
  consider (err) e where "pop_avail ?q (b_mem s) = Inl e"
    | (stop) "pop_avail ?q (b_mem s) = Inr None"
    | (serve) head where "pop_avail ?q (b_mem s) = Inr (Some head)"
    by (cases "pop_avail ?q (b_mem s)") auto
  then show ?case
  proof cases
    case serve
    obtain r sc' s1 where s1: "blk_serve (now n) head sc s = Some (r, sc', s1)" "blk_keeps s s1"
      "last_avail0 s1 = last_avail0 s + (if r = Inr True then 1 else 0)"
      using blk_serve_safe [OF Suc.prems] by blast
    show ?thesis
    proof (cases "r = Inr True")
      case False
      with serve s1 show ?thesis by (cases r) auto
    next
      case True
      have "blk_ok s1" "0 < length (queues (b_st s1))"
        using s1(2) Suc.prems by (auto intro: blk_keeps_ok simp: blk_keeps_def)
      from Suc.IH [OF this, of "Suc n" sc'] obtain r' s2 where s2:
        "blk_loop fuel now (Suc n) sc' s1 = Some (r', s2)" "blk_keeps s1 s2"
        "\<forall>k. r' = Inr k \<longrightarrow> Suc n \<le> k \<and> k \<le> Suc n + fuel \<and>
           last_avail0 s2 = last_avail0 s1 + of_nat (k - Suc n)" by blast
      have "of_nat (k - n) = (1 + of_nat (k - Suc n) :: u16)" if "Suc n \<le> k" for k
      proof -
        have "k - n = Suc (k - Suc n)" using that by simp
        then show ?thesis by (simp only: of_nat_Suc)
      qed
      with True serve s1 s2 show ?thesis
        by (auto intro: blk_keeps_trans simp: add.assoc)
    qed
  qed (simp_all add: Let_def)
qed auto

definition blk_notified :: "(nat \<Rightarrow> real) \<Rightarrow> blk_state \<Rightarrow> blk_state" where
  "blk_notified now s = (case blk_handle_notify now s of None \<Rightarrow> s | Some (_, s') \<Rightarrow> s')"

lemma blk_handle_notify_safe:
  assumes "blk_ok s" and "0 < length (queues (b_st s))"
  shows "\<exists>r s'. blk_handle_notify now s = Some (r, s') \<and> blk_keeps s s' \<and>
    (\<forall>k. r = Inr k \<longrightarrow> k \<le> 65 \<and> last_avail0 s' = last_avail0 s + of_nat k)"
  using blk_loop_safe [OF assms, of 65 now 0 0] by (auto simp: blk_handle_notify_def Let_def)

interpretation blk: queue_device blk_notified b_mem b_st
  "\<lambda>s. blk_ok s \<and> 0 < length (queues (b_st s))"
proof
  fix s e
  assume "blk_ok s \<and> 0 < length (queues (b_st s))"
  then obtain r s' where "blk_handle_notify e s = Some (r, s')" "blk_keeps s s'"
    using blk_handle_notify_safe by blast
  then have k: "blk_keeps s (blk_notified e s)" by (simp add: blk_notified_def)
  with \<open>blk_ok s \<and> _\<close> show "blk_ok (blk_notified e s) \<and> 0 < length (queues (b_st (blk_notified e s)))"
    by (auto intro: blk_keeps_ok simp: blk_keeps_def)
  from k show "ram_len (b_mem (blk_notified e s)) = ram_len (b_mem s)"
    "ring_view (b_st (blk_notified e s)) = ring_view (b_st s)" by (simp_all add: blk_keeps_def)
qed

section \<open>Opening an image\<close>

definition raw_image :: "u8 list \<Rightarrow> bool" where
  "raw_image d \<longleftrightarrow> d \<noteq> [] \<and> length d mod 512 = 0 \<and>
     take 4 d \<notin> {qcow2_magic, ascii ''KDMV'', ascii ''vhdx''} \<and>
     slice (length d - 512) (length d - 504) d \<noteq> ascii ''conectix''"

lemma file_metadata_len_Some:
  "file_metadata_len f = (Some n, f') \<Longrightarrow> n = length (f_data f) \<and> f_data f' = f_data f \<and> f_pos f' = f_pos f"
  by (rule next_fault_cases [of f]) (auto simp: file_metadata_len_def)

lemma read_exact_Some:
  "read_exact n f = (Some buf, f') \<Longrightarrow>
    buf = take n (drop (f_pos f) (f_data f)) \<and> f_data f' = f_data f \<and> n \<le> length (f_data f) - f_pos f"
  by (rule next_fault_cases [of f]) (auto simp: read_exact_def Let_def split: if_splits)

lemma file_seek_True:
  "file_seek p f = (True, f') \<Longrightarrow> f_data f' = f_data f \<and> f_pos f' = p"
  by (rule next_fault_cases [of f]) (auto simp: file_seek_def)

lemmas file_ops_ok = file_metadata_len_Some read_exact_Some file_seek_True

lemma block_open_sound:
  assumes "block_open (Some f) ro = Inr b" and "f_pos f = 0"
  shows "raw_image (f_data f)" and "f_data (bk_file b) = f_data f" and "f_pos (bk_file b) = 0"
    and "bk_capacity b = of_nat (length (f_data f) div 512)" and "bk_read_only b = ro"
proof -
  let ?len = "length (f_data f)"
  obtain f1 where f1: "file_metadata_len f = (Some ?len, f1)"
    using assms(1) by (auto simp: block_open_def dest: file_ops_ok split: prod.splits option.splits)
  then have d1: "f_data f1 = f_data f" "f_pos f1 = 0" using file_ops_ok assms(2) by auto
  obtain magic f2 where f2: "read_exact 4 f1 = (Some magic, f2)"
    using assms(1) f1 by (auto simp: block_open_def split: prod.splits option.splits)
  then have d2: "magic = take 4 (f_data f)" "f_data f2 = f_data f" "4 \<le> ?len"
    using file_ops_ok(2) [OF f2] d1 by auto
  have al: "?len \<ge> 512" "?len mod 512 = 0"
    using assms(1) f1 f2 d2
    by (auto simp: block_open_def split: prod.splits option.splits if_splits sum.splits bool.splits)
  obtain f3 where f3: "file_seek (?len - 512) f2 = (True, f3)"
    using assms(1) f1 f2 al
    by (auto simp: block_open_def split: prod.splits option.splits if_splits sum.splits bool.splits)
  obtain footer f4 where f4: "read_exact 8 f3 = (Some footer, f4)"
    using assms(1) f1 f2 f3 al
    by (auto simp: block_open_def split: prod.splits option.splits if_splits sum.splits bool.splits)
  have ft: "footer = slice (?len - 512) (?len - 504) (f_data f)"
    using file_ops_ok(2) [OF f4] file_ops_ok(3) [OF f3] d2 al by (simp add: slice_def)
  obtain f6 where f6: "file_seek 0 f4 = (True, f6)"
    "b = \<lparr>bk_file = f6, bk_capacity = of_nat ((?len + 511) div 512), bk_read_only = ro\<rparr>"
    "magic \<notin> {qcow2_magic, ascii ''KDMV'', ascii ''vhdx''}" "footer \<noteq> ascii ''conectix''"
    using assms(1) f1 f2 f3 f4 al
    by (auto simp: block_open_def split: prod.splits option.splits if_splits sum.splits bool.splits)
  have "f_data f6 = f_data f" "f_pos f6 = 0"
    using file_ops_ok(3) [OF f6(1)] file_ops_ok(2) [OF f4] file_ops_ok(3) [OF f3] d2 by auto
  moreover have "(?len + 511) div 512 = ?len div 512" using al(2) by (simp add: div_add1_eq [of _ 511])
  ultimately show "raw_image (f_data f)" "f_data (bk_file b) = f_data f" "f_pos (bk_file b) = 0"
    "bk_capacity b = of_nat (length (f_data f) div 512)" "bk_read_only b = ro"
    using f6 ft d2 al by (auto simp: raw_image_def)
qed

lemma block_open_complete:
  assumes "raw_image (f_data f)" and "f_pos f = 0" and "f_faults f = []"
  shows "\<exists>b. block_open (Some f) ro = Inr b"
proof -
  have "length (f_data f) \<ge> 512"
    using assms(1) dvd_imp_le [of 512 "length (f_data f)"] by (auto simp: raw_image_def)
  moreover have "slice (length (f_data f) - 512) (length (f_data f) - 512 + 8) (f_data f) =
      slice (length (f_data f) - 512) (length (f_data f) - 504) (f_data f)"
    using calculation by (simp add: slice_def)
  ultimately show ?thesis
    using assms
    by (simp add: block_open_def file_metadata_len_def next_fault_Nil read_exact_ok seek_ok raw_image_def
        slice_def)
qed

section \<open>Properties\<close>

text \<open>
  C12. What a guest writes to the disk it reads back. A valid write request on a writable image
  succeeds and stores the bytes of its data parts, gathered in chain order and moved in bounded
  chunks; a later valid read request of the same sectors, whatever guest memory holds by then,
  succeeds and scatters exactly these bytes over its own data parts, and reports their number plus
  one as the length it wrote.
\<close>

theorem blk_write_then_read:
  assumes "mem_ok m" and "mem_ok m2" and "backend_ok b" and "\<not> bk_read_only b"
    and "f_faults (bk_file b) = []"
    and "is_request m c VIRTIO_BLK_T_OUT sector ps sg" and "valid_io_request m b ps sector False"
    and "is_request m2 c2 VIRTIO_BLK_T_IN sector ps2 sg2" and "valid_io_request m2 b ps2 sector True"
    and "parts_len ps2 = parts_len ps" and "unat sg < ram_len m" and "unat sg2 < ram_len m2"
  shows "\<exists>b' sc' b'' sc''.
    process_request c (m, b, sc) = Some (Inr 1, poke (unat sg) [VIRTIO_BLK_S_OK] m, b', sc') \<and>
    process_request c2 (m2, b', sc2) =
      Some (Inr (of_nat (parts_len ps) + 1),
        poke (unat sg2) [VIRTIO_BLK_S_OK] (scatter_parts ps2 (gather_parts m ps) m2), b'', sc'')"
proof -
  note rng = valid_range [OF assms(1,3,7)]
  let ?d = "splice (unat sector * 512) (gather_parts m ps) (f_data (bk_file b))"
  let ?b = "b\<lparr>bk_file := (bk_file b)\<lparr>f_data := ?d, f_pos := unat sector * 512 + parts_len ps\<rparr>\<rparr>"
  have len: "length (gather_parts m ps) = parts_len ps"
    by (induction ps) (simp_all add: gather_parts_def)
  then have sl: "slice (unat sector * 512) (unat sector * 512 + parts_len ps) ?d = gather_parts m ps"
    using rng slice_splice [of "unat sector * 512" "gather_parts m ps" "f_data (bk_file b)"] by simp
  have ok: "backend_ok ?b" using assms(3) rng len by (simp add: backend_ok_def length_splice)
  have v: "valid_io_request m2 ?b ps2 sector True"
    using assms(2,9) by (simp add: valid_io_request_iff)
  show ?thesis
    using process_write [OF assms(1,3,6,7,4,5,11), of sc]
      process_read [OF assms(2) ok assms(8) v _ assms(12), of sc2] assms(5,10) sl by simp
qed

text \<open>
  C2. Disk confinement. For any chain the guest builds and any faults of the host file, a request
  ends, keeps the size of guest RAM and of the image, and changes the image only if it is a
  well-formed, valid write request on a writable image, and then only inside the sectors the
  request names.
\<close>

theorem blk_request_confined:
  assumes "mem_ok m" and "backend_ok b"
  shows "\<exists>r m' b' sc'. process_request chain (m, b, sc) = Some (r, m', b', sc')
    \<and> ram_len m' = ram_len m \<and> length (f_data (bk_file b')) = length (f_data (bk_file b))
    \<and> (f_data (bk_file b') = f_data (bk_file b) \<or>
       \<not> bk_read_only b \<and>
       (\<exists>sector ps sg. is_request m chain VIRTIO_BLK_T_OUT sector ps sg \<and>
          valid_io_request m b ps sector False \<and>
          same_outside (unat sector * 512) (unat sector * 512 + parts_len ps)
            (f_data (bk_file b)) (f_data (bk_file b'))))"
  using process_request_safe [OF assms, of chain sc] by (fastforce dest: same_outside_length)

text \<open>
  Request validation is exact: \<^verbatim>\<open>valid_io_request\<close> accepts precisely the requests whose data
  parts all have the required direction and lie in guest RAM, whose total length is a multiple of
  the sector size that fits the 32-bit length with its status byte, and whose sectors end inside
  the disk, with no 64-bit overflow anywhere.
\<close>

theorem blk_validation_exact:
  assumes "mem_ok m"
  shows "valid_io_request m b ps sector dw \<longleftrightarrow>
    (\<forall>p \<in> set ps. part_in_ram m p \<and> snd (snd p) = dw) \<and> parts_len ps mod 512 = 0 \<and>
    parts_len ps < 2 ^ 32 - 1 \<and> unat sector * 512 + parts_len ps \<le> unat (bk_capacity b) * 512 \<and>
    unat (bk_capacity b) * 512 < 2 ^ 64"
  by (rule valid_io_request_iff [OF assms])

text \<open>
  C11. Walking a descriptor chain. \<^verbatim>\<open>walk_chain\<close> returns a chain exactly when the descriptors linked
  from the head are at most 64, pairwise distinct, inside the table, readable, not indirect and
  end without the next flag; it then returns them all, in order. Cyclic chains are errors.
\<close>

theorem walk_chain_exact:
  "walk_chain m base head qnum = Inr c \<longleftrightarrow>
    dc_head c = head \<and>
    (\<exists>is ds. linked m base qnum (head # is) ds \<and> distinct (head # is) \<and> length (head # is) \<le> 64 \<and>
       dc_parts c = map part_of_desc ds)"
proof -
  have fuel: "unat (min qnum 64) = min (unat qnum) 64"
    by (simp add: min_def word_le_nat_alt)
  have "walk_chain m base head qnum = Inr c \<longleftrightarrow>
      dc_head c = head \<and>
      walk_loop (min (unat qnum) 64) [] [] m base head qnum = Inr (dc_parts c)"
    by (cases c) (auto simp: walk_chain_def rbind_def fuel split: sum.splits)
  also have "walk_loop (min (unat qnum) 64) [] [] m base head qnum = Inr (dc_parts c) \<longleftrightarrow>
      (\<exists>is ds. linked m base qnum (head # is) ds \<and> distinct (head # is) \<and> length (head # is) \<le> 64 \<and>
         dc_parts c = map part_of_desc ds)" (is "?L \<longleftrightarrow> ?R")
  proof
    show "?L \<Longrightarrow> ?R" using walk_loop_sound by fastforce
    assume ?R
    then obtain "is" ds where l: "linked m base qnum (head # is) ds" "distinct (head # is)"
      "length (head # is) \<le> 64" "dc_parts c = map part_of_desc ds" by blast
    then show ?L
      using desc_path_fits [OF l(1) [unfolded linked_def] l(2)] walk_loop_complete [OF l(1,2), of "[]" "min (unat qnum) 64" "[]"]
      by simp
  qed
  finally show ?thesis .
qed

text \<open>
  C30. Notify handling is bounded and safe. For any queue contents the guest sets up, handling a
  notification ends after at most 65 requests, advances the queue position by exactly the number
  of requests it completed, keeps the rings, the size of RAM and the size of the image, and leaves
  a read-only image untouched.
\<close>

theorem blk_notify_bounded:
  assumes "mem_ok (b_mem s)" and "backend_ok (b_backend s)" and "virtio_wf (b_st s)"
  shows "\<exists>r s'. blk_handle_notify now s = Some (r, s')
    \<and> (\<forall>k. r = Inr k \<longrightarrow> k \<le> 65 \<and>
         q_last_avail (queues (b_st s') ! 0) = q_last_avail (queues (b_st s) ! 0) + of_nat k)
    \<and> ring_view (b_st s') = ring_view (b_st s) \<and> ram_len (b_mem s') = ram_len (b_mem s)
    \<and> length (f_data (bk_file (b_backend s'))) = length (f_data (bk_file (b_backend s)))
    \<and> (bk_read_only (b_backend s) \<longrightarrow>
         f_data (bk_file (b_backend s')) = f_data (bk_file (b_backend s)))"
proof -
  have "blk_ok s" "0 < length (queues (b_st s))"
    using assms by (simp_all add: blk_ok_def virtio_wf_def MAX_QUEUES_def)
  from blk_handle_notify_safe [OF this, of now] show ?thesis
    by (fastforce simp: blk_keeps_def last_avail0_def get_q_def)
qed

text \<open>
  Only raw images are opened. Whatever faults the host file meets, an image that opens is
  non-empty, sector-aligned and carries no qcow2, VMDK, VHDX or VHD signature, and the backend has
  its exact capacity; and every such image opens when the file meets no fault.
\<close>

theorem block_open_raw:
  assumes "f_pos f = 0" and "length (f_data f) < 2 ^ 64"
  shows "(\<forall>b. block_open (Some f) ro = Inr b \<longrightarrow>
      raw_image (f_data f) \<and> backend_ok b \<and> f_data (bk_file b) = f_data f \<and> bk_read_only b = ro)
    \<and> (f_faults f = [] \<and> raw_image (f_data f) \<longrightarrow> (\<exists>b. block_open (Some f) ro = Inr b))"
proof (intro conjI allI impI)
  fix b assume "block_open (Some f) ro = Inr b"
  note s = block_open_sound [OF this assms(1)]
  have "length (f_data f) div 512 < 2 ^ 64" using assms(2) by (simp add: div_less_dividend)
  then have "unat (bk_capacity b) = length (f_data f) div 512" using s by (simp add: unat_of_nat)
  moreover have "length (f_data f) = length (f_data f) div 512 * 512"
    using s(1) by (auto simp: raw_image_def)
  ultimately show "backend_ok b" using s assms by (simp add: backend_ok_def)
  show "raw_image (f_data f)" "f_data (bk_file b) = f_data f" "bk_read_only b = ro" using s by auto
qed (use assms block_open_complete in blast)

section \<open>A concrete disk\<close>

text \<open>
  A one-page guest with a request header for sector 1 at address 0, a data part of one sector and
  a status byte, and a disk of two sectors: the concrete input of the witnesses.
\<close>

definition demo_mem :: "u8 \<Rightarrow> GuestMemory" where
  "demo_mem ty = \<lparr>ram = (\<lambda>i. if i = 0 then ty else if i = 8 then 1 else if i < 16 then 0 else 7),
     ram_len = 4096\<rparr>"

definition demo_parts :: "bool \<Rightarrow> part list" where
  "demo_parts w = [(1024, 512, w)]"

definition demo_chain :: "bool \<Rightarrow> DescChain" where
  "demo_chain w = \<lparr>dc_head = 0, dc_parts = (0, 16, False) # demo_parts w @ [(2048, 1, True)]\<rparr>"

definition demo_backend :: "bool \<Rightarrow> BlockBackend" where
  "demo_backend ro = \<lparr>bk_file = \<lparr>f_data = replicate 1024 0, f_pos = 0, f_faults = []\<rparr>,
     bk_capacity = 2, bk_read_only = ro\<rparr>"

lemma demo_ok [simp]:
  "mem_ok (demo_mem ty)" "backend_ok (demo_backend ro)" "ram_len (demo_mem ty) = 4096"
  "bk_read_only (demo_backend ro) = ro" "f_faults (bk_file (demo_backend ro)) = []"
  "parts_len (demo_parts w) = 512"
  by (simp_all add: mem_ok_def demo_mem_def backend_ok_def demo_backend_def demo_parts_def)

lemma demo_hdr: "read_at 0 16 (demo_mem ty) = Inr [ty, 0, 0, 0, 0, 0, 0, 0, 1, 0, 0, 0, 0, 0, 0, 0]"
  by (simp add: read_at_def demo_mem_def Let_def upt_conv_Cons)

lemma demo_request:
  "is_request (demo_mem 1) (demo_chain False) VIRTIO_BLK_T_OUT 1 (demo_parts False) 2048"
  "is_request (demo_mem 0) (demo_chain True) VIRTIO_BLK_T_IN 1 (demo_parts True) 2048"
  by (simp_all add: is_request_def demo_chain_def demo_parts_def demo_hdr blk_consts slice_def
      u32_from_le_def u64_from_le_def word_le_nat_alt)

lemma demo_valid: "valid_io_request (demo_mem ty) (demo_backend ro) (demo_parts w) 1 w"
  by (simp add: valid_io_request_iff demo_parts_def demo_mem_def demo_backend_def part_in_ram_def mem_ok_def)

lemma demo_gather: "gather_parts (demo_mem ty) (demo_parts w) = replicate 512 7"
  by (rule replicate_eqI)
    (auto simp: gather_parts_def demo_parts_def peek_def demo_mem_def simp del: upt_rec_numeral)

theorem blk_write_then_read_witness:
  "\<exists>b' sc' b'' sc''.
    process_request (demo_chain False) (demo_mem 1, demo_backend False, 0) =
      Some (Inr 1, poke 2048 [0] (demo_mem 1), b', sc') \<and>
    process_request (demo_chain True) (demo_mem 0, b', 0) =
      Some (Inr 513, poke 2048 [0] (scatter_parts (demo_parts True) (replicate 512 7) (demo_mem 0)), b'', sc'')"
  using blk_write_then_read [OF demo_ok(1) demo_ok(1) demo_ok(2) [of False] _ demo_ok(5) demo_request(1) demo_valid
      demo_request(2) demo_valid, where sc = 0 and ?sc2.0 = 0]
  by (simp add: demo_gather blk_consts)

theorem blk_request_confined_witness:
  "\<exists>r m' b' sc'. process_request (demo_chain False) (demo_mem 1, demo_backend False, 0) = Some (r, m', b', sc')
    \<and> ram_len m' = 4096 \<and> length (f_data (bk_file b')) = 1024"
  using blk_request_confined [OF demo_ok(1) [of 1] demo_ok(2) [of False], of "demo_chain False" 0]
  by (auto simp: demo_backend_def)

theorem blk_validation_exact_witness:
  "valid_io_request (demo_mem 0) (demo_backend False) [(1024, 512, True)] 1 True
   \<and> \<not> valid_io_request (demo_mem 0) (demo_backend False) [(1024, 512, True)] 2 True"
  using blk_validation_exact [OF demo_ok(1) [of 0], of "demo_backend False" "[(1024, 512, True)]"]
  by (simp add: demo_mem_def demo_backend_def part_in_ram_def)

theorem walk_chain_exact_witness:
  "\<not> (\<exists>c. walk_chain \<lparr>ram = (\<lambda>i. if i = 12 then 1 else 0), ram_len = 4096\<rparr> 0 0 8 = Inr c)"
proof
  let ?m = "\<lparr>ram = (\<lambda>i. if i = 12 then 1 else 0), ram_len = 4096\<rparr>"
  assume "\<exists>c. walk_chain ?m 0 0 8 = Inr c"
  then obtain "is" ds where l: "linked ?m 0 8 (0 # is) ds" "distinct (0 # is)"
    using walk_chain_exact [of ?m 0 0 8] by blast
  have "read_desc_checked ''descriptor GPA overflow'' 0 0 ?m =
      Inr \<lparr>d_addr = 0, d_len = 0, d_flags = 1, d_next = 0\<rparr>"
    by (simp add: read_desc_checked_def checked_add_def read_at_def rbind_def desc_of_bytes_def upt_conv_Cons
        slice_def u64_from_le_def u32_from_le_def u16_from_le_def)
  with l show False
    by (cases "is") (auto simp: linked_def has_flag_def VRING_DESC_F_NEXT_def split: list.splits)
qed

theorem blk_notify_bounded_witness:
  "\<exists>r s'. blk_handle_notify (\<lambda>_. 0)
      \<lparr>b_mem = demo_mem 0, b_st = vm_state (vm_block 3 0xd0000000 2 True), b_backend = demo_backend True,
       b_limiter = None\<rparr> = Some (r, s')
    \<and> f_data (bk_file (b_backend s')) = replicate 1024 0"
proof -
  have "virtio_wf (vm_state (vm_block 3 0xd0000000 2 True))"
    by (simp add: virtio_wf_def vm_block_def vm_new_def virtio_default_def MAX_QUEUES_def)
  then show ?thesis
    using blk_notify_bounded [of "\<lparr>b_mem = demo_mem 0, b_st = vm_state (vm_block 3 0xd0000000 2 True),
        b_backend = demo_backend True, b_limiter = None\<rparr>" "\<lambda>_. 0"]
    by (auto simp: demo_backend_def backend_ok_def)
qed

theorem block_open_raw_witness:
  "\<exists>b. block_open (Some \<lparr>f_data = replicate 1024 0, f_pos = 0, f_faults = []\<rparr>) True = Inr b"
proof -
  have "replicate 4 (0 :: u8) = [0, 0, 0, 0]" "replicate 8 (0 :: u8) = [0, 0, 0, 0, 0, 0, 0, 0]"
    by (simp_all add: numeral_eq_Suc)
  then have "raw_image (replicate 1024 0)"
    by (simp add: raw_image_def slice_def qcow2_magic_def ascii_def)
  then show ?thesis
    using block_open_raw [of "\<lparr>f_data = replicate 1024 0, f_pos = 0, f_faults = []\<rparr>" True] by simp
qed

end
