(* ===== verification/Virtio_Net.thy ===== *)
theory Virtio_Net
  imports Queue_Device Rate_Limiter
begin

text \<open>
  The virtio-net device of \<^verbatim>\<open>devices/virtio_net.rs\<close>: gathering a transmit chain, delivering a frame
  into a receive chain, pumping frames from the tap, the canned gateway, the transmit loop and the
  multiqueue control queue. The tap is the script of what its next reads meet and the frames
  handed to it. The transmit and control loops have no bound in the code, so they are
  \<^verbatim>\<open>partial_function\<close>s whose value \<open>None\<close> is a loop that never ends.
\<close>

unbundle bit_operations_syntax

section \<open>The tap\<close>

datatype tap_read = WouldBlock | ReadErr | Frame "u8 list"

record Tap =
  tap_in :: "tap_read list"
  tap_out :: "u8 list list"

definition read_frame :: "nat \<Rightarrow> Tap \<Rightarrow> u8 list option result \<times> Tap" where
  "read_frame cap t =
     (case tap_in t of
        [] \<Rightarrow> (Inr None, t)
      | x # xs \<Rightarrow>
          ((case x of
              WouldBlock \<Rightarrow> Inr None
            | ReadErr \<Rightarrow> Inl (Network ''tap read errno'')
            | Frame f \<Rightarrow> (if take cap f = [] then Inr None else Inr (Some (take cap f)))),
           t\<lparr>tap_in := xs\<rparr>))"

definition write_frame :: "u8 list \<Rightarrow> Tap \<Rightarrow> Tap" where
  "write_frame frame t = t\<lparr>tap_out := tap_out t @ [frame]\<rparr>"

section \<open>Transmit chains\<close>

definition VRING_AVAIL_F_NO_INTERRUPT :: u16 where "VRING_AVAIL_F_NO_INTERRUPT = 1"
definition NET_HDR_LEN :: nat where "NET_HDR_LEN = 12"
definition RX_FRAME_MAX :: nat where "RX_FRAME_MAX = 65536"

text \<open>The loop over 16 hops; \<open>out\<close> is the reused buffer, \<open>seen\<close> the indices visited.\<close>

fun gather_loop ::
  "nat \<Rightarrow> u16 list \<Rightarrow> u8 list \<Rightarrow> GuestMemory \<Rightarrow> u64 \<Rightarrow> u16 \<Rightarrow> u32 \<Rightarrow> u8 list result" where
  "gather_loop 0 seen out m desc_base idx qnum =
     Inl (Network ''unterminated TX descriptor chain'')"
| "gather_loop (Suc fuel) seen out m desc_base idx qnum =
     (if ucast idx \<ge> qnum \<or> idx \<in> set seen
      then Inl (Network ''invalid TX descriptor index or cycle'')
      else rbind (read_desc_checked ''TX descriptor GPA overflow'' desc_base idx m) (\<lambda>d.
        if has_flag (d_flags d) (VRING_DESC_F_WRITE OR VRING_DESC_F_INDIRECT)
        then Inl (Network ''invalid TX descriptor flags'')
        else if length out + unat (d_len d) > NET_HDR_LEN + RX_FRAME_MAX
        then Inl (Network ''TX frame exceeds maximum size'')
        else if \<not> (case checked_add (d_addr d) (ucast (d_len d)) of
                     Some stop \<Rightarrow> stop \<le> of_nat (ram_len m) | None \<Rightarrow> False)
        then Inl (Memory ''TX data outside guest RAM'')
        else rbind (read_at (d_addr d) (unat (d_len d)) m) (\<lambda>bytes.
          if \<not> has_flag (d_flags d) VRING_DESC_F_NEXT then Inr (out @ bytes)
          else gather_loop fuel (seen @ [idx]) (out @ bytes) m desc_base (d_next d) qnum)))"

definition gather :: "GuestMemory \<Rightarrow> u64 \<Rightarrow> u16 \<Rightarrow> u32 \<Rightarrow> u8 list result" where
  "gather m desc_base head qnum = gather_loop 16 [] [] m desc_base head qnum"

section \<open>Receive\<close>

datatype RxDelivery = Delivered u32 bool | NoBuffer | TooSmall | Invalid

definition rx_pending :: "QueueState \<Rightarrow> GuestMemory \<Rightarrow> u16 result" where
  "rx_pending q m =
     (if q_ready q = 0 \<or> q_num q = 0 then Inr 0
      else rbind (read_avail_idx (q_avail q) m) (\<lambda>i. Inr (i - q_last_avail q)))"

text \<open>The inner loop of \<^verbatim>\<open>scatter\<close> for one descriptor; \<open>srcs\<close> is \<^verbatim>\<open>src[si..]\<close>.\<close>

function scatter_seg :: "u64 \<Rightarrow> nat \<Rightarrow> u8 list list \<Rightarrow> (GuestMemory, u8 list list) op" where
  "scatter_seg a room [] m = (Inr [], m)"
| "scatter_seg a room (s # ss) m =
     (if room = 0 then (Inr (s # ss), m)
      else if s = [] then scatter_seg a room ss m
      else let n = min (length s) room
           in case write_at a (take n s) m of
                (Inl e, m') \<Rightarrow> (Inl e, m')
              | (Inr u, m') \<Rightarrow> scatter_seg (a + of_nat n) (room - n) (drop n s # ss) m')"
  by pat_completeness auto
termination
  by (relation "measure (\<lambda>(a, room, srcs, m). length srcs + sum_list (map length srcs))") auto

fun scatter_loop :: "(u64 \<times> u32) list \<Rightarrow> u8 list list \<Rightarrow> (GuestMemory, unit) op" where
  "scatter_loop [] srcs m = (Inr (), m)"
| "scatter_loop ((addr, len) # segs) srcs m =
     (case scatter_seg addr (unat len) srcs m of
        (Inl e, m') \<Rightarrow> (Inl e, m')
      | (Inr srcs', m') \<Rightarrow> scatter_loop segs srcs' m')"

definition scatter :: "(u64 \<times> u32) list \<Rightarrow> u8 list \<Rightarrow> u8 list \<Rightarrow> (GuestMemory, unit) op" where
  "scatter segs hdr frame = scatter_loop segs [hdr, frame]"

text \<open>The chain walk of \<^verbatim>\<open>rx_deliver\<close>; \<open>fuel\<close> is \<^verbatim>\<open>q.num - steps\<close>. The result is the flag \<^verbatim>\<open>bad\<close>,
  the segments and their capacity.\<close>

fun rx_walk ::
  "nat \<Rightarrow> GuestMemory \<Rightarrow> QueueState \<Rightarrow> u16 \<Rightarrow> (u64 \<times> u32) list \<Rightarrow> u64 \<Rightarrow> bool \<times> (u64 \<times> u32) list \<times> u64" where
  "rx_walk 0 m q idx segs capacity = (True, segs, capacity)"
| "rx_walk (Suc fuel) m q idx segs capacity =
     (if ucast idx \<ge> q_num q then (True, segs, capacity)
      else case read_desc (q_desc q) idx m of
             Inl e \<Rightarrow> (True, segs, capacity)
           | Inr d \<Rightarrow>
               if \<not> has_flag (d_flags d) VRING_DESC_F_WRITE \<or> has_flag (d_flags d) VRING_DESC_F_INDIRECT
               then (True, segs, capacity)
               else let segs' = segs @ [(d_addr d, d_len d)]; capacity' = capacity + ucast (d_len d)
                    in if \<not> has_flag (d_flags d) VRING_DESC_F_NEXT then (False, segs', capacity')
                       else rx_walk fuel m q (d_next d) segs' capacity')"

definition rx_hdr :: "u8 list" where
  "rx_hdr = (replicate NET_HDR_LEN 0)[10 := 1]"

definition advance :: "QueueState \<Rightarrow> QueueState" where
  "advance q = q\<lparr>q_last_avail := q_last_avail q + 1\<rparr>"

text \<open>The chain is malformed, or the copy left guest RAM: retire it.\<close>

definition rx_retire :: "u16 \<Rightarrow> QueueState \<Rightarrow> GuestMemory \<Rightarrow> RxDelivery result \<times> GuestMemory \<times> QueueState" where
  "rx_retire head q m =
     (if ucast head < q_num q then
        (case used_push (q_used q) (q_num q) head 0 m of
           (Inl e, m') \<Rightarrow> (Inl e, m', q)
         | (Inr u, m') \<Rightarrow> (Inr Invalid, m', advance q))
      else (Inr Invalid, m, advance q))"

definition rx_publish ::
  "u16 \<Rightarrow> u32 \<Rightarrow> QueueState \<Rightarrow> GuestMemory \<Rightarrow> RxDelivery result \<times> GuestMemory \<times> QueueState" where
  "rx_publish head need q m =
     (case used_push (q_used q) (q_num q) head need m of
        (Inl e, m') \<Rightarrow> (Inl e, m', q)
      | (Inr u, m') \<Rightarrow>
          (case read_u16 (q_avail q) m' of
             Inl e \<Rightarrow> (Inl e, m', advance q)
           | Inr flags \<Rightarrow>
               (Inr (Delivered need (\<not> has_flag flags VRING_AVAIL_F_NO_INTERRUPT)), m', advance q)))"

definition rx_deliver :: "u8 list \<Rightarrow> (GuestMemory \<times> QueueState, RxDelivery) op" where
  "rx_deliver frame s =
     (case s of (m, q) \<Rightarrow>
      case rx_pending q m of
        Inl e \<Rightarrow> (Inl e, s)
      | Inr pending \<Rightarrow>
      if pending = 0 then (Inr NoBuffer, s)
      else if ucast pending > q_num q then (Inr Invalid, s)
      else case read_avail_head (q_avail q) (q_num q) (q_last_avail q) m of
        Inl e \<Rightarrow> (Inl e, s)
      | Inr head \<Rightarrow>
      case rx_walk (unat (q_num q)) m q head [] 0 of (bad, segs, capacity) \<Rightarrow>
      let need = of_nat (NET_HDR_LEN + length frame) :: u64
      in if bad then rx_retire head q m
         else if capacity < need then (Inr TooSmall, s)
         else case scatter segs rx_hdr frame m of
                (Inl e, m') \<Rightarrow> rx_retire head q m'
              | (Inr u, m') \<Rightarrow> rx_publish head (ucast need) q m')"

section \<open>Pumping the tap\<close>

record NetStats =
  rx_frames :: u64
  rx_bytes :: u64
  rx_no_buffer :: u64
  rx_too_small :: u64
  rx_invalid :: u64
  rx_rate_limited :: u64
  tx_frames :: u64

datatype RxPump = Idle | NoBuffers | More

record net_state =
  n_mem :: GuestMemory
  n_st :: VirtioState
  n_tap :: Tap
  n_limiter :: "RateLimiter option"
  n_stats :: NetStats

definition set_q :: "nat \<Rightarrow> QueueState \<Rightarrow> VirtioState \<Rightarrow> VirtioState" where
  "set_q i q st = st\<lparr>queues := (queues st)[i := q]\<rparr>"

definition net_limiter_admits ::
  "real \<Rightarrow> nat \<Rightarrow> net_state \<Rightarrow> bool \<times> net_state" where
  "net_limiter_admits now n s =
     (case n_limiter s of
        None \<Rightarrow> (True, s)
      | Some l \<Rightarrow> (case consume now (of_nat n) l of (good, l') \<Rightarrow> (good, s\<lparr>n_limiter := Some l'\<rparr>)))"

definition count_delivery :: "nat \<Rightarrow> RxDelivery \<Rightarrow> NetStats \<Rightarrow> NetStats" where
  "count_delivery n r st =
     (case r of
        Delivered w i \<Rightarrow> st\<lparr>rx_frames := rx_frames st + 1, rx_bytes := rx_bytes st + of_nat n\<rparr>
      | NoBuffer \<Rightarrow> st\<lparr>rx_no_buffer := rx_no_buffer st + 1\<rparr>
      | TooSmall \<Rightarrow> st\<lparr>rx_too_small := rx_too_small st + 1\<rparr>
      | Invalid \<Rightarrow> st\<lparr>rx_invalid := rx_invalid st + 1\<rparr>)"

definition delivers_interrupt :: "RxDelivery \<Rightarrow> bool" where
  "delivers_interrupt r = (case r of Delivered w i \<Rightarrow> i | _ \<Rightarrow> False)"

text \<open>\<open>now b\<close> is the clock reading with \<open>b\<close> turns of the budget left, \<open>cap\<close> the scratch length.\<close>

fun rx_pump :: "(nat \<Rightarrow> real) \<Rightarrow> nat \<Rightarrow> nat \<Rightarrow> bool \<Rightarrow> (net_state, RxPump \<times> bool) op" where
  "rx_pump now cap 0 raise s = (Inr (More, raise), s)"
| "rx_pump now cap (Suc budget) raise s =
     (case rx_pending (get_q (n_st s) 0) (n_mem s) of
        Inl e \<Rightarrow> (Inl e, s)
      | Inr pending \<Rightarrow>
          if pending = 0 then (Inr (NoBuffers, raise), s)
          else case read_frame cap (n_tap s) of
            (Inl e, tap') \<Rightarrow> (Inl e, s\<lparr>n_tap := tap'\<rparr>)
          | (Inr None, tap') \<Rightarrow> (Inr (Idle, raise), s\<lparr>n_tap := tap'\<rparr>)
          | (Inr (Some frame), tap') \<Rightarrow>
              (case net_limiter_admits (now budget) (length frame) (s\<lparr>n_tap := tap'\<rparr>) of
                 (False, s1) \<Rightarrow>
                   rx_pump now cap budget raise (s1\<lparr>n_stats :=
                     (n_stats s1)\<lparr>rx_rate_limited := rx_rate_limited (n_stats s1) + 1\<rparr>\<rparr>)
               | (True, s1) \<Rightarrow>
                   (case rx_deliver frame (n_mem s1, get_q (n_st s1) 0) of
                      (r, m', q') \<Rightarrow>
                        (let s2 = s1\<lparr>n_mem := m', n_st := set_q 0 q' (n_st s1)\<rparr>
                         in case r of
                              Inl e \<Rightarrow> (Inl e, s2)
                            | Inr d \<Rightarrow>
                                rx_pump now cap budget (raise \<or> delivers_interrupt d)
                                  (s2\<lparr>n_stats := count_delivery (length frame) d (n_stats s2)\<rparr>)))))"

section \<open>The canned gateway\<close>

fun be_sum :: "u8 list \<Rightarrow> u32" where
  "be_sum [] = 0"
| "be_sum [b] = push_bit 8 (ucast b)"
| "be_sum (a # b # p) = ucast (u16_from_be a b) + be_sum p"

function fold16 :: "u32 \<Rightarrow> u32" where
  "fold16 s = (if drop_bit 16 s \<noteq> 0 then fold16 ((s AND 0xffff) + drop_bit 16 s) else s)"
  by pat_completeness auto

text \<open>One folding step lowers the sum, so the folding loop ends.\<close>

lemma fold16_step_less:
  assumes "drop_bit 16 s \<noteq> (0 :: u32)"
  shows "unat ((s AND 0xffff) + drop_bit 16 s) < unat s"
proof -
  have hi: "unat (drop_bit 16 s) = unat s div 2 ^ 16" by (simp add: drop_bit_eq_div unat_div_distrib)
  have "s AND 0xffff = take_bit 16 s" by (simp add: take_bit_eq_mask mask_eq_exp_minus_1)
  then have lo: "unat (s AND 0xffff) = unat s mod 2 ^ 16"
    by (simp add: take_bit_eq_mod unat_mod_distrib)
  have less: "r + q < x" if "x = 2 ^ 16 * q + r" "0 < q" for x q r :: nat using that by simp
  have "0 < unat s div 2 ^ 16" using assms hi by (metis gr0I unat_eq_zero)
  then have "unat s mod 2 ^ 16 + unat s div 2 ^ 16 < unat s" by (intro less) simp_all
  moreover have "unat s < 2 ^ 32" using unsigned_less [of s] by simp
  ultimately show ?thesis using lo hi by (subst unat_add_no_wrap) auto
qed

termination fold16
  by (relation "measure unat") (simp_all add: fold16_step_less)

declare fold16.simps [simp del]

definition inet_cksum :: "u8 list \<Rightarrow> u16" where
  "inet_cksum p = ucast (NOT (fold16 (be_sum p)))"

definition splice_at :: "nat \<Rightarrow> u8 list \<Rightarrow> u8 list \<Rightarrow> u8 list" where
  "splice_at i bytes r = take i r @ bytes @ drop (i + length bytes) r"

definition gw_mac :: "u8 list" where "gw_mac = [0x02, 0, 0, 0, 0, 0x01]"

definition arp_reply :: "u8 list \<Rightarrow> u8 list" where
  "arp_reply guest_mac =
     guest_mac @ gw_mac @ [0x08, 0x06, 0x00, 0x01, 0x08, 0x00, 0x06, 0x04, 0x00, 0x02]
     @ gw_mac @ [192, 168, 100, 1] @ guest_mac @ [192, 168, 100, 2]"

definition be_bytes :: "u16 \<Rightarrow> u8 list" where
  "be_bytes c = [ucast (drop_bit 8 c), ucast c]"

text \<open>The echo reply before its checksums: addresses set, type 0, both checksum fields zero.\<close>

definition echo_headers :: "u8 list \<Rightarrow> u8 list \<Rightarrow> u8 list" where
  "echo_headers frame guest_mac =
     splice_at 24 [0, 0] (splice_at 34 [0] (splice_at 30 [192, 168, 100, 2]
       (splice_at 26 [192, 168, 100, 1] (splice_at 6 gw_mac (splice_at 0 guest_mac frame)))))"

definition ip_header_len :: "u8 list \<Rightarrow> nat" where
  "ip_header_len r = unat (r ! 14 AND 0xf) * 4"

definition echo_reply :: "u8 list \<Rightarrow> u8 list \<Rightarrow> u8 list may_panic" where
  "echo_reply frame guest_mac =
     (let r = echo_headers frame guest_mac; ihl = ip_header_len r
      in if 14 + ihl > length r then Panic
         else let r = splice_at 24 (be_bytes (inet_cksum (slice 14 (14 + ihl) r))) r;
                  r = splice_at 36 [0, 0] r
              in Done (splice_at 36 (be_bytes (inet_cksum (drop 34 r))) r))"

definition gateway_reply :: "u8 list \<Rightarrow> u8 list \<Rightarrow> u8 list option may_panic" where
  "gateway_reply frame guest_mac =
     (if length frame < 42 then Done None
      else let etype = u16_from_be (frame ! 12) (frame ! 13)
           in if etype = 0x0806 \<and> u16_from_be (frame ! 20) (frame ! 21) = 1 \<and>
                 slice 38 42 frame = [192, 168, 100, 1]
              then Done (Some (arp_reply guest_mac))
              else if etype = 0x0800 \<and> length frame \<ge> 42 \<and> frame ! 23 = 1 \<and> frame ! 34 = 8
              then (case echo_reply frame guest_mac of Panic \<Rightarrow> Panic | Done r \<Rightarrow> Done (Some r))
              else Done None)"

section \<open>Transmit\<close>

definition inject_rx :: "u8 list \<Rightarrow> (net_state, bool) op" where
  "inject_rx frame s =
     (case rx_deliver frame (n_mem s, get_q (n_st s) 0) of
        (r, m', q') \<Rightarrow>
          ((case r of Inl e \<Rightarrow> Inl e | Inr d \<Rightarrow> Inr (case d of Delivered w i \<Rightarrow> True | _ \<Rightarrow> False)),
           s\<lparr>n_mem := m', n_st := set_q 0 q' (n_st s)\<rparr>))"

text \<open>
  One turn of the transmit loop after its head was read: whether the loop goes on (\<open>False\<close> is the
  \<^verbatim>\<open>break\<close> on the rate limit) and whether a frame was counted.
\<close>

definition tx_serve ::
  "real \<Rightarrow> bool \<Rightarrow> u16 \<Rightarrow> net_state \<Rightarrow> ((bool \<times> bool) result \<times> net_state) may_panic" where
  "tx_serve now has_tap head s =
     (let q = get_q (n_st s) 1
      in case gather (n_mem s) (q_desc q) head (q_num q) of
           Inl e \<Rightarrow> Done (Inl e, s)
         | Inr buf \<Rightarrow>
             (case net_limiter_admits now (length buf) s of
                (False, s1) \<Rightarrow> Done (Inr (False, False), s1)
              | (True, s1) \<Rightarrow>
                  (case used_push (q_used q) (q_num q) head (of_nat (length buf)) (n_mem s1) of
                     (Inl e, m') \<Rightarrow> Done (Inl e, s1\<lparr>n_mem := m'\<rparr>)
                   | (Inr u, m') \<Rightarrow>
                       (let s2 = s1\<lparr>n_mem := m',
                                     n_st := set_last_avail 1 (q_last_avail q + 1) (n_st s1)\<rparr>;
                            frame = drop 12 buf
                        in if frame = [] then Done (Inr (True, False), s2)
                           else if has_tap
                           then Done (Inr (True, True), s2\<lparr>n_tap := write_frame frame (n_tap s2)\<rparr>)
                           else case gateway_reply frame (mac (n_st s2)) of
                                  Panic \<Rightarrow> Panic
                                | Done None \<Rightarrow> Done (Inr (True, True), s2)
                                | Done (Some reply) \<Rightarrow>
                                    Done (Inr (True, True), snd (inject_rx reply s2))))))"

partial_function (option) tx_loop ::
  "(nat \<Rightarrow> real) \<Rightarrow> bool \<Rightarrow> nat \<Rightarrow> u32 \<Rightarrow> net_state \<Rightarrow> (u32 result \<times> net_state) may_panic option" where
  "tx_loop now has_tap k frames s =
     (case pop_avail (get_q (n_st s) 1) (n_mem s) of
        Inl e \<Rightarrow> Some (Done (Inl e, s))
      | Inr next \<Rightarrow>
          (case next of
             None \<Rightarrow> Some (Done (Inr frames, s))
           | Some head \<Rightarrow>
               (case tx_serve (now k) has_tap head s of
                  Panic \<Rightarrow> Some Panic
                | Done turn \<Rightarrow>
                    (case fst turn of
                       Inl e \<Rightarrow> Some (Done (Inl e, snd turn))
                     | Inr flags \<Rightarrow>
                         if fst flags
                         then tx_loop now has_tap (Suc k) (if snd flags then frames + 1 else frames) (snd turn)
                         else Some (Done (Inr frames, snd turn))))))"

definition net_handle_notify ::
  "(nat \<Rightarrow> real) \<Rightarrow> bool \<Rightarrow> u32 \<Rightarrow> net_state \<Rightarrow> (u32 result \<times> net_state) may_panic option" where
  "net_handle_notify now has_tap qsel s =
     (if qsel \<noteq> 1 then Some (Done (Inr 0, s))
      else let q = get_q (n_st s) 1
           in if q_ready q = 0 \<or> q_num q = 0 then Some (Done (Inr 0, s))
              else tx_loop now has_tap 0 0 s)"

section \<open>The control queue\<close>

definition VIRTIO_NET_CTRL_MQ :: u8 where "VIRTIO_NET_CTRL_MQ = 4"
definition VIRTIO_NET_CTRL_MQ_VQ_PAIRS_SET :: u8 where "VIRTIO_NET_CTRL_MQ_VQ_PAIRS_SET = 0"
definition VIRTIO_NET_OK :: u8 where "VIRTIO_NET_OK = 0"
definition VIRTIO_NET_ERR :: u8 where "VIRTIO_NET_ERR = 1"

lemmas ctrl_consts = VIRTIO_NET_CTRL_MQ_def VIRTIO_NET_CTRL_MQ_VQ_PAIRS_SET_def VIRTIO_NET_OK_def
  VIRTIO_NET_ERR_def

text \<open>The chain of a command: whether it is well formed, the request bytes and the ack address.\<close>

fun ctrl_walk ::
  "nat \<Rightarrow> GuestMemory \<Rightarrow> u64 \<Rightarrow> u32 \<Rightarrow> u16 \<Rightarrow> u8 list \<Rightarrow> u64 option \<Rightarrow> bool \<times> u8 list \<times> u64 option" where
  "ctrl_walk 0 m desc_base qnum idx req ack = (True, req, ack)"
| "ctrl_walk (Suc fuel) m desc_base qnum idx req ack =
     (if ucast idx \<ge> qnum then (False, req, ack)
      else case read_desc desc_base idx m of
             Inl e \<Rightarrow> (False, req, ack)
           | Inr d \<Rightarrow>
               if has_flag (d_flags d) VRING_DESC_F_INDIRECT then (False, req, ack)
               else
                 (let step = (\<lambda>req' ack'.
                    if \<not> has_flag (d_flags d) VRING_DESC_F_NEXT then (True, req', ack')
                    else ctrl_walk fuel m desc_base qnum (d_next d) req' ack')
                  in if has_flag (d_flags d) VRING_DESC_F_WRITE
                     then step req (if d_len d \<ge> 1 then Some (d_addr d) else ack)
                     else if ack = None then
                       (case read_at (d_addr d) (min (unat (d_len d)) (16 - length req)) m of
                          Inl e \<Rightarrow> (False, req, ack)
                        | Inr bytes \<Rightarrow> step (req @ bytes) ack)
                     else step req ack))"

text \<open>The command: the number of pairs to activate, \<open>None\<close> when it is refused.\<close>

definition ctrl_pairs :: "bool \<Rightarrow> bool \<Rightarrow> u8 list \<Rightarrow> VirtioState \<Rightarrow> u16 option" where
  "ctrl_pairs allow_multi chain_ok req st =
     (if chain_ok \<and> length req \<ge> 4 \<and> req ! 0 = VIRTIO_NET_CTRL_MQ \<and>
         req ! 1 = VIRTIO_NET_CTRL_MQ_VQ_PAIRS_SET
      then let pairs = u16_from_le [req ! 2, req ! 3]
           in if pairs \<ge> 1 \<and> pairs \<le> net_max_pairs st \<and> (pairs = 1 \<or> allow_multi)
              then Some pairs else None
      else None)"

definition ctrl_serve ::
  "nat \<Rightarrow> bool \<Rightarrow> u16 \<Rightarrow> (GuestMemory \<times> VirtioState, unit) op" where
  "ctrl_serve qidx allow_multi head s =
     (case s of (m, st) \<Rightarrow>
      let q = get_q st qidx
      in case ctrl_walk 16 m (q_desc q) (q_num q) head [] None of (chain_ok, req, ack_addr) \<Rightarrow>
         let cmd = ctrl_pairs allow_multi chain_ok req st;
             st' = (case cmd of None \<Rightarrow> st | Some n \<Rightarrow> st\<lparr>net_active_pairs := n\<rparr>);
             ack = (case cmd of None \<Rightarrow> VIRTIO_NET_ERR | Some n \<Rightarrow> VIRTIO_NET_OK)
         in case (case ack_addr of
                    None \<Rightarrow> (0, m)
                  | Some a \<Rightarrow> (case write_at a [ack] m of (Inl e, m') \<Rightarrow> (0, m') | (Inr u, m') \<Rightarrow> (1, m'))) of
              (written, m1) \<Rightarrow>
                (case used_push (q_used q) (q_num q) head written m1 of
                   (Inl e, m2) \<Rightarrow> (Inl e, (m2, st'))
                 | (Inr u, m2) \<Rightarrow> (Inr (), (m2, set_last_avail qidx (q_last_avail q + 1) st'))))"

partial_function (option) ctrl_loop ::
  "nat \<Rightarrow> bool \<Rightarrow> u32 \<Rightarrow> GuestMemory \<times> VirtioState \<Rightarrow> (u32 result \<times> GuestMemory \<times> VirtioState) option" where
  "ctrl_loop qidx allow_multi dn s =
     (case pop_avail (get_q (snd s) qidx) (fst s) of
        Inl e \<Rightarrow> Some (Inl e, s)
      | Inr next \<Rightarrow>
          (case next of
             None \<Rightarrow> Some (Inr dn, s)
           | Some head \<Rightarrow>
               (case fst (ctrl_serve qidx allow_multi head s) of
                  Inl e \<Rightarrow> Some (Inl e, snd (ctrl_serve qidx allow_multi head s))
                | Inr u \<Rightarrow> ctrl_loop qidx allow_multi (dn + 1) (snd (ctrl_serve qidx allow_multi head s)))))"

definition handle_ctrl ::
  "nat \<Rightarrow> bool \<Rightarrow> GuestMemory \<times> VirtioState \<Rightarrow> (u32 result \<times> GuestMemory \<times> VirtioState) option" where
  "handle_ctrl qidx allow_multi s =
     (let q = get_q (snd s) qidx
      in if q_ready q = 0 \<or> q_num q = 0 then Some (Inr 0, s) else ctrl_loop qidx allow_multi 0 s)"

section \<open>The Internet checksum\<close>

text \<open>The sum of the big-endian 16-bit groups as a natural number, without the 32-bit wrap.\<close>

fun be_nat :: "u8 list \<Rightarrow> nat" where
  "be_nat [] = 0"
| "be_nat [b] = 256 * unat b"
| "be_nat (a # b # p) = 256 * unat a + unat b + be_nat p"

lemma unat_u8_less: "unat (b :: u8) < 256"
  using unsigned_less [of b] by simp

lemma unat_u16_from_be: "unat (u16_from_be a b) = 256 * unat a + unat b"
  using unat_u8_less [of a] unat_u8_less [of b]
  unfolding u16_from_be_def by (subst unat_of_nat) simp

lemma be_nat_bound: "be_nat p \<le> 65535 * ((length p + 1) div 2)"
proof (induction p rule: be_nat.induct)
  case (2 b)
  then show ?case using unat_u8_less [of b] by simp
next
  case (3 a b p)
  then show ?case using unat_u8_less [of a] unat_u8_less [of b] by simp
qed simp

lemma unat_be_sum:
  assumes "length p \<le> 131072"
  shows "unat (be_sum p) = be_nat p"
  using assms
proof (induction p rule: be_sum.induct)
  case (2 b)
  have "unat (push_bit 8 (ucast b :: u32)) = unat b * 256 mod 2 ^ 32"
    by (simp add: push_bit_eq_mult unat_word_ariths)
  then show ?case using unat_u8_less [of b] by simp
next
  case (3 a b p)
  have "be_nat (a # b # p) \<le> 65535 * ((length (a # b # p) + 1) div 2)" by (rule be_nat_bound)
  then have "be_nat (a # b # p) < 2 ^ 32" using 3 by simp
  then show ?case
    using 3 unat_u16_from_be [of a b] by (subst be_sum.simps, subst unat_add_no_wrap) simp_all
qed simp

lemma unat_drop16: "unat (drop_bit 16 (s :: u32)) = unat s div 2 ^ 16"
  by (simp add: drop_bit_eq_div unat_div_distrib)

lemma fold16_step:
  fixes s :: u32
  defines "t \<equiv> (s AND 0xffff) + drop_bit 16 s"
  assumes "drop_bit 16 s \<noteq> 0"
  shows "unat t mod 65535 = unat s mod 65535" and "t \<noteq> 0"
proof -
  have hi: "unat (drop_bit 16 s) = unat s div 2 ^ 16" by (rule unat_drop16)
  have "s AND 0xffff = take_bit 16 s" by (simp add: take_bit_eq_mask mask_eq_exp_minus_1)
  then have lo: "unat (s AND 0xffff) = unat s mod 2 ^ 16" by (simp add: take_bit_eq_mod unat_mod_distrib)
  have "unat s < 2 ^ 32" using unsigned_less [of s] by simp
  then have "unat s div 2 ^ 16 < 2 ^ 16" by (simp add: less_mult_imp_div_less)
  then have t: "unat t = unat s mod 2 ^ 16 + unat s div 2 ^ 16"
    using lo hi unfolding t_def by (subst unat_add_no_wrap) auto
  have "x mod 65535 = (r + q) mod 65535" if "x = 65536 * q + r" for x q r :: nat
  proof -
    have "x = r + q + 65535 * q" using that by simp
    then show ?thesis by (simp only: mod_mult_self2)
  qed
  from this [of "unat s" "unat s div 2 ^ 16" "unat s mod 2 ^ 16"] t
  show "unat t mod 65535 = unat s mod 65535" by simp
  have "0 < unat (drop_bit 16 s)" using assms by (metis gr0I unat_eq_zero)
  then have "0 < unat t" using t hi by simp
  then show "t \<noteq> 0" by (metis less_irrefl unat_0)
qed

lemma fold16_spec:
  "unat (fold16 s) < 65536 \<and> unat (fold16 s) mod 65535 = unat s mod 65535 \<and>
   (fold16 s = 0 \<longleftrightarrow> s = 0) \<and> unat (fold16 s) \<le> unat s"
proof (induction s rule: fold16.induct)
  case (1 s)
  show ?case
  proof (cases "drop_bit 16 s = 0")
    case True
    then have "unat s div 2 ^ 16 = 0" using unat_drop16 [of s] by simp
    then have "unat s < 65536" by (simp add: div_eq_0_iff)
    with True show ?thesis by (subst (1 2 3 4) fold16.simps) simp
  next
    case False
    have "s \<noteq> 0" using False by auto
    with 1 False fold16_step [OF False] fold16_step_less [OF False] show ?thesis
      by (subst (1 2 3 4) fold16.simps) simp
  qed
qed

lemma unat_inet_cksum: "unat (inet_cksum p) = 65535 - unat (fold16 (be_sum p))"
proof -
  let ?f = "fold16 (be_sum p)"
  have f: "unat ?f < 65536" using fold16_spec by blast
  have "unat (NOT ?f) = 2 ^ 32 - 1 - unat ?f"
  proof -
    have "NOT ?f = - 1 - ?f" by (simp add: not_eq_complement)
    then show ?thesis using unat_sub [of ?f "- 1"] by (simp add: unsigned_minus_1_eq_mask mask_eq_exp_minus_1)
  qed
  then have "unat (ucast (NOT ?f) :: u16) = (2 ^ 32 - 1 - unat ?f) mod 2 ^ 16"
    by (simp add: unsigned_ucast_eq take_bit_eq_mod)
  also have "2 ^ 32 - 1 - unat ?f = 65535 - unat ?f + 65535 * 2 ^ 16" using f by simp
  also have "\<dots> mod 2 ^ 16 = 65535 - unat ?f" by (simp only: mod_mult_self1) simp
  finally show ?thesis by (simp add: inet_cksum_def)
qed

section \<open>Splicing bytes into a frame\<close>

lemma length_splice_at [simp]:
  "i + length x \<le> length r \<Longrightarrow> length (splice_at i x r) = length r"
  by (simp add: splice_at_def)

lemma nth_splice_at:
  assumes "i + length x \<le> length r" and "j < length r"
  shows "splice_at i x r ! j = (if i \<le> j \<and> j < i + length x then x ! (j - i) else r ! j)"
  using assms by (auto simp: splice_at_def nth_append min_def)

lemma slice_splice_inside:
  assumes "a \<le> i" and "i + length x \<le> b" and "b \<le> length r"
  shows "slice a b (splice_at i x r) = splice_at (i - a) x (slice a b r)"
  by (rule nth_equalityI) (use assms in \<open>auto simp: nth_splice_at length_slice_in add.commute\<close>)

lemma slice_splice_apart:
  assumes "b \<le> i \<or> i + length x \<le> a" and "i + length x \<le> length r" and "b \<le> length r"
  shows "slice a b (splice_at i x r) = slice a b r"
  by (rule nth_equalityI) (use assms in \<open>auto simp: nth_splice_at length_slice_in add.commute\<close>)

lemma drop_splice_inside:
  assumes "a \<le> i" and "i + length x \<le> length r"
  shows "drop a (splice_at i x r) = splice_at (i - a) x (drop a r)"
  by (rule nth_equalityI) (use assms in \<open>auto simp: nth_splice_at length_slice_in add.commute\<close>)

lemma drop_splice_before:
  assumes "i + length x \<le> a" and "i + length x \<le> length r"
  shows "drop a (splice_at i x r) = drop a r"
  by (rule nth_equalityI) (use assms in \<open>auto simp: nth_splice_at length_slice_in add.commute\<close>)

lemma length_be_bytes [simp]: "length (be_bytes c) = 2"
  by (simp add: be_bytes_def)

lemma be_nat_be_bytes: "be_nat (be_bytes c @ p) = unat c + be_nat p"
proof -
  have "unat (ucast (drop_bit 8 c) :: u8) = unat c div 256"
  proof -
    have "unat c < 2 ^ 16" using unsigned_less [of c] by simp
    then have "unat c div 256 < 256" by (simp add: less_mult_imp_div_less)
    then show ?thesis
      by (simp add: unsigned_ucast_eq take_bit_eq_mod drop_bit_eq_div unat_div_distrib)
  qed
  moreover have "unat (ucast c :: u8) = unat c mod 256"
    by (simp add: unsigned_ucast_eq take_bit_eq_mod)
  ultimately show ?thesis by (simp add: be_bytes_def)
qed

lemma be_nat_splice:
  assumes "2 * k + 2 \<le> length p" and "p ! (2 * k) = 0" and "p ! (2 * k + 1) = 0"
  shows "be_nat (splice_at (2 * k) (be_bytes c) p) = unat c + be_nat p"
  using assms
proof (induction k arbitrary: p)
  case 0
  then obtain a b q where p: "p = a # b # q" by (cases p; cases "tl p") auto
  then have "be_nat p = be_nat q" using 0 by simp
  moreover have "splice_at 0 (be_bytes c) p = be_bytes c @ q" using p by (simp add: splice_at_def)
  ultimately show ?case using be_nat_be_bytes by simp
next
  case (Suc k)
  then obtain a b q where p: "p = a # b # q" by (cases p; cases "tl p") auto
  have "be_nat (splice_at (2 * k) (be_bytes c) q) = unat c + be_nat q"
    using Suc.prems p by (intro Suc.IH) auto
  moreover have "splice_at (2 * Suc k) (be_bytes c) p = a # b # splice_at (2 * k) (be_bytes c) q"
    using p by (simp add: splice_at_def)
  ultimately show ?case using p by simp
qed

text \<open>Storing the checksum in its zeroed field makes the data verify.\<close>

lemma inet_cksum_verifies:
  assumes "2 * k + 2 \<le> length p" and "length p \<le> 131072"
    and "p ! (2 * k) = 0" and "p ! (2 * k + 1) = 0"
  shows "inet_cksum (splice_at (2 * k) (be_bytes (inet_cksum p)) p) = 0"
proof -
  let ?p = "splice_at (2 * k) (be_bytes (inet_cksum p)) p"
  let ?f = "unat (fold16 (be_sum p))"
  have eq: "x = 65535" if "x < 65536" "x mod 65535 = 0" "x \<noteq> 0" for x :: nat
    using that by (cases "x < 65535") auto
  have f: "?f < 65536" "?f mod 65535 = be_nat p mod 65535" "?f \<le> be_nat p"
    using fold16_spec [of "be_sum p"] unat_be_sum [OF assms(2)] by auto
  have sum: "unat (be_sum ?p) = 65535 - ?f + be_nat p"
    using unat_be_sum [of ?p] be_nat_splice [OF assms(1,3,4)] assms unat_inet_cksum [of p] by simp
  then have pos: "0 < unat (be_sum ?p)" using f by linarith
  have "unat (be_sum ?p) = 65535 + (be_nat p - ?f)" using sum f by linarith
  moreover have "(be_nat p - ?f) mod 65535 = 0" 
    using mod_eq_dvd_iff_nat [OF f(3), of 65535] f(2) by simp
  ultimately have "unat (be_sum ?p) mod 65535 = 0" by (metis mod_add_self1)
  then have "unat (fold16 (be_sum ?p)) mod 65535 = 0" "fold16 (be_sum ?p) \<noteq> 0"
    "unat (fold16 (be_sum ?p)) < 65536"
    using fold16_spec [of "be_sum ?p"] pos by auto
  then have "unat (fold16 (be_sum ?p)) = 65535"
    using eq [of "unat (fold16 (be_sum ?p))"] by (simp add: unat_eq_zero)
  then have "unat (inet_cksum ?p) = 0" by (simp add: unat_inet_cksum)
  then show ?thesis by (simp add: unat_eq_zero)
qed

section \<open>The echo reply\<close>

lemma length_gw_mac [simp]: "length gw_mac = 6"
  by (simp add: gw_mac_def)

lemma length_echo_headers [simp]:
  "42 \<le> length frame \<Longrightarrow> length gmac = 6 \<Longrightarrow> length (echo_headers frame gmac) = length frame"
  by (simp add: echo_headers_def)

lemma nth_echo_headers:
  assumes "42 \<le> length frame" and "length gmac = 6"
  shows "echo_headers frame gmac ! 14 = frame ! 14"
    and "echo_headers frame gmac ! 24 = 0" and "echo_headers frame gmac ! 25 = 0"
    and "echo_headers frame gmac ! 34 = 0"
    and "slice 26 34 (echo_headers frame gmac) = [192, 168, 100, 1, 192, 168, 100, 2]"
    and "slice 0 12 (echo_headers frame gmac) = gmac @ gw_mac"
    and "drop 35 (echo_headers frame gmac) = drop 35 frame"
proof -
  show "echo_headers frame gmac ! 14 = frame ! 14" "echo_headers frame gmac ! 24 = 0"
    "echo_headers frame gmac ! 25 = 0" "echo_headers frame gmac ! 34 = 0"
    using assms by (simp_all add: echo_headers_def nth_splice_at)
  show "drop 35 (echo_headers frame gmac) = drop 35 frame"
    using assms by (simp add: echo_headers_def drop_splice_before)
  show "slice 26 34 (echo_headers frame gmac) = [192, 168, 100, 1, 192, 168, 100, 2]"
    by (rule nth_equalityI)
      (use assms in \<open>auto simp: echo_headers_def nth_splice_at less_Suc_eq numeral_eq_Suc\<close>)
  show "slice 0 12 (echo_headers frame gmac) = gmac @ gw_mac"
    by (rule nth_equalityI)
      (use assms in \<open>auto simp: echo_headers_def nth_splice_at nth_append\<close>)
qed

lemma echo_reply_correct:
  assumes len: "42 \<le> length frame" "length frame \<le> 131072" "length gmac = 6"
    and ihl: "frame ! 14 AND 0xf = 5"
  obtains r where "echo_reply frame gmac = Done r" and "length r = length frame"
    and "inet_cksum (slice 14 34 r) = 0" and "inet_cksum (drop 34 r) = 0"
    and "slice 26 34 r = [192, 168, 100, 1, 192, 168, 100, 2]" and "r ! 34 = 0"
    and "slice 0 12 r = gmac @ gw_mac" and "drop 38 r = drop 38 frame"
proof -
  define r0 where "r0 = echo_headers frame gmac"
  note r0 = nth_echo_headers [OF len(1,3), folded r0_def]
  have l0: "length r0 = length frame" using len by (simp add: r0_def)
  define r1 where "r1 = splice_at 24 (be_bytes (inet_cksum (slice 14 34 r0))) r0"
  define r2 where "r2 = splice_at 36 [0, 0] r1"
  define r3 where "r3 = splice_at 36 (be_bytes (inet_cksum (drop 34 r2))) r2"
  have l: "length r1 = length frame" "length r2 = length frame" "length r3 = length frame"
    using l0 len by (simp_all add: r1_def r2_def r3_def)
  have "ip_header_len r0 = 20" using r0(1) ihl by (simp add: ip_header_len_def)
  then have e: "echo_reply frame gmac = Done r3"
    using l0 len by (simp add: echo_reply_def r0_def [symmetric] Let_def r1_def r2_def r3_def)
  have far: "slice a b r3 = slice a b r0" if "b \<le> 24 \<or> 26 \<le> a" "b \<le> 36" for a b
    using that l l0 len by (auto simp: r3_def r2_def r1_def slice_splice_apart)
  have "slice 14 34 r3 = splice_at 10 (be_bytes (inet_cksum (slice 14 34 r0))) (slice 14 34 r0)"
    using l l0 len by (simp add: r3_def r2_def slice_splice_apart) (simp add: r1_def slice_splice_inside)
  then have ip: "inet_cksum (slice 14 34 r3) = 0"
    using inet_cksum_verifies [of 5 "slice 14 34 r0"] l0 len r0 by simp
  have "drop 34 r3 = splice_at 2 (be_bytes (inet_cksum (drop 34 r2))) (drop 34 r2)"
    using l len by (simp add: r3_def drop_splice_inside)
  moreover have "r2 ! 36 = 0" "r2 ! 37 = 0" using l len by (simp_all add: r2_def nth_splice_at)
  ultimately have icmp: "inet_cksum (drop 34 r3) = 0"
    using inet_cksum_verifies [of 1 "drop 34 r2"] l len by simp
  have "drop 38 r3 = drop 38 r0"
    using l l0 len by (simp add: r3_def r2_def r1_def drop_splice_before)
  also have "\<dots> = drop 38 frame"
    using arg_cong [OF r0(7), of "drop 3"] by simp
  finally have "drop 38 r3 = drop 38 frame" .
  moreover have "r3 ! 34 = 0" using l l0 len r0 by (simp add: r3_def r2_def r1_def nth_splice_at)
  ultimately show thesis
    using that [OF e l(3) ip icmp] far [of 34 26] far [of 12 0] r0 by simp
qed

section \<open>Transmit chains\<close>

definition tx_good :: "GuestMemory \<Rightarrow> Desc \<Rightarrow> bool" where
  "tx_good m d \<longleftrightarrow> \<not> has_flag (d_flags d) (VRING_DESC_F_WRITE OR VRING_DESC_F_INDIRECT) \<and>
     unat (d_addr d) + unat (d_len d) \<le> ram_len m"

definition tx_path :: "GuestMemory \<Rightarrow> u64 \<Rightarrow> u32 \<Rightarrow> u16 list \<Rightarrow> Desc list \<Rightarrow> bool" where
  "tx_path m base qnum =
     desc_path (\<lambda>i. read_desc_checked ''TX descriptor GPA overflow'' base i m) (tx_good m) qnum"

definition desc_bytes :: "GuestMemory \<Rightarrow> Desc \<Rightarrow> u8 list" where
  "desc_bytes m d = peek (unat (d_addr d)) (unat (d_len d)) m"

lemma length_desc_bytes [simp]: "length (desc_bytes m d) = unat (d_len d)"
  by (simp add: desc_bytes_def)

lemma gather_step:
  assumes "mem_ok m"
  shows "gather_loop (Suc fuel) seen out m base idx qnum = Inr res \<longleftrightarrow>
    ucast idx < qnum \<and> idx \<notin> set seen \<and>
    (\<exists>d. read_desc_checked ''TX descriptor GPA overflow'' base idx m = Inr d \<and> tx_good m d \<and>
       length (out @ desc_bytes m d) \<le> 65548 \<and>
       (if has_flag (d_flags d) VRING_DESC_F_NEXT
        then gather_loop fuel (seen @ [idx]) (out @ desc_bytes m d) m base (d_next d) qnum = Inr res
        else res = out @ desc_bytes m d))"
  using assms read_at_peek [OF assms]
  by (auto simp: rbind_def tx_good_def range_in_ram NET_HDR_LEN_def RX_FRAME_MAX_def desc_bytes_def
      not_le split: sum.splits if_splits)

lemma gather_loop_sound:
  assumes "mem_ok m" and "gather_loop fuel seen out m base idx qnum = Inr res"
  shows "\<exists>is ds. tx_path m base qnum (idx # is) ds \<and> distinct (idx # is) \<and>
    set (idx # is) \<inter> set seen = {} \<and> length (idx # is) \<le> fuel \<and>
    res = out @ concat (map (desc_bytes m) ds) \<and> length res \<le> 65548"
  using assms(2)
proof (induction fuel arbitrary: seen out idx)
  case (Suc fuel)
  from Suc.prems obtain d where d: "ucast idx < qnum" "idx \<notin> set seen"
    "read_desc_checked ''TX descriptor GPA overflow'' base idx m = Inr d" "tx_good m d"
    "length (out @ desc_bytes m d) \<le> 65548"
    and next_d: "if has_flag (d_flags d) VRING_DESC_F_NEXT
      then gather_loop fuel (seen @ [idx]) (out @ desc_bytes m d) m base (d_next d) qnum = Inr res
      else res = out @ desc_bytes m d"
    unfolding gather_step [OF assms(1)] by blast
  show ?case
  proof (cases "has_flag (d_flags d) VRING_DESC_F_NEXT")
    case False
    with d next_d show ?thesis
      by (intro exI [of _ "[]"] exI [of _ "[d]"]) (simp add: tx_path_def)
  next
    case True
    with next_d have "gather_loop fuel (seen @ [idx]) (out @ desc_bytes m d) m base (d_next d) qnum = Inr res"
      by simp
    from Suc.IH [OF this] obtain "is" ds where "tx_path m base qnum (d_next d # is) ds"
      "distinct (d_next d # is)" "set (d_next d # is) \<inter> set (seen @ [idx]) = {}"
      "length (d_next d # is) \<le> fuel"
      "res = (out @ desc_bytes m d) @ concat (map (desc_bytes m) ds)" "length res \<le> 65548"
      by blast
    with d True show ?thesis
      by (intro exI [of _ "d_next d # is"] exI [of _ "d # ds"]) (auto simp: tx_path_def)
  qed
qed simp

lemma gather_loop_complete:
  assumes "mem_ok m" and "tx_path m base qnum is ds" and "distinct is" and "set is \<inter> set seen = {}"
    and "length is \<le> fuel" and "length (out @ concat (map (desc_bytes m) ds)) \<le> 65548"
  shows "gather_loop fuel seen out m base (hd is) qnum = Inr (out @ concat (map (desc_bytes m) ds))"
  using assms(2-)
proof (induction "is" arbitrary: ds fuel seen out)
  case (Cons i "is")
  then obtain k where k: "fuel = Suc k" by (cases fuel) auto
  from Cons.prems(1) obtain d ds' where d: "ds = d # ds'" "ucast i < qnum"
    "read_desc_checked ''TX descriptor GPA overflow'' base i m = Inr d" "tx_good m d"
    "has_flag (d_flags d) VRING_DESC_F_NEXT = (is \<noteq> [])"
    "if is = [] then ds' = [] else d_next d = hd is \<and> tx_path m base qnum is ds'"
    by (auto simp: tx_path_def split: list.splits)
  have "is \<noteq> [] \<Longrightarrow> gather_loop k (seen @ [i]) (out @ desc_bytes m d) m base (hd is) qnum =
      Inr ((out @ desc_bytes m d) @ concat (map (desc_bytes m) ds'))"
    using d k Cons.prems by (intro Cons.IH) auto
  with d k Cons.prems show ?case
    unfolding k list.sel gather_step [OF assms(1)]
    by (cases "is = []") auto
qed (simp add: tx_path_def)

section \<open>Scattering a frame\<close>

fun scatter_ref :: "(u64 \<times> u32) list \<Rightarrow> u8 list \<Rightarrow> GuestMemory \<Rightarrow> GuestMemory" where
  "scatter_ref [] bytes m = m"
| "scatter_ref ((a, l) # segs) bytes m =
     scatter_ref segs (drop (unat l) bytes) (poke (unat a) (take (unat l) bytes) m)"

lemma ram_len_scatter_ref [simp]: "ram_len (scatter_ref segs bytes m) = ram_len m"
  by (induction segs bytes m rule: scatter_ref.induct) simp_all

lemma scatter_seg_ref:
  assumes "mem_ok m" and "unat a + room \<le> ram_len m"
  shows "\<exists>srcs'. scatter_seg a room srcs m = (Inr srcs', poke (unat a) (take room (concat srcs)) m) \<and>
    concat srcs' = drop room (concat srcs)"
  using assms
proof (induction a room srcs m rule: scatter_seg.induct)
  case (1 a room m)
  then show ?case by simp
next
  case (2 a room s ss m)
  consider "room = 0" | "room \<noteq> 0" "s = []" | "room \<noteq> 0" "s \<noteq> []" by blast
  then show ?case
  proof cases
    case 3
    define n where "n = min (length s) room"
    have n: "n \<le> room" "n \<le> length s" "length (take n s) = n" by (auto simp: n_def)
    let ?m = "poke (unat a) (take n s) m"
    have w: "write_at a (take n s) m = (Inr (), ?m)"
      using 2(3,4) n by (subst write_at_poke) auto
    have a: "unat (a + of_nat n) = unat a + n"
      using 2(3,4) n by (intro unat_add_of_nat) (auto simp: mem_ok_def)
    have "\<exists>srcs'. scatter_seg (a + of_nat n) (room - n) (drop n s # ss) ?m =
        (Inr srcs', poke (unat (a + of_nat n)) (take (room - n) (concat (drop n s # ss))) ?m) \<and>
        concat srcs' = drop (room - n) (concat (drop n s # ss))"
      by (rule 2(2) [OF 3 n_def w [symmetric] refl]) (use 2(3,4) a n in auto)
    moreover have "poke (unat a + n) (take (room - n) (concat (drop n s # ss))) ?m =
        poke (unat a) (take room (concat (s # ss))) m"
      using poke_append [of "unat a" "take n s" _ m] n
      by (auto simp: n_def min_def split: if_splits)
    moreover have "drop (room - n) (concat (drop n s # ss)) = drop room (concat (s # ss))"
      using n by (auto simp: n_def min_def split: if_splits)
    ultimately show ?thesis using 3 w a by (simp add: n_def [symmetric] Let_def)
  qed (use 2 in auto)
qed

definition seg_in_ram :: "GuestMemory \<Rightarrow> u64 \<times> u32 \<Rightarrow> bool" where
  "seg_in_ram m s \<longleftrightarrow> unat (fst s) + unat (snd s) \<le> ram_len m"

lemma scatter_loop_ref:
  assumes "mem_ok m" and "list_all (seg_in_ram m) segs"
  shows "scatter_loop segs srcs m = (Inr (), scatter_ref segs (concat srcs) m)"
  using assms
proof (induction segs srcs m rule: scatter_loop.induct)
  case (2 addr len segs srcs m)
  from 2(3) have "unat addr + unat len \<le> ram_len m" by (simp add: seg_in_ram_def)
  from scatter_seg_ref [OF 2(2) this, of srcs] obtain srcs' where
    s: "scatter_seg addr (unat len) srcs m =
        (Inr srcs', poke (unat addr) (take (unat len) (concat srcs)) m)"
      "concat srcs' = drop (unat len) (concat srcs)" by blast
  have "list_all (seg_in_ram (poke (unat addr) (take (unat len) (concat srcs)) m)) segs"
    using 2(3) by (simp add: list_all_iff seg_in_ram_def)
  with 2(1) [OF s(1) [symmetric] refl] 2(2) s show ?case by simp
qed simp

lemma scatter_eq_ref:
  "mem_ok m \<Longrightarrow> list_all (seg_in_ram m) segs \<Longrightarrow>
   scatter segs hdr frame m = (Inr (), scatter_ref segs (hdr @ frame) m)"
  by (simp add: scatter_def scatter_loop_ref)

lemma scatter_seg_len: "scatter_seg a room srcs m = (r, m') \<Longrightarrow> ram_len m' = ram_len m"
proof (induction a room srcs m arbitrary: r m' rule: scatter_seg.induct)
  case (2 a room s ss m)
  then show ?case
    by (auto simp: Let_def dest: write_at_len split: if_splits prod.splits sum.splits)
qed simp

lemma scatter_loop_len: "scatter_loop segs srcs m = (r, m') \<Longrightarrow> ram_len m' = ram_len m"
proof (induction segs srcs m arbitrary: r m' rule: scatter_loop.induct)
  case (2 addr len segs srcs m)
  then show ?case
    by (auto dest: scatter_seg_len split: prod.splits sum.splits)
qed simp

section \<open>Delivering a frame\<close>

lemma ucast_need: "(ucast (12 + word_of_nat n :: u64) :: u32) = 12 + word_of_nat n"
proof -
  have "(ucast (of_nat (12 + n) :: u64) :: u32) = of_nat (12 + n)"
    unfolding word_unat_eq_iff
    by (simp only: unsigned_ucast_eq take_bit_eq_mod unat_of_nat) (simp add: mod_mod_cancel)
  then show ?thesis by simp
qed

lemma advance_view [simp]: "q_view (advance q) = q_view q"
  by (simp add: advance_def)

lemma rx_retire_out:
  assumes "rx_retire head q m = (r, m', q')"
  shows "ram_len m' = ram_len m \<and> q_view q' = q_view q \<and> (\<forall>d. r = Inr d \<longrightarrow> d = Invalid \<and> q' = advance q)"
  using assms by (auto simp: rx_retire_def dest: used_push_len split: if_splits prod.splits sum.splits)

lemma rx_publish_out:
  assumes "rx_publish head need q m = (r, m', q')"
  shows "ram_len m' = ram_len m \<and> q_view q' = q_view q \<and>
    (\<forall>d. r = Inr d \<longrightarrow> q' = advance q \<and> (\<exists>i. d = Delivered need i) \<and>
       used_push (q_used q) (q_num q) head need m = (Inr (), m'))"
  using assms by (auto simp: rx_publish_def dest: used_push_len split: prod.splits sum.splits)

text \<open>Everything a call can do, by its result.\<close>

lemma rx_deliver_out:
  assumes "rx_deliver frame (m, q) = (r, m', q')"
  shows "ram_len m' = ram_len m" and "q_view q' = q_view q"
    and "r = Inr NoBuffer \<or> r = Inr TooSmall \<Longrightarrow> m' = m \<and> q' = q"
    and "r = Inr NoBuffer \<Longrightarrow> rx_pending q m = Inr 0"
    and "r = Inr (Delivered w i) \<Longrightarrow> q' = advance q \<and> w = of_nat (12 + length frame) \<and>
      (\<exists>head segs cap m1. read_avail_head (q_avail q) (q_num q) (q_last_avail q) m = Inr head \<and>
         rx_walk (unat (q_num q)) m q head [] 0 = (False, segs, cap) \<and>
         of_nat (12 + length frame) \<le> cap \<and>
         scatter segs rx_hdr frame m = (Inr (), m1) \<and>
         used_push (q_used q) (q_num q) head (of_nat (12 + length frame)) m1 = (Inr (), m'))"
proof -
  have len: "\<And>segs srcs r1 m1. scatter_loop segs srcs m = (r1, m1) \<Longrightarrow> ram_len m1 = ram_len m"
    by (rule scatter_loop_len)
  note simps = rx_deliver_def Let_def scatter_def NET_HDR_LEN_def
  note splits = if_splits prod.splits sum.splits
  show "ram_len m' = ram_len m" "q_view q' = q_view q"
    using assms by (auto simp: simps dest!: rx_retire_out rx_publish_out dest: len split: splits)
  show "m' = m \<and> q' = q" if "r = Inr NoBuffer \<or> r = Inr TooSmall"
    using assms that by (auto simp: simps dest!: rx_retire_out rx_publish_out split: splits)
  show "rx_pending q m = Inr 0" if "r = Inr NoBuffer"
    using assms that by (auto simp: simps dest!: rx_retire_out rx_publish_out split: splits)
  show "q' = advance q \<and> w = of_nat (12 + length frame) \<and>
      (\<exists>head segs cap m1. read_avail_head (q_avail q) (q_num q) (q_last_avail q) m = Inr head \<and>
         rx_walk (unat (q_num q)) m q head [] 0 = (False, segs, cap) \<and>
         of_nat (12 + length frame) \<le> cap \<and>
         scatter segs rx_hdr frame m = (Inr (), m1) \<and>
         used_push (q_used q) (q_num q) head (of_nat (12 + length frame)) m1 = (Inr (), m'))"
    if "r = Inr (Delivered w i)"
    using assms that
    by (auto simp: simps not_less ucast_need dest!: rx_retire_out rx_publish_out split: splits)
qed

section \<open>Pumping the tap\<close>

lemma ring_view_set_q:
  assumes "q_view q' = q_view (get_q st i)"
  shows "ring_view (set_q i q' st) = ring_view st"
proof (cases "i < length (queues st)")
  case True
  then have "(map q_view (queues st))[i := q_view q'] = map q_view (queues st)"
    using assms by (metis get_q_def list_update_id nth_map)
  then show ?thesis by (simp add: ring_view_def set_q_def map_update)
qed (simp add: set_q_def list_update_beyond)

lemma net_limiter_keeps:
  assumes "net_limiter_admits now n s = (good, s')"
  shows "n_mem s' = n_mem s" and "n_st s' = n_st s" and "n_tap s' = n_tap s" and "n_stats s' = n_stats s"
  using assms by (auto simp: net_limiter_admits_def split: option.splits prod.splits)

text \<open>The frames accounted for: delivered, too small, invalid or dropped by the rate limit.\<close>

definition tally :: "NetStats \<Rightarrow> u64" where
  "tally t = rx_frames t + rx_too_small t + rx_invalid t + rx_rate_limited t"

lemma tally_count: "d \<noteq> NoBuffer \<Longrightarrow> tally (count_delivery n d t) = tally t + 1"
  by (cases d) (simp_all add: tally_def count_delivery_def)

lemma no_buffer_count:
  "d \<noteq> NoBuffer \<Longrightarrow> rx_no_buffer (count_delivery n d t) = rx_no_buffer t"
  by (cases d) (simp_all add: count_delivery_def)

lemma read_frame_in:
  "read_frame cap t = (r, t') \<Longrightarrow> tap_in t' = drop 1 (tap_in t) \<and> tap_out t' = tap_out t"
  by (auto simp: read_frame_def split: list.splits)

definition pump_ok :: "net_state \<Rightarrow> net_state \<Rightarrow> bool" where
  "pump_ok s s' \<longleftrightarrow> ram_len (n_mem s') = ram_len (n_mem s) \<and> ring_view (n_st s') = ring_view (n_st s) \<and>
     rx_no_buffer (n_stats s') = rx_no_buffer (n_stats s)"

lemma pump_deliver:
  assumes "rx_deliver frame (n_mem s, get_q (n_st s) 0) = (r, m', q')"
    and "rx_pending (get_q (n_st s) 0) (n_mem s) = Inr p" and "p \<noteq> 0"
  shows "ram_len m' = ram_len (n_mem s)" and "ring_view (set_q 0 q' (n_st s)) = ring_view (n_st s)"
    and "r = Inr d \<Longrightarrow> d \<noteq> NoBuffer"
  using rx_deliver_out(1,2,4) [OF assms(1)] assms(2,3) by (auto intro: ring_view_set_q)

lemma rx_pump_accounts_aux:
  assumes "rx_pump now cap budget raise s = (r, s')"
  shows "pump_ok s s' \<and>
    (\<forall>p i. r = Inr (p, i) \<longrightarrow> (\<exists>k. tally (n_stats s') = tally (n_stats s) + of_nat k \<and>
       tap_in (n_tap s') = drop (if p = Idle then Suc k else k) (tap_in (n_tap s)) \<and>
       k \<le> budget \<and> (p = More \<longrightarrow> k = budget)))"
  using assms
proof (induction budget arbitrary: raise s)
  case 0
  then show ?case by (auto simp: pump_ok_def)
next
  case (Suc budget)
  let ?pend = "rx_pending (get_q (n_st s) 0) (n_mem s)"
  obtain fr tap' where rf: "read_frame cap (n_tap s) = (fr, tap')" by fastforce
  note tin = read_frame_in [OF rf]
  consider (err) e where "?pend = Inl e" | (none) "?pend = Inr 0"
    | (rerr) p e where "?pend = Inr p" "p \<noteq> 0" "fr = Inl e"
    | (idle) p where "?pend = Inr p" "p \<noteq> 0" "fr = Inr None"
    | (frame) p f where "?pend = Inr p" "p \<noteq> 0" "fr = Inr (Some f)"
    by (cases ?pend; cases fr) auto
  then show ?case
  proof cases
    case frame
    obtain good s1 where lm: "net_limiter_admits (now budget) (length f) (s\<lparr>n_tap := tap'\<rparr>) = (good, s1)"
      by fastforce
    note keep = net_limiter_keeps [OF lm, simplified]
    have grow: ?thesis if p: "pump_ok s s2" and t: "tally (n_stats s2) = tally (n_stats s) + 1"
        and tap: "n_tap s2 = tap'" and run: "rx_pump now cap budget b s2 = (r, s')" for s2 b
    proof -
      from Suc.IH [OF run] have ih: "pump_ok s2 s'"
        "\<forall>p i. r = Inr (p, i) \<longrightarrow> (\<exists>k. tally (n_stats s') = tally (n_stats s2) + of_nat k \<and>
           tap_in (n_tap s') = drop (if p = Idle then Suc k else k) (tap_in (n_tap s2)) \<and>
           k \<le> budget \<and> (p = More \<longrightarrow> k = budget))" by auto
      have "\<exists>k. tally (n_stats s') = tally (n_stats s) + of_nat k \<and>
          tap_in (n_tap s') = drop (if q = Idle then Suc k else k) (tap_in (n_tap s)) \<and>
          k \<le> Suc budget \<and> (q = More \<longrightarrow> k = Suc budget)" if "r = Inr (q, i)" for q i
      proof -
        from ih(2) that obtain k where "tally (n_stats s') = tally (n_stats s2) + of_nat k"
          "tap_in (n_tap s') = drop (if q = Idle then Suc k else k) (tap_in (n_tap s2))"
          "k \<le> budget" "q = More \<longrightarrow> k = budget" by blast
        with t tap tin show ?thesis by (intro exI [of _ "Suc k"]) auto
      qed
      with ih(1) p show ?thesis by (auto simp: pump_ok_def)
    qed
    show ?thesis
    proof (cases good)
      case False
      with Suc.prems frame rf lm keep show ?thesis
        by (intro grow) (auto simp: pump_ok_def tally_def)
    next
      case True
      obtain dr m' q' where dl: "rx_deliver f (n_mem s1, get_q (n_st s1) 0) = (dr, m', q')"
        by (metis prod.exhaust)
      have pd: "rx_pending (get_q (n_st s1) 0) (n_mem s1) = Inr p" using frame keep by simp
      note out = pump_deliver [OF dl pd frame(2)]
      show ?thesis
      proof (cases dr)
        case (Inl e)
        with Suc.prems frame rf lm True dl out keep show ?thesis by (auto simp: pump_ok_def)
      next
        case (Inr d)
        with Suc.prems frame rf lm True dl out keep show ?thesis
          by (intro grow) (auto simp: pump_ok_def Let_def tally_count no_buffer_count)
      qed
    qed
  qed (use Suc.prems rf tin in \<open>auto simp: pump_ok_def intro!: exI [of _ 0]\<close>)
qed

section \<open>The control queue\<close>

definition ctrl_keeps :: "bool \<Rightarrow> GuestMemory \<times> VirtioState \<Rightarrow> GuestMemory \<times> VirtioState \<Rightarrow> bool" where
  "ctrl_keeps allow_multi s s' \<longleftrightarrow>
     ram_len (fst s') = ram_len (fst s) \<and> ring_view (snd s') = ring_view (snd s) \<and>
     net_max_pairs (snd s') = net_max_pairs (snd s) \<and>
     (net_active_pairs (snd s') = net_active_pairs (snd s) \<or>
      1 \<le> net_active_pairs (snd s') \<and> net_active_pairs (snd s') \<le> net_max_pairs (snd s) \<and>
      (net_active_pairs (snd s') = 1 \<or> allow_multi))"

lemma ctrl_keeps_refl [simp]: "ctrl_keeps am s s"
  by (simp add: ctrl_keeps_def)

lemma ctrl_keeps_trans: "ctrl_keeps am s s' \<Longrightarrow> ctrl_keeps am s' s'' \<Longrightarrow> ctrl_keeps am s s''"
  by (auto simp: ctrl_keeps_def)

lemma set_last_avail_pairs [simp]:
  "net_max_pairs (set_last_avail i v st) = net_max_pairs st"
  "net_active_pairs (set_last_avail i v st) = net_active_pairs st"
  by (simp_all add: set_last_avail_def)

lemma ctrl_pairs_Some:
  "ctrl_pairs am ok req st = Some n \<Longrightarrow> 1 \<le> n \<and> n \<le> net_max_pairs st \<and> (n = 1 \<or> am)"
  by (auto simp: ctrl_pairs_def Let_def split: if_splits)

lemma ctrl_serve_keeps: "ctrl_keeps am s (snd (ctrl_serve qidx am head s))"
proof -
  obtain m st where s: "s = (m, st)" by (cases s)
  show ?thesis
    unfolding s
    by (auto simp: ctrl_serve_def ctrl_keeps_def Let_def dest!: write_at_len used_push_len dest: ctrl_pairs_Some
        split: prod.splits option.splits sum.splits)
qed

lemma ctrl_loop_keeps:
  assumes "ctrl_loop qidx am dn s = Some res"
  shows "ctrl_keeps am s (snd res)"
proof (rule ctrl_loop.raw_induct [where P = "\<lambda>qidx am dn s res. ctrl_keeps am s (snd res)", OF _ assms])
  fix loop qidx am dn s res
  assume ih: "\<And>qidx am dn s res. loop qidx am dn s = Some res \<Longrightarrow> ctrl_keeps am s (snd res)"
    and body: "(case pop_avail (get_q (snd s) qidx) (fst s) of
        Inl e \<Rightarrow> Some (Inl e, s)
      | Inr None \<Rightarrow> Some (Inr dn, s)
      | Inr (Some head) \<Rightarrow>
          (case fst (ctrl_serve qidx am head s) of
             Inl e \<Rightarrow> Some (Inl e, snd (ctrl_serve qidx am head s))
           | Inr u \<Rightarrow> loop qidx am (dn + 1) (snd (ctrl_serve qidx am head s)))) = Some res"
  show "ctrl_keeps am s (snd res)"
    using body ctrl_serve_keeps [of am s qidx]
    by (auto dest!: ih intro: ctrl_keeps_trans split: sum.splits option.splits)
qed

section \<open>The transmit loop\<close>

text \<open>
  What makes the loop end: the used ring lies in RAM and apart from the available index, so that
  publishing a completion does not move the index the loop is catching up with.
\<close>

definition tx_ring_ok :: "net_state \<Rightarrow> bool" where
  "tx_ring_ok s \<longleftrightarrow>
     (let q = get_q (n_st s) 1
      in 1 < length (queues (n_st s)) \<and> used_ring_ok (n_mem s) (q_used q) (q_num q) \<and>
         apart (q_used q) (4 + 8 * unat (q_num q)) (q_avail q + 2) 2)"

lemma used_push_apart:
  assumes "used_ring_ok m u n" and "apart u (4 + 8 * unat n) b k"
    and "used_push u n d w m = (Inr (), m')"
  shows "read_at b k m' = read_at b k m" and "ram_len m' = ram_len m"
proof -
  from used_idx_readable [OF assms(1)] obtain idx where idx: "read_u16 (u + 2) m = Inr idx" by blast
  show "ram_len m' = ram_len m" by (rule used_push_len [OF assms(3)])
  have ap: "apart (used_elem_addr u n idx) 8 b k"
    using assms(2) used_elem_in_ring [OF assms(1), of idx] unat_used_elem_addr [OF assms(1), of idx]
    by (auto simp: apart_def)
  have "apart (u + 2) 2 b k"
    using assms(2) unat_used_idx_addr [OF assms(1)] by (auto simp: apart_def)
  with ap show "read_at b k m' = read_at b k m"
    by - (rule used_push_spec [OF assms(1) idx, of d w], use assms(3) in auto)
qed

lemma tx_serve_tap:
  assumes "tx_ring_ok s" and "tx_serve now True head s = Done (Inr (True, c), s')"
  shows "tx_ring_ok s'" and "q_last_avail (get_q (n_st s') 1) = q_last_avail (get_q (n_st s) 1) + 1"
    and "q_avail (get_q (n_st s') 1) = q_avail (get_q (n_st s) 1)"
    and "read_avail_idx (q_avail (get_q (n_st s) 1)) (n_mem s') =
         read_avail_idx (q_avail (get_q (n_st s) 1)) (n_mem s)"
proof -
  let ?q = "get_q (n_st s) 1"
  obtain buf where b: "gather (n_mem s) (q_desc ?q) head (q_num ?q) = Inr buf"
    using assms(2) by (auto simp: tx_serve_def Let_def split: sum.splits)
  obtain good s1 where g: "net_limiter_admits now (length buf) s = (good, s1)" by fastforce
  obtain ur m' where u: "used_push (q_used ?q) (q_num ?q) head (of_nat (length buf)) (n_mem s1) = (ur, m')"
    by fastforce
  have good: "good" "ur = Inr ()" and s': "n_mem s' = m'" "n_st s' = set_last_avail 1 (q_last_avail ?q + 1) (n_st s1)"
    using assms(2) b g u
    by (auto simp: tx_serve_def Let_def split: sum.splits bool.splits if_splits)
  note k = net_limiter_keeps [OF g]
  have r: "used_ring_ok (n_mem s) (q_used ?q) (q_num ?q)" "1 < length (queues (n_st s))"
    "apart (q_used ?q) (4 + 8 * unat (q_num ?q)) (q_avail ?q + 2) 2"
    using assms(1) by (auto simp: tx_ring_ok_def Let_def)
  have st: "get_q (n_st s') 1 = ?q\<lparr>q_last_avail := q_last_avail ?q + 1\<rparr>"
    using get_q_set_last_avail [OF r(2)] s' k by simp
  note p = used_push_apart [OF r(1,3) u [unfolded k good]]
  show "q_last_avail (get_q (n_st s') 1) = q_last_avail ?q + 1" "q_avail (get_q (n_st s') 1) = q_avail ?q"
    using st by simp_all
  show "read_avail_idx (q_avail ?q) (n_mem s') = read_avail_idx (q_avail ?q) (n_mem s)"
    using p s' by (simp add: read_avail_idx_def read_u16_def)
  show "tx_ring_ok s'" using st r p s' k by (simp add: tx_ring_ok_def Let_def used_ring_ok_def mem_ok_def)
qed

lemma tx_serve_tap_no_panic: "\<exists>r s'. tx_serve now True head s = Done (r, s')"
  by (auto simp: tx_serve_def Let_def split: sum.splits prod.splits bool.splits)

lemma tx_loop_ends:
  assumes "tx_ring_ok s" and "read_avail_idx (q_avail (get_q (n_st s) 1)) (n_mem s) = Inr ai"
  shows "\<exists>r s'. tx_loop now True k frames s = Some (Done (r, s'))"
  using assms
proof (induction "unat (ai - q_last_avail (get_q (n_st s) 1))" arbitrary: k frames s rule: less_induct)
  case less
  let ?q = "get_q (n_st s) 1"
  note unfold = tx_loop.simps [of now True k frames s]
  consider (err) e where "pop_avail ?q (n_mem s) = Inl e" | (stop) "pop_avail ?q (n_mem s) = Inr None"
    | (head) h where "pop_avail ?q (n_mem s) = Inr (Some h)"
    by (cases "pop_avail ?q (n_mem s)") auto
  then show ?case
  proof cases
    case head
    then have ne: "q_last_avail ?q \<noteq> ai"
      using less.prems(2) by (auto simp: pop_avail_def rbind_def split: sum.splits if_splits)
    obtain r s' where t: "tx_serve (now k) True h s = Done (r, s')"
      using tx_serve_tap_no_panic by blast
    show ?thesis
    proof (cases "\<exists>c. r = Inr (True, c)")
      case False
      with head t show ?thesis by (cases r) (auto simp: unfold)
    next
      case True
      then obtain c where c: "r = Inr (True, c)" by blast
      note o = tx_serve_tap [OF less.prems(1) t [unfolded c]]
      have "ai - q_last_avail ?q \<noteq> 0" using ne by simp
      then have "unat (ai - q_last_avail ?q - 1) < unat (ai - q_last_avail ?q)"
        by (simp add: measure_unat)
      then have d: "unat (ai - q_last_avail (get_q (n_st s') 1)) < unat (ai - q_last_avail ?q)"
        using o(2) by (simp add: diff_diff_eq)
      have "\<exists>r s''. tx_loop now True (Suc k) (if c then frames + 1 else frames) s' = Some (Done (r, s''))"
        using o less.prems by (intro less.hyps [OF d]) auto
      with head t c show ?thesis by (simp add: unfold)
    qed
  qed (auto simp: unfold)
qed

lemma net_handle_notify_ends:
  assumes "tx_ring_ok s"
  shows "\<exists>r s'. net_handle_notify now True qsel s = Some (Done (r, s'))"
proof (cases "read_avail_idx (q_avail (get_q (n_st s) 1)) (n_mem s)")
  case (Inl e)
  then have "pop_avail (get_q (n_st s) 1) (n_mem s) = Inl e" by (simp add: pop_avail_def rbind_def)
  then have "tx_loop now True 0 0 s = Some (Done (Inl e, s))" by (simp add: tx_loop.simps)
  then show ?thesis by (simp add: net_handle_notify_def Let_def)
next
  case (Inr ai)
  from tx_loop_ends [OF assms this] show ?thesis by (simp add: net_handle_notify_def Let_def)
qed

text \<open>
  A guest whose used ring is its available ring: every completion also advances the available
  index, so the loop never catches up.
\<close>

definition chasing :: "net_state \<Rightarrow> bool" where
  "chasing s \<longleftrightarrow>
     (let q = get_q (n_st s) 1; m = n_mem s
      in 1 < length (queues (n_st s)) \<and> n_limiter s = None \<and> q_num q = 1 \<and> q_used q = q_avail q \<and>
         used_ring_ok m (q_avail q) 1 \<and> apart (q_avail q) 12 (q_desc q) 16 \<and>
         (\<exists>ai. read_u16 (q_avail q + 2) m = Inr ai \<and> ai \<noteq> q_last_avail q) \<and>
         read_u16 (q_avail q + 4) m = Inr 0 \<and>
         (\<exists>d. read_at (q_desc q) 16 m = Inr d \<and> d_flags (desc_of_bytes d) = 0 \<and>
            d_len (desc_of_bytes d) = 0 \<and> unat (d_addr (desc_of_bytes d)) \<le> ram_len m))"

lemma read_at_prefix: "read_at a n m = Inr bs \<Longrightarrow> k \<le> n \<Longrightarrow> read_at a k m = Inr (take k bs)"
  by (auto simp: read_at_Inr take_map)

lemma chasing_step:
  assumes "chasing s"
  obtains s' where "pop_avail (get_q (n_st s) 1) (n_mem s) = Inr (Some 0)"
    and "tx_serve now has_tap 0 s = Done (Inr (True, False), s')" and "chasing s'"
proof -
  let ?q = "get_q (n_st s) 1" and ?m = "n_mem s"
  let ?A = "q_avail ?q"
  from assms obtain ai d where c: "1 < length (queues (n_st s))" "n_limiter s = None" "q_num ?q = 1"
    "q_used ?q = ?A" "used_ring_ok ?m ?A 1" "apart ?A 12 (q_desc ?q) 16"
    "read_u16 (?A + 2) ?m = Inr ai" "ai \<noteq> q_last_avail ?q" "read_u16 (?A + 4) ?m = Inr 0"
    "read_at (q_desc ?q) 16 ?m = Inr d" "d_flags (desc_of_bytes d) = 0" "d_len (desc_of_bytes d) = 0"
    "unat (d_addr (desc_of_bytes d)) \<le> ram_len ?m"
    by (auto simp: chasing_def Let_def)
  have ok: "mem_ok ?m" using c(5) by (simp add: used_ring_ok_def)
  have pop: "pop_avail ?q ?m = Inr (Some 0)"
    using c(3,7,8,9) by (simp add: pop_avail_def read_avail_idx_def read_avail_head_def rbind_def)
  have gth: "gather ?m (q_desc ?q) 0 1 = Inr []"
  proof -
    have "unat (q_desc ?q) < 2 ^ 64" using unsigned_less [of "q_desc ?q"] by simp
    then have "tx_path ?m (q_desc ?q) 1 [0] [desc_of_bytes d]"
      using c by (simp add: tx_path_def tx_good_def read_desc_checked_def checked_add_def rbind_def)
    from gather_loop_complete [OF ok this, of "[]" 16 "[]"] c show ?thesis
      by (simp add: gather_def desc_bytes_def peek_def)
  qed
  from used_push_spec [OF c(5,7), of 0 0] obtain m' where m': "used_push ?A 1 0 0 ?m = (Inr (), m')"
    "read_u16 (?A + 2) m' = Inr (ai + 1)"
    "read_at (used_elem_addr ?A 1 ai) 4 m' = Inr (u32_to_le (ucast (0 :: u16)))" "ram_len m' = ram_len ?m"
    by metis
  have "read_at (q_desc ?q) 16 m' = Inr d"
    using used_push_apart [OF c(5) _ m'(1), of "q_desc ?q" 16] c(6,10) by simp
  moreover have "read_u16 (?A + 4) m' = Inr 0"
    using read_at_prefix [OF m'(3), of 2]
    by (simp add: used_elem_addr_def read_u16_def rbind_def u32_to_le_def u16_from_le_def)
  moreover define s' where "s' = s\<lparr>n_mem := m', n_st := set_last_avail 1 (q_last_avail ?q + 1) (n_st s)\<rparr>"
  moreover have "get_q (n_st s') 1 = ?q\<lparr>q_last_avail := q_last_avail ?q + 1\<rparr>"
    using get_q_set_last_avail [OF c(1)] by (simp add: s'_def)
  ultimately have "chasing s'"
    using c m' by (simp add: chasing_def Let_def used_ring_ok_def mem_ok_def)
  moreover have "tx_serve now has_tap 0 s = Done (Inr (True, False), s')"
    using gth c m' by (simp add: tx_serve_def Let_def net_limiter_admits_def s'_def)
  ultimately show thesis using that pop by blast
qed

lemma chasing_never_ends:
  assumes "tx_loop now has_tap k frames s = Some res"
  shows "\<not> chasing s"
proof (rule tx_loop.raw_induct [where P = "\<lambda>now has_tap k frames s res. \<not> chasing s", OF _ assms])
  fix loop now has_tap k frames s res
  assume ih: "\<And>now has_tap k frames s res. loop now has_tap k frames s = Some res \<Longrightarrow> \<not> chasing s"
    and body: "(case pop_avail (get_q (n_st s) 1) (n_mem s) of
        Inl e \<Rightarrow> Some (Done (Inl e, s))
      | Inr None \<Rightarrow> Some (Done (Inr frames, s))
      | Inr (Some head) \<Rightarrow>
          (case tx_serve (now k) has_tap head s of
             Panic \<Rightarrow> Some Panic
           | Done turn \<Rightarrow>
               (case fst turn of
                  Inl e \<Rightarrow> Some (Done (Inl e, snd turn))
                | Inr flags \<Rightarrow>
                    if fst flags
                    then loop now has_tap (Suc k) (if snd flags then frames + 1 else frames) (snd turn)
                    else Some (Done (Inr frames, snd turn))))) = Some res"
  show "\<not> chasing s"
  proof
    assume "chasing s"
    from chasing_step [OF this, of "now k" has_tap] obtain s' where
      "pop_avail (get_q (n_st s) 1) (n_mem s) = Inr (Some 0)"
      "tx_serve (now k) has_tap 0 s = Done (Inr (True, False), s')" "chasing s'" by blast
    with body ih show False by auto
  qed
qed

section \<open>The device keeps the queue contract\<close>

definition net_keeps :: "net_state \<Rightarrow> net_state \<Rightarrow> bool" where
  "net_keeps s s' \<longleftrightarrow> ram_len (n_mem s') = ram_len (n_mem s) \<and> ring_view (n_st s') = ring_view (n_st s)"

lemma net_keeps_trans: "net_keeps s s' \<Longrightarrow> net_keeps s' s'' \<Longrightarrow> net_keeps s s''"
  by (simp add: net_keeps_def)

lemma inject_rx_keeps: "net_keeps s (snd (inject_rx frame s))"
proof -
  obtain r m' q' where d: "rx_deliver frame (n_mem s, get_q (n_st s) 0) = (r, m', q')"
    by (metis prod.exhaust)
  with rx_deliver_out(1,2) [OF d] ring_view_set_q show ?thesis
    by (simp add: inject_rx_def net_keeps_def)
qed

lemma tx_serve_keeps:
  assumes "tx_serve now has_tap head s = Done (r, s')"
  shows "net_keeps s s'"
proof -
  let ?q = "get_q (n_st s) 1"
  have tail: "net_keeps s s2 \<Longrightarrow> net_keeps s (snd (inject_rx f s2))" for s2 f
    using inject_rx_keeps net_keeps_trans by blast
  show ?thesis
  proof (cases "gather (n_mem s) (q_desc ?q) head (q_num ?q)")
    case (Inl e)
    with assms show ?thesis by (simp add: tx_serve_def net_keeps_def)
  next
    case (Inr buf)
    obtain good s1 where g: "net_limiter_admits now (length buf) s = (good, s1)" by fastforce
    obtain ur m' where u: "used_push (q_used ?q) (q_num ?q) head (of_nat (length buf)) (n_mem s1) = (ur, m')"
      by fastforce
    note k = net_limiter_keeps [OF g] used_push_len [OF u]
    let ?s2 = "s1\<lparr>n_mem := m', n_st := set_last_avail 1 (q_last_avail ?q + 1) (n_st s1)\<rparr>"
    have s2: "net_keeps s ?s2" "net_keeps s s1" "net_keeps s (s1\<lparr>n_mem := m'\<rparr>)"
      "net_keeps s (?s2\<lparr>n_tap := t\<rparr>)" for t
      using k by (simp_all add: net_keeps_def)
    note s3 = tail [OF s2(1)]
    show ?thesis
      using assms Inr g u s2 s3
      by (auto simp: tx_serve_def Let_def
          split: bool.splits sum.splits if_splits may_panic.splits option.splits)
  qed
qed

lemma tx_loop_keeps:
  assumes "tx_loop now has_tap k frames s = Some res"
  shows "\<forall>r s'. res = Done (r, s') \<longrightarrow> net_keeps s s'"
proof (rule tx_loop.raw_induct [where P = "\<lambda>now has_tap k frames s res.
      \<forall>r s'. res = Done (r, s') \<longrightarrow> net_keeps s s'", OF _ assms])
  fix loop now has_tap k frames s res
  assume ih: "\<And>now has_tap k frames s res. loop now has_tap k frames s = Some res \<Longrightarrow>
      \<forall>r s'. res = Done (r, s') \<longrightarrow> net_keeps s s'"
    and body: "(case pop_avail (get_q (n_st s) 1) (n_mem s) of
        Inl e \<Rightarrow> Some (Done (Inl e, s))
      | Inr None \<Rightarrow> Some (Done (Inr frames, s))
      | Inr (Some head) \<Rightarrow>
          (case tx_serve (now k) has_tap head s of
             Panic \<Rightarrow> Some Panic
           | Done turn \<Rightarrow>
               (case fst turn of
                  Inl e \<Rightarrow> Some (Done (Inl e, snd turn))
                | Inr flags \<Rightarrow>
                    if fst flags
                    then loop now has_tap (Suc k) (if snd flags then frames + 1 else frames) (snd turn)
                    else Some (Done (Inr frames, snd turn))))) = Some res"
  have refl: "net_keeps s s" by (simp add: net_keeps_def)
  show "\<forall>r s'. res = Done (r, s') \<longrightarrow> net_keeps s s'"
    using body refl tx_serve_keeps [of "now k" has_tap _ s]
    by (auto dest!: ih split: sum.splits option.splits may_panic.splits if_splits)
      (blast intro: net_keeps_trans)+
qed

datatype net_event =
    NetNotify "nat \<Rightarrow> real" bool u32
  | NetPump "nat \<Rightarrow> real" nat nat
  | NetCtrl nat bool

fun net_handle :: "net_event \<Rightarrow> net_state \<Rightarrow> net_state" where
  "net_handle (NetNotify now has_tap qsel) s =
     (case net_handle_notify now has_tap qsel s of Some (Done (_, s')) \<Rightarrow> s' | _ \<Rightarrow> s)"
| "net_handle (NetPump now cap budget) s = snd (rx_pump now cap budget False s)"
| "net_handle (NetCtrl qidx allow_multi) s =
     (case handle_ctrl qidx allow_multi (n_mem s, n_st s) of
        Some (_, m', st') \<Rightarrow> s\<lparr>n_mem := m', n_st := st'\<rparr>
      | None \<Rightarrow> s)"

lemma net_handle_keeps: "net_keeps s (net_handle e s)"
proof (cases e)
  case (NetNotify now has_tap qsel)
  then show ?thesis
    using tx_loop_keeps [of now has_tap 0 0 s]
    by (auto simp: net_handle_notify_def Let_def net_keeps_def split: option.splits may_panic.splits)
next
  case (NetPump now cap budget)
  obtain r s' where p: "rx_pump now cap budget False s = (r, s')" by fastforce
  with rx_pump_accounts_aux [OF p] NetPump show ?thesis by (simp add: net_keeps_def pump_ok_def)
next
  case (NetCtrl qidx am)
  then show ?thesis
    using ctrl_loop_keeps [of qidx am 0 "(n_mem s, n_st s)"]
    by (auto simp: handle_ctrl_def Let_def net_keeps_def ctrl_keeps_def split: option.splits)
qed

interpretation net: queue_device net_handle n_mem n_st "\<lambda>_. True"
  using net_handle_keeps by unfold_locales (auto simp: net_keeps_def)

section \<open>Properties\<close>

text \<open>
  Transmit gathering is exact. \<^verbatim>\<open>gather\<close> returns a frame exactly when the descriptors linked
  from the head are at most 16, pairwise distinct, inside the table, device-readable, direct and
  inside guest RAM, and hold at most 65548 bytes together; the frame is then their bytes in chain
  order. Cyclic or unterminated chains are errors.
\<close>

theorem net_gather_exact:
  assumes "mem_ok m"
  shows "gather m base head qnum = Inr out \<longleftrightarrow>
    (\<exists>is ds. tx_path m base qnum (head # is) ds \<and> distinct (head # is) \<and> length (head # is) \<le> 16 \<and>
       out = concat (map (desc_bytes m) ds) \<and> length out \<le> 65548)"
  using gather_loop_sound [OF assms, of 16 "[]" "[]" base head qnum out]
    gather_loop_complete [OF assms, of base qnum "head # _" _ "[]" 16 "[]"]
  by (auto simp: gather_def)


text \<open>
  Every frame taken from the tap is accounted for. \<^verbatim>\<open>rx_pump\<close> reads the tap only while the guest
  has a buffer posted, so no frame is lost for want of one; each frame it reads is counted as
  delivered, too small, invalid or rate limited, and it uses up its budget exactly when it reports
  more work. RAM size and rings are kept.
\<close>

theorem rx_pump_accounts:
  assumes "rx_pump now cap budget False s = (r, s')"
  shows "rx_no_buffer (n_stats s') = rx_no_buffer (n_stats s) \<and>
    ram_len (n_mem s') = ram_len (n_mem s) \<and> ring_view (n_st s') = ring_view (n_st s) \<and>
    (\<forall>p i. r = Inr (p, i) \<longrightarrow> (\<exists>k. tally (n_stats s') = tally (n_stats s) + of_nat k \<and>
       tap_in (n_tap s') = drop (if p = Idle then Suc k else k) (tap_in (n_tap s)) \<and>
       k \<le> budget \<and> (p = More \<longrightarrow> k = budget)))"
  using rx_pump_accounts_aux [OF assms] by (simp add: pump_ok_def)

text \<open>
  Queue pairs stay in range. Whatever commands the guest queues, draining the control queue
  leaves the number of active pairs as it was or sets it between 1 and the advertised maximum, and
  to more than 1 only when the datapath allows several pairs.
\<close>

theorem ctrl_pairs_in_range:
  assumes "handle_ctrl qidx allow_multi (m, st) = Some (r, m', st')"
  shows "net_max_pairs st' = net_max_pairs st \<and> ring_view st' = ring_view st \<and>
    (net_active_pairs st' = net_active_pairs st \<or>
     1 \<le> net_active_pairs st' \<and> net_active_pairs st' \<le> net_max_pairs st \<and>
     (net_active_pairs st' = 1 \<or> allow_multi))"
  using assms ctrl_loop_keeps [of qidx allow_multi 0 "(m, st)" "(r, m', st')"]
  by (auto simp: handle_ctrl_def Let_def ctrl_keeps_def split: if_splits)

text \<open>
  The transmit loop ends. With a tap and a used ring that lies in RAM apart from the available
  index, handling a notification returns (it does not panic or loop), for any descriptors and any
  rate limit.
\<close>

theorem net_tx_terminates:
  assumes "tx_ring_ok s"
  shows "\<exists>r s'. net_handle_notify now True qsel s = Some (Done (r, s'))"
  by (rule net_handle_notify_ends [OF assms])

text \<open>
  C38. The transmit loop has no bound of its own. A guest that places a one-entry used ring on top
  of its available ring makes every completion advance the index the loop is catching up with:
  the notification is handled forever.
\<close>

theorem net_tx_chases_forever:
  assumes "chasing s" and "q_ready (get_q (n_st s) 1) \<noteq> 0"
  shows "net_handle_notify now has_tap 1 s = None"
proof -
  have "q_num (get_q (n_st s) 1) \<noteq> 0" using assms(1) by (simp add: chasing_def Let_def)
  moreover have "tx_loop now has_tap 0 0 s = None"
    using assms(1) chasing_never_ends [of now has_tap 0 0 s] by (cases "tx_loop now has_tap 0 0 s") auto
  ultimately show ?thesis using assms(2) by (simp add: net_handle_notify_def Let_def)
qed

text \<open>
  The canned gateway answers an echo request with a packet whose IP header and ICMP checksums
  both verify, with source 192.168.100.1 and destination 192.168.100.2, type echo reply, the MAC
  addresses swapped to guest and gateway, and the request's identifier, sequence number and
  payload unchanged.
\<close>

theorem gateway_echo_verifies:
  assumes "42 \<le> length frame" and "length frame \<le> 65536" and "length gmac = 6"
    and "u16_from_be (frame ! 12) (frame ! 13) = 0x0800" and "frame ! 14 AND 0xf = 5"
    and "frame ! 23 = 1" and "frame ! 34 = 8"
  shows "\<exists>r. gateway_reply frame gmac = Done (Some r) \<and> length r = length frame \<and>
    inet_cksum (slice 14 34 r) = 0 \<and> inet_cksum (drop 34 r) = 0 \<and>
    slice 26 34 r = [192, 168, 100, 1, 192, 168, 100, 2] \<and> r ! 34 = 0 \<and>
    slice 0 12 r = gmac @ gw_mac \<and> drop 38 r = drop 38 frame"
proof -
  from echo_reply_correct [OF assms(1) _ assms(3,5)] assms(2) obtain r where
    "echo_reply frame gmac = Done r" "length r = length frame" "inet_cksum (slice 14 34 r) = 0"
    "inet_cksum (drop 34 r) = 0" "slice 26 34 r = [192, 168, 100, 1, 192, 168, 100, 2]" "r ! 34 = 0"
    "slice 0 12 r = gmac @ gw_mac" "drop 38 r = drop 38 frame" by auto
  with assms show ?thesis by (simp add: gateway_reply_def Let_def)
qed

text \<open>
  The canned gateway trusts the header length of the guest's packet: an echo request whose IP
  header length runs past the end of the frame makes it slice out of range, and the device thread
  panics.
\<close>

theorem gateway_header_length_panics:
  assumes "42 \<le> length frame" and "length gmac = 6"
    and "u16_from_be (frame ! 12) (frame ! 13) = 0x0800" and "frame ! 23 = 1" and "frame ! 34 = 8"
    and "14 + 4 * unat (frame ! 14 AND 0xf) > length frame"
  shows "gateway_reply frame gmac = Panic"
  using assms nth_echo_headers(1) [OF assms(1,2)]
  by (simp add: gateway_reply_def Let_def echo_reply_def ip_header_len_def mult.commute)

section \<open>A concrete guest\<close>

text \<open>
  A page of guest RAM with the descriptor table at 0, the available ring at 256, the used ring at
  512 and a buffer at 1024: descriptor 0 is the 64-byte buffer, with the flags \<open>fl\<close>, and one chain
  is posted.
\<close>

definition net_ram :: "u8 \<Rightarrow> u8 \<Rightarrow> GuestMemory" where
  "net_ram fl len = \<lparr>ram = (\<lambda>i. if i = 1 then 4 else if i = 8 then len else if i = 12 then fl
     else if i = 258 then 1 else 0), ram_len = 4096\<rparr>"

definition net_q :: "u64 \<Rightarrow> u32 \<Rightarrow> QueueState" where
  "net_q used n = \<lparr>q_num = n, q_ready = 1, q_desc = 0, q_avail = 256, q_used = used, q_last_avail = 0\<rparr>"

definition net_demo :: "u64 \<Rightarrow> u32 \<Rightarrow> u8 \<Rightarrow> u8 \<Rightarrow> tap_read list \<Rightarrow> net_state" where
  "net_demo used n fl len script =
     \<lparr>n_mem = net_ram fl len,
      n_st = (vm_state (vm_net 3 0xd0000000 [2, 0, 0, 0, 0, 2]))
        \<lparr>queues := [net_q used n, net_q used n], net_max_pairs := 4\<rparr>,
      n_tap = \<lparr>tap_in = script, tap_out = []\<rparr>, n_limiter = None,
      n_stats = \<lparr>rx_frames = 0, rx_bytes = 0, rx_no_buffer = 0, rx_too_small = 0, rx_invalid = 0,
        rx_rate_limited = 0, tx_frames = 0\<rparr>\<rparr>"

lemma net_ram_reads:
  "mem_ok (net_ram fl len)" "ram_len (net_ram fl len) = 4096"
  "read_at 0 16 (net_ram fl len) = Inr [0, 4, 0, 0, 0, 0, 0, 0, len, 0, 0, 0, fl, 0, 0, 0]"
  "read_u16 258 (net_ram fl len) = Inr 1" "read_u16 260 (net_ram fl len) = Inr 0"
  by (simp_all add: mem_ok_def net_ram_def read_at_def Let_def upt_conv_Cons read_u16_def rbind_def
      u16_from_le_def)

lemma net_desc:
  "desc_of_bytes [0, 4, 0, 0, 0, 0, 0, 0, 64, 0, 0, 0, 2, 0, 0, 0] =
     \<lparr>d_addr = 1024, d_len = 64, d_flags = 2, d_next = 0\<rparr>"
  "desc_of_bytes [0, 4, 0, 0, 0, 0, 0, 0, 64, 0, 0, 0, 0, 0, 0, 0] =
     \<lparr>d_addr = 1024, d_len = 64, d_flags = 0, d_next = 0\<rparr>"
  "desc_of_bytes [0, 4, 0, 0, 0, 0, 0, 0, 0, 0, 0, 0, 0, 0, 0, 0] =
     \<lparr>d_addr = 1024, d_len = 0, d_flags = 0, d_next = 0\<rparr>"
  by (simp_all add: desc_of_bytes_def slice_def u64_from_le_def u32_from_le_def u16_from_le_def)

theorem net_gather_exact_witness: "gather (net_ram 0 64) 0 0 4 = Inr (replicate 64 0)"
proof -
  let ?d = "\<lparr>d_addr = 1024, d_len = 64, d_flags = 0, d_next = 0\<rparr> :: Desc"
  have "tx_path (net_ram 0 64) 0 4 [0] [?d]"
    by (simp add: tx_path_def tx_good_def read_desc_checked_def checked_add_def rbind_def net_ram_reads
        net_desc)
  moreover have "desc_bytes (net_ram 0 64) ?d = replicate 64 0"
    by (rule replicate_eqI) (auto simp: desc_bytes_def peek_def net_ram_def simp del: upt_rec_numeral)
  ultimately show ?thesis
    using net_gather_exact [OF net_ram_reads(1), of 0 64 0 0 4 "replicate 64 0"]
    by (auto intro!: exI [of _ "[]"] exI [of _ "[?d]"])
qed

lemma net_demo_simps [simp]:
  "n_mem (net_demo used n fl len script) = net_ram fl len"
  "get_q (n_st (net_demo used n fl len script)) 0 = net_q used n"
  "get_q (n_st (net_demo used n fl len script)) (Suc 0) = net_q used n"
  "length (queues (n_st (net_demo used n fl len script))) = 2"
  "n_limiter (net_demo used n fl len script) = None"
  by (simp_all add: net_demo_def get_q_def)


theorem rx_pump_accounts_witness:
  "rx_no_buffer (n_stats (snd (rx_pump (\<lambda>_. 0) 65536 8 False (net_demo 512 4 2 64 [Frame [1], Frame [2]])))) = 0"
proof -
  obtain r s' where "rx_pump (\<lambda>_. 0) 65536 8 False (net_demo 512 4 2 64 [Frame [1], Frame [2]]) = (r, s')"
    by fastforce
  from this rx_pump_accounts [OF this] show ?thesis by (simp add: net_demo_def)
qed

theorem ctrl_pairs_in_range_witness:
  "handle_ctrl 1 False (net_ram 2 64, n_st (net_demo 512 0 2 64 [])) = Some (Inr 0, net_ram 2 64, n_st (net_demo 512 0 2 64 []))
   \<and> net_max_pairs (n_st (net_demo 512 0 2 64 [])) = 4"
proof -
  have h: "handle_ctrl 1 False (net_ram 2 64, n_st (net_demo 512 0 2 64 [])) =
      Some (Inr 0, net_ram 2 64, n_st (net_demo 512 0 2 64 []))"
    by (simp add: handle_ctrl_def net_q_def)
  from ctrl_pairs_in_range [OF this] h show ?thesis by (simp add: net_demo_def)
qed

theorem net_tx_terminates_witness:
  "\<exists>r s'. net_handle_notify (\<lambda>_. 0) True 1 (net_demo 512 4 0 64 []) = Some (Done (r, s'))"
proof -
  have "tx_ring_ok (net_demo 512 4 0 64 [])"
    by (simp add: tx_ring_ok_def net_q_def used_ring_ok_def net_ram_reads apart_def)
  then show ?thesis by (rule net_tx_terminates)
qed

theorem net_tx_chases_forever_witness:
  "net_handle_notify (\<lambda>_. 0) True 1 (net_demo 256 1 0 0 []) = None"
proof -
  have "chasing (net_demo 256 1 0 0 [])"
    by (simp add: chasing_def net_q_def used_ring_ok_def net_ram_reads apart_def net_desc)
  then show ?thesis by (rule net_tx_chases_forever) (simp add: net_q_def)
qed

definition ping :: "u8 \<Rightarrow> u8 list" where
  "ping ihl = replicate 12 0 @ [8, 0, ihl] @ replicate 8 0 @ [1] @ replicate 10 0 @ [8] @ replicate 7 9"

lemma ping_bytes:
  "length (ping ihl) = 42" "ping ihl ! 12 = 8" "ping ihl ! 13 = 0" "ping ihl ! 14 = ihl"
  "ping ihl ! 23 = 1" "ping ihl ! 34 = 8"
  by (simp_all add: ping_def nth_append)

theorem gateway_echo_verifies_witness:
  "\<exists>r. gateway_reply (ping 0x45) [2, 0, 0, 0, 0, 2] = Done (Some r) \<and> inet_cksum (slice 14 34 r) = 0"
  using gateway_echo_verifies [of "ping 0x45" "[2, 0, 0, 0, 0, 2]"]
  by (auto simp: ping_bytes u16_from_be_def)

theorem gateway_header_length_panics_witness:
  "gateway_reply (ping 0x4f) [2, 0, 0, 0, 0, 2] = Panic"
  using gateway_header_length_panics [of "ping 0x4f" "[2, 0, 0, 0, 0, 2]"]
  by (simp add: ping_bytes u16_from_be_def)

end
