(* ===== verification/Rust_Text.thy ===== *)
theory Rust_Text
  imports Flux_Prelude
begin

text \<open>
  The string operations of the Rust standard library that the modelled code uses. A \<^verbatim>\<open>&str\<close> is its
  UTF-8 bytes, a HOL character per byte. White space is ASCII white space: the multi-byte Unicode
  spaces that \<^verbatim>\<open>trim\<close> and \<^verbatim>\<open>split_whitespace\<close> also know are outside the model.
\<close>

section \<open>Definitions\<close>

abbreviation byte_of :: "char \<Rightarrow> nat" where
  "byte_of c \<equiv> of_char c"

definition is_space :: "char \<Rightarrow> bool" where
  "is_space c \<longleftrightarrow> byte_of c = 32 \<or> 9 \<le> byte_of c \<and> byte_of c \<le> 13"

definition is_digit_c :: "char \<Rightarrow> bool" where
  "is_digit_c c \<longleftrightarrow> 48 \<le> byte_of c \<and> byte_of c \<le> 57"

definition is_upper_c :: "char \<Rightarrow> bool" where
  "is_upper_c c \<longleftrightarrow> 65 \<le> byte_of c \<and> byte_of c \<le> 90"

definition is_lower_c :: "char \<Rightarrow> bool" where
  "is_lower_c c \<longleftrightarrow> 97 \<le> byte_of c \<and> byte_of c \<le> 122"

definition is_alphabetic :: "char \<Rightarrow> bool" where
  "is_alphabetic c \<longleftrightarrow> is_upper_c c \<or> is_lower_c c"

definition is_alphanumeric :: "char \<Rightarrow> bool" where
  "is_alphanumeric c \<longleftrightarrow> is_alphabetic c \<or> is_digit_c c"

definition is_control :: "char \<Rightarrow> bool" where
  "is_control c \<longleftrightarrow> byte_of c < 32 \<or> byte_of c = 127"

definition lower_c :: "char \<Rightarrow> char" where
  "lower_c c = (if is_upper_c c then char_of (byte_of c + 32 :: nat) else c)"

definition upper_c :: "char \<Rightarrow> char" where
  "upper_c c = (if is_lower_c c then char_of (byte_of c - 32 :: nat) else c)"

abbreviation to_ascii_lowercase :: "string \<Rightarrow> string" where
  "to_ascii_lowercase \<equiv> map lower_c"

abbreviation to_ascii_uppercase :: "string \<Rightarrow> string" where
  "to_ascii_uppercase \<equiv> map upper_c"

definition eq_ignore_ascii_case :: "string \<Rightarrow> string \<Rightarrow> bool" where
  "eq_ignore_ascii_case a b \<longleftrightarrow> to_ascii_lowercase a = to_ascii_lowercase b"

definition trim_start :: "string \<Rightarrow> string" where
  "trim_start s = dropWhile is_space s"

definition trim_end :: "string \<Rightarrow> string" where
  "trim_end s = rev (dropWhile is_space (rev s))"

definition trim :: "string \<Rightarrow> string" where
  "trim s = trim_end (trim_start s)"

definition trim_start_matches :: "char \<Rightarrow> string \<Rightarrow> string" where
  "trim_start_matches c s = dropWhile (\<lambda>x. x = c) s"

definition trim_end_matches :: "char \<Rightarrow> string \<Rightarrow> string" where
  "trim_end_matches c s = rev (dropWhile (\<lambda>x. x = c) (rev s))"

definition strip_prefix :: "string \<Rightarrow> string \<Rightarrow> string option" where
  "strip_prefix p s = (if take (length p) s = p then Some (drop (length p) s) else None)"

definition strip_suffix :: "string \<Rightarrow> string \<Rightarrow> string option" where
  "strip_suffix p s =
     (if length p \<le> length s \<and> drop (length s - length p) s = p
      then Some (take (length s - length p) s) else None)"

text \<open>\<^verbatim>\<open>split\<close> on a character: one piece more than there are separators.\<close>

fun split_on :: "char \<Rightarrow> string \<Rightarrow> string list" where
  "split_on c [] = [[]]"
| "split_on c (x # xs) =
     (if x = c then [] # split_on c xs
      else case split_on c xs of [] \<Rightarrow> [[x]] | p # ps \<Rightarrow> (x # p) # ps)"

fun join :: "string \<Rightarrow> string list \<Rightarrow> string" where
  "join sep [] = []"
| "join sep [s] = s"
| "join sep (s # t # ss) = s @ sep @ join sep (t # ss)"

text \<open>\<^verbatim>\<open>split_whitespace\<close>: the maximal runs without white space.\<close>

function split_whitespace :: "string \<Rightarrow> string list" where
  "split_whitespace s =
     (case dropWhile is_space s of
        [] \<Rightarrow> []
      | x # xs \<Rightarrow>
          takeWhile (\<lambda>c. \<not> is_space c) (x # xs) # split_whitespace (dropWhile (\<lambda>c. \<not> is_space c) (x # xs)))"
  by pat_completeness auto

lemma split_whitespace_shrinks:
  assumes "dropWhile is_space s = x # xs"
  shows "length (dropWhile (\<lambda>c. \<not> is_space c) (x # xs)) < length s"
proof -
  have "\<not> is_space x" using assms by (metis hd_dropWhile list.distinct(1) list.sel(1))
  then have "dropWhile (\<lambda>c. \<not> is_space c) (x # xs) = dropWhile (\<lambda>c. \<not> is_space c) xs" by simp
  moreover have "length (dropWhile (\<lambda>c. \<not> is_space c) xs) \<le> length xs" by (rule length_dropWhile_le)
  moreover have "length (x # xs) \<le> length s" using length_dropWhile_le [of is_space s] assms by simp
  ultimately show ?thesis by simp
qed

termination split_whitespace
  by (relation "measure length") (simp_all only: in_measure split_whitespace_shrinks wf_measure)

declare split_whitespace.simps [simp del]

text \<open>\<^verbatim>\<open>rsplit_once\<close>: around the last separator.\<close>

definition rsplit_once :: "char \<Rightarrow> string \<Rightarrow> (string \<times> string) option" where
  "rsplit_once c s =
     (if c \<in> set s
      then Some (rev (tl (dropWhile (\<lambda>x. x \<noteq> c) (rev s))), rev (takeWhile (\<lambda>x. x \<noteq> c) (rev s)))
      else None)"

section \<open>Numbers\<close>

definition digit_val :: "char \<Rightarrow> nat option" where
  "digit_val c =
     (if is_digit_c c then Some (byte_of c - 48)
      else if is_lower_c c then Some (byte_of c - 87)
      else if is_upper_c c then Some (byte_of c - 55)
      else None)"

fun radix_val :: "nat \<Rightarrow> nat \<Rightarrow> nat \<Rightarrow> string \<Rightarrow> nat option" where
  "radix_val radix bound acc [] = Some acc"
| "radix_val radix bound acc (c # cs) =
     (case digit_val c of
        None \<Rightarrow> None
      | Some d \<Rightarrow>
          if d < radix \<and> acc * radix + d < bound then radix_val radix bound (acc * radix + d) cs else None)"

text \<open>
  \<^verbatim>\<open>from_str_radix\<close> for an unsigned type with values below \<open>bound\<close>: a leading \<^verbatim>\<open>+\<close> is accepted, but
  not alone.
\<close>

definition from_str_radix :: "nat \<Rightarrow> nat \<Rightarrow> string \<Rightarrow> nat option" where
  "from_str_radix radix bound s =
     (case s of
        [] \<Rightarrow> None
      | c # cs \<Rightarrow>
          if c = CHR ''+'' then (if cs = [] then None else radix_val radix bound 0 cs)
          else radix_val radix bound 0 s)"

definition parse_u32 :: "string \<Rightarrow> u32 option" where
  "parse_u32 s = map_option of_nat (from_str_radix 10 (2 ^ 32) s)"

definition digit_char :: "nat \<Rightarrow> char" where
  "digit_char d = char_of (48 + d)"

fun dec_string :: "nat \<Rightarrow> string" where
  "dec_string n = (if n < 10 then [digit_char n] else dec_string (n div 10) @ [digit_char (n mod 10)])"

declare dec_string.simps [simp del]

definition hex_upper :: "nat \<Rightarrow> char" where
  "hex_upper d = (if d < 10 then char_of (48 + d) else char_of (55 + d))"

definition hex_digit :: "nat \<Rightarrow> char" where
  "hex_digit d = (if d < 10 then char_of (48 + d) else char_of (87 + d))"

text \<open>\<^verbatim>\<open>as_bytes\<close>.\<close>

definition text_bytes :: "string \<Rightarrow> u8 list" where
  "text_bytes s = map (\<lambda>c. of_nat (byte_of c)) s"

section \<open>Lemmas\<close>

lemma byte_of_less [simp]: "byte_of c < 256"
  by (cases c) simp

lemma lower_c_idem [simp]: "lower_c (lower_c c) = lower_c c"
  by (auto simp: lower_c_def is_upper_c_def)

lemma lower_upper_c [simp]: "lower_c (upper_c c) = lower_c c"
  by (auto simp: lower_c_def upper_c_def is_upper_c_def is_lower_c_def)

lemma to_lower_idem [simp]: "to_ascii_lowercase (to_ascii_lowercase s) = to_ascii_lowercase s"
  by (simp add: comp_def)

lemma split_on_nonempty [simp]: "split_on c s \<noteq> []"
  by (induction s) (auto split: list.splits)

lemma join_Cons: "ps \<noteq> [] \<Longrightarrow> join sep (p # ps) = p @ sep @ join sep ps"
  by (cases ps) simp_all

lemma join_split_on: "join [c] (split_on c s) = s"
proof (induction s)
  case (Cons x s)
  then show ?case
    by (cases "split_on c s"; cases "tl (split_on c s)") (auto simp: join_Cons)
qed simp

lemma split_on_pieces: "p \<in> set (split_on c s) \<Longrightarrow> c \<notin> set p"
  by (induction s arbitrary: p) (auto split: if_splits list.splits)

lemma split_on_no_sep: "c \<notin> set s \<Longrightarrow> split_on c s = [s]"
  by (induction s) auto

lemma split_on_append: "c \<notin> set p \<Longrightarrow> split_on c (p @ c # s) = p # split_on c s"
  by (induction p) auto

lemma split_on_join:
  assumes "ps \<noteq> []" and "\<And>p. p \<in> set ps \<Longrightarrow> c \<notin> set p"
  shows "split_on c (join [c] ps) = ps"
  using assms
proof (induction ps)
  case (Cons p ps)
  show ?case
  proof (cases "ps = []")
    case True
    then show ?thesis using Cons.prems by (simp add: split_on_no_sep)
  next
    case False
    then show ?thesis using Cons by (simp add: join_Cons split_on_append)
  qed
qed simp

lemma set_join: "set (join [c] ps) \<subseteq> insert c (\<Union>p \<in> set ps. set p)"
proof (induction ps)
  case (Cons p ps)
  then show ?case by (cases "ps = []") (auto simp: join_Cons)
qed simp

lemma radix_val_bound: "radix_val radix bound acc s = Some n \<Longrightarrow> acc < bound \<Longrightarrow> n < bound"
  by (induction radix bound acc s rule: radix_val.induct) (auto split: option.splits if_splits)

lemma from_str_radix_bound: "from_str_radix radix bound s = Some n \<Longrightarrow> 0 < bound \<Longrightarrow> n < bound"
  by (auto simp: from_str_radix_def simp del: radix_val.simps dest: radix_val_bound split: list.splits if_splits)

lemma digit_val_digit_char: "d < 10 \<Longrightarrow> digit_val (digit_char d) = Some d"
  by (simp add: digit_val_def digit_char_def is_digit_c_def)

lemma radix_val_append:
  "radix_val r b a (s @ t) = Option.bind (radix_val r b a s) (\<lambda>a'. radix_val r b a' t)"
  by (induction r b a s rule: radix_val.induct) (auto split: option.splits)

lemma radix_val_dec_string:
  assumes "n < bound"
  shows "radix_val 10 bound 0 (dec_string n) = Some n"
  using assms
proof (induction n rule: dec_string.induct)
  case (1 n)
  show ?case
  proof (cases "n < 10")
    case True
    with 1 show ?thesis by (subst dec_string.simps) (simp add: digit_val_digit_char)
  next
    case False
    then have "radix_val 10 bound 0 (dec_string (n div 10)) = Some (n div 10)" using 1 by simp
    with False 1 show ?thesis
      by (subst dec_string.simps) (simp add: radix_val_append digit_val_digit_char)
  qed
qed

lemma dec_string_head: "\<exists>d ds. dec_string n = d # ds \<and> is_digit_c d"
proof (induction n rule: dec_string.induct)
  case (1 n)
  show ?case
  proof (cases "n < 10")
    case True
    then show ?thesis by (subst dec_string.simps) (simp add: digit_char_def is_digit_c_def)
  next
    case False
    with 1 obtain d ds where "dec_string (n div 10) = d # ds" "is_digit_c d" by blast
    with False show ?thesis by (subst dec_string.simps) simp
  qed
qed

lemma length_dec_string: "n < 10 ^ Suc k \<Longrightarrow> length (dec_string n) \<le> Suc k"
proof (induction k arbitrary: n)
  case 0
  then show ?case by (subst dec_string.simps) simp
next
  case (Suc k)
  then have "n div 10 < 10 ^ Suc k" by (simp add: div_less_iff_less_mult)
  then have "length (dec_string (n div 10)) \<le> Suc k" by (rule Suc.IH)
  then show ?case by (subst dec_string.simps) simp
qed

lemma dec_string_digits: "c \<in> set (dec_string n) \<Longrightarrow> is_digit_c c"
proof (induction n rule: dec_string.induct)
  case (1 n)
  show ?case
  proof (cases "n < 10")
    case True
    then show ?thesis using "1.prems" by (subst (asm) dec_string.simps) (simp add: digit_char_def is_digit_c_def)
  next
    case False
    then show ?thesis using 1 by (subst (asm) (2) dec_string.simps) (auto simp: digit_char_def is_digit_c_def)
  qed
qed

lemma from_str_radix_dec_string: "n < bound \<Longrightarrow> from_str_radix 10 bound (dec_string n) = Some n"
proof -
  assume n: "n < bound"
  obtain d ds where d: "dec_string n = d # ds" "is_digit_c d" using dec_string_head by blast
  then have "d \<noteq> CHR ''+''" by (auto simp: is_digit_c_def)
  then show ?thesis using radix_val_dec_string [OF n] d by (simp add: from_str_radix_def)
qed

section \<open>Trimming and lower case\<close>

lemma in_trim: "c \<in> set (trim_end_matches x s) \<Longrightarrow> c \<in> set s"
  by (auto simp: trim_end_matches_def dest: set_dropWhileD)

lemma last_trim_end_matches: "trim_end_matches x s \<noteq> [] \<Longrightarrow> last (trim_end_matches x s) \<noteq> x"
  using hd_dropWhile [of "\<lambda>c. c = x" "rev s"] by (simp only: trim_end_matches_def last_rev rev_is_Nil_conv) blast

lemma byte_lower: "byte_of (lower_c b) = (if is_upper_c b then byte_of b + 32 else byte_of b)"
  by (auto simp: lower_c_def is_upper_c_def)

lemma byte_neq: "byte_of a \<noteq> byte_of b \<Longrightarrow> a \<noteq> b"
  by auto

lemma lower_keeps_char: "\<not> is_lower_c c \<Longrightarrow> b \<noteq> c \<Longrightarrow> lower_c b \<noteq> c"
proof (cases "is_upper_c b")
  case True
  assume "\<not> is_lower_c c"
  then have "byte_of (lower_c b) \<noteq> byte_of c" using True by (auto simp: byte_lower is_lower_c_def is_upper_c_def)
  then show ?thesis by (rule byte_neq)
qed (simp add: lower_c_def)

lemma lower_not_dot: "b \<noteq> CHR ''.'' \<Longrightarrow> lower_c b \<noteq> CHR ''.''"
  by (simp add: lower_keeps_char is_lower_c_def)

end
