(* ===== verification/Virtio_Vsock.thy ===== *)
theory Virtio_Vsock
  imports Queue_Device Rust_Text
begin

text \<open>
  The virtio-vsock device over a Unix socket,
  \<^verbatim>\<open>src/crates/fluxvm-hypervisor/src/devices/virtio_vsock.rs\<close>: the packet header, the host side (accepting
  clients, their \<^verbatim>\<open>CONNECT\<close> lines, host ports, credit-limited reads), the guest side (one handler per
  operation), and the two virtqueues. A host socket is a script of what its reads return, a script
  of which writes fail, and the bytes written so far. The order in which the connection table is
  walked is an argument, because a hash map does not fix it.
\<close>

section \<open>Constants and the packet header\<close>

definition VSOCK_HOST_CID :: u32 where "VSOCK_HOST_CID = 2"
definition VSOCK_TYPE_STREAM :: u16 where "VSOCK_TYPE_STREAM = 1"
definition VSOCK_OP_REQUEST :: u16 where "VSOCK_OP_REQUEST = 1"
definition VSOCK_OP_RESPONSE :: u16 where "VSOCK_OP_RESPONSE = 2"
definition VSOCK_OP_RST :: u16 where "VSOCK_OP_RST = 3"
definition VSOCK_OP_SHUTDOWN :: u16 where "VSOCK_OP_SHUTDOWN = 4"
definition VSOCK_OP_RW :: u16 where "VSOCK_OP_RW = 5"
definition VSOCK_OP_CREDIT_UPDATE :: u16 where "VSOCK_OP_CREDIT_UPDATE = 6"
definition VSOCK_OP_CREDIT_REQUEST :: u16 where "VSOCK_OP_CREDIT_REQUEST = 7"
definition DEFAULT_BUF_ALLOC :: u32 where "DEFAULT_BUF_ALLOC = 128 * 1024"
definition HDR_LEN :: nat where "HDR_LEN = 44"
definition MAX_RW_CHUNK :: nat where "MAX_RW_CHUNK = 4096"

lemmas vsock_ops = VSOCK_OP_REQUEST_def VSOCK_OP_RESPONSE_def VSOCK_OP_RST_def VSOCK_OP_SHUTDOWN_def
  VSOCK_OP_RW_def VSOCK_OP_CREDIT_UPDATE_def VSOCK_OP_CREDIT_REQUEST_def

record VsockHeader =
  h_src_cid :: u64
  h_dst_cid :: u64
  h_src_port :: u32
  h_dst_port :: u32
  h_len :: u32
  h_type :: u16
  h_op :: u16
  h_flags :: u32
  h_buf_alloc :: u32
  h_fwd_cnt :: u32

definition encode :: "VsockHeader \<Rightarrow> u8 list" where
  "encode h =
     u64_to_le (h_src_cid h) @ u64_to_le (h_dst_cid h) @ u32_to_le (h_src_port h) @
     u32_to_le (h_dst_port h) @ u32_to_le (h_len h) @ u16_to_le (h_type h) @ u16_to_le (h_op h) @
     u32_to_le (h_flags h) @ u32_to_le (h_buf_alloc h) @ u32_to_le (h_fwd_cnt h)"

definition decode :: "u8 list \<Rightarrow> VsockHeader option" where
  "decode raw =
     (if length raw < HDR_LEN then None
      else Some
        \<lparr>h_src_cid = u64_from_le (slice 0 8 raw), h_dst_cid = u64_from_le (slice 8 16 raw),
         h_src_port = u32_from_le (slice 16 20 raw), h_dst_port = u32_from_le (slice 20 24 raw),
         h_len = u32_from_le (slice 24 28 raw), h_type = u16_from_le (slice 28 30 raw),
         h_op = u16_from_le (slice 30 32 raw), h_flags = u32_from_le (slice 32 36 raw),
         h_buf_alloc = u32_from_le (slice 36 40 raw), h_fwd_cnt = u32_from_le (slice 40 44 raw)\<rparr>)"

definition ctrl :: "u64 \<Rightarrow> u64 \<Rightarrow> u32 \<Rightarrow> u32 \<Rightarrow> u16 \<Rightarrow> u32 \<Rightarrow> u32 \<Rightarrow> VsockHeader" where
  "ctrl src_cid dst_cid src_port dst_port opc buf_alloc fwd_cnt =
     \<lparr>h_src_cid = src_cid, h_dst_cid = dst_cid, h_src_port = src_port, h_dst_port = dst_port,
      h_len = 0, h_type = VSOCK_TYPE_STREAM, h_op = opc, h_flags = 0, h_buf_alloc = buf_alloc,
      h_fwd_cnt = fwd_cnt\<rparr>"

section \<open>Host sockets\<close>

text \<open>What one read returns; \<open>Got []\<close> is the end of the stream.\<close>

datatype sock_read = Got "u8 list" | Blocked | Failed

record HostStream =
  s_in :: "sock_read list"
  s_out :: "u8 list"
  s_write_ok :: "bool list"

definition stream_read :: "nat \<Rightarrow> HostStream \<Rightarrow> sock_read \<times> HostStream" where
  "stream_read n s =
     (case s_in s of
        [] \<Rightarrow> (Blocked, s)
      | Got bs # rest \<Rightarrow>
          (Got (take n bs), s\<lparr>s_in := (if length bs \<le> n then rest else Got (drop n bs) # rest)\<rparr>)
      | r # rest \<Rightarrow> (r, s\<lparr>s_in := rest\<rparr>))"

definition write_all :: "u8 list \<Rightarrow> HostStream \<Rightarrow> bool \<times> HostStream" where
  "write_all bs s =
     (case s_write_ok s of
        [] \<Rightarrow> (True, s\<lparr>s_out := s_out s @ bs\<rparr>)
      | True # rest \<Rightarrow> (True, s\<lparr>s_out := s_out s @ bs, s_write_ok := rest\<rparr>)
      | False # rest \<Rightarrow> (False, s\<lparr>s_write_ok := rest\<rparr>))"

definition bytes_of :: "string \<Rightarrow> u8 list" where
  "bytes_of cs = map (\<lambda>c. of_nat (byte_of c)) cs"

definition chars_of :: "u8 list \<Rightarrow> string" where
  "chars_of bs = map (\<lambda>b. char_of (unat b)) bs"

section \<open>Connection state\<close>

record PendingHost =
  p_stream :: HostStream
  p_buf :: "u8 list"

record Established =
  e_stream :: HostStream
  e_guest_port :: u32
  e_host_port :: u32
  peer_buf_alloc :: u32
  peer_fwd_cnt :: u32
  tx_cnt :: u32
  rx_cnt :: u32

datatype ConnState = WaitResponse HostStream u32 u32 | Estab Established

record VsockInner =
  v_listener :: "HostStream option list option"
  v_pending :: "PendingHost list"
  v_conns :: "u32 \<rightharpoonup> ConnState"
  v_rx_q :: "u8 list list"
  v_next_host_port :: u32
  v_host_buf_alloc :: u32

record VsockBackend =
  b_guest_cid :: u32
  b_inner :: VsockInner

definition push_pkt :: "VsockHeader \<Rightarrow> u8 list \<Rightarrow> VsockInner \<Rightarrow> VsockInner" where
  "push_pkt hdr payload v = v\<lparr>v_rx_q := v_rx_q v @ [encode hdr @ payload]\<rparr>"

text \<open>The outcome of binding the socket is an argument: an error text, or the clients that will come.\<close>

definition vsock_new :: "string + HostStream option list \<Rightarrow> u32 \<Rightarrow> VsockBackend result" where
  "vsock_new bound gcid =
     (case bound of
        Inl e \<Rightarrow> Inl (Hypervisor (''vsock uds bind'' @ e))
      | Inr clients \<Rightarrow>
          Inr \<lparr>b_guest_cid = max gcid 3,
               b_inner = \<lparr>v_listener = Some clients, v_pending = [], v_conns = Map.empty, v_rx_q = [],
                          v_next_host_port = 50000, v_host_buf_alloc = DEFAULT_BUF_ALLOC\<rparr>\<rparr>)"

section \<open>The host side\<close>

fun accept_loop :: "HostStream option list \<Rightarrow> PendingHost list \<Rightarrow> u32 \<Rightarrow>
    HostStream option list \<times> PendingHost list \<times> u32" where
  "accept_loop [] ps n = ([], ps, n)"
| "accept_loop (None # rest) ps n = (rest, ps, n)"
| "accept_loop (Some s # rest) ps n = accept_loop rest (ps @ [\<lparr>p_stream = s, p_buf = []\<rparr>]) (n + 1)"

definition accept_pending :: "VsockInner \<Rightarrow> u32 \<times> VsockInner" where
  "accept_pending v =
     (case v_listener v of
        None \<Rightarrow> (0, v)
      | Some clients \<Rightarrow>
          (case accept_loop clients (v_pending v) 0 of
             (rest, ps, n) \<Rightarrow> (n, v\<lparr>v_listener := Some rest, v_pending := ps\<rparr>)))"

definition parse_connect :: "string \<Rightarrow> u32 option" where
  "parse_connect line0 =
     (let line = trim line0 in
      case (case strip_prefix ''CONNECT '' line of
              Some rest \<Rightarrow> Some rest
            | None \<Rightarrow> strip_prefix ''connect '' line) of
        None \<Rightarrow> None
      | Some rest \<Rightarrow> parse_u32 (trim rest))"

fun alloc_loop :: "nat \<Rightarrow> VsockInner \<Rightarrow> u32 \<times> VsockInner" where
  "alloc_loop 0 v = (v_next_host_port v, v)"
| "alloc_loop (Suc k) v =
     (let p = v_next_host_port v; v' = v\<lparr>v_next_host_port := max (p + 1) 1024\<rparr> in
      if v_conns v' p = None then (p, v') else alloc_loop k v')"

definition alloc_host_port :: "VsockInner \<Rightarrow> u32 \<times> VsockInner" where
  "alloc_host_port v = alloc_loop 10000 v"

text \<open>What the \<^verbatim>\<open>CONNECT\<close> branch does with a parsed guest port.\<close>

definition open_conn :: "u32 \<Rightarrow> HostStream \<Rightarrow> u32 \<Rightarrow> VsockInner \<Rightarrow> VsockInner" where
  "open_conn gcid s port v0 =
     (case alloc_host_port v0 of
        (host_port, v) \<Rightarrow>
          (let v' = push_pkt (ctrl (ucast VSOCK_HOST_CID) (ucast gcid) host_port port VSOCK_OP_REQUEST
                        (v_host_buf_alloc v) 0) [] v in
           v'\<lparr>v_conns := (v_conns v')(host_port \<mapsto> WaitResponse s port host_port)\<rparr>))"

definition newline :: u8 where "newline = 10"

text \<open>
  \<^verbatim>\<open>drain_connect_lines\<close>: the index loop over the pending clients, with the clients already passed as
  \<open>kept\<close>.
\<close>

fun drain_loop :: "u32 \<Rightarrow> PendingHost list \<Rightarrow> PendingHost list \<Rightarrow> VsockInner \<Rightarrow> u32 \<Rightarrow> u32 \<times> VsockInner" where
  "drain_loop gcid kept [] v n = (n, v\<lparr>v_pending := kept\<rparr>)"
| "drain_loop gcid kept (p # ps) v n =
     (case stream_read 256 (p_stream p) of
        (r, s) \<Rightarrow>
          (case r of
             Blocked \<Rightarrow> drain_loop gcid (kept @ [p\<lparr>p_stream := s\<rparr>]) ps v n
           | Failed \<Rightarrow> drain_loop gcid kept ps v n
           | Got bs \<Rightarrow>
               if bs = [] then drain_loop gcid kept ps v n
               else
                 (let buf = p_buf p @ bs in
                  if newline \<in> set buf then
                    (case parse_connect (chars_of (takeWhile (\<lambda>b. b \<noteq> newline) buf @ [newline])) of
                       Some port \<Rightarrow> drain_loop gcid kept ps (open_conn gcid s port v) (n + 1)
                     | None \<Rightarrow> drain_loop gcid kept ps v n)
                  else if 128 < length buf then drain_loop gcid kept ps v n
                  else drain_loop gcid (kept @ [\<lparr>p_stream = s, p_buf = buf\<rparr>]) ps v n)))"

definition drain_connect_lines :: "u32 \<Rightarrow> VsockInner \<Rightarrow> u32 \<times> VsockInner" where
  "drain_connect_lines gcid v = drain_loop gcid [] (v_pending v) v 0"

datatype HostAction =
    ActCreditRequest u32 u32 u32
  | ActShutdown u32 u32 u32
  | ActRst u32 u32 u32
  | ActRw u32 u32 u32 "u8 list"
  | ActNone

definition credit :: "Established \<Rightarrow> u32" where
  "credit est = saturating_sub (peer_buf_alloc est) (tx_cnt est - peer_fwd_cnt est)"

definition est_action :: "Established \<Rightarrow> HostAction \<times> Established" where
  "est_action est =
     (let hp = e_host_port est; gp = e_guest_port est; rx = rx_cnt est; c = credit est in
      if c = 0 then (ActCreditRequest hp gp rx, est)
      else
        (case stream_read (max (min MAX_RW_CHUNK (unat c)) 1) (e_stream est) of
           (r, s) \<Rightarrow>
             (let est' = est\<lparr>e_stream := s\<rparr> in
              case r of
                Got bs \<Rightarrow> (if bs = [] then (ActShutdown hp gp rx, est') else (ActRw hp gp rx bs, est'))
              | Blocked \<Rightarrow> (ActNone, est')
              | Failed \<Rightarrow> (ActRst hp gp rx, est'))))"

definition host_ctrl :: "u32 \<Rightarrow> VsockInner \<Rightarrow> u32 \<Rightarrow> u32 \<Rightarrow> u16 \<Rightarrow> u32 \<Rightarrow> VsockHeader" where
  "host_ctrl gcid v hp gp opc fwd =
     ctrl (ucast VSOCK_HOST_CID) (ucast gcid) hp gp opc (v_host_buf_alloc v) fwd"

definition apply_action :: "u32 \<Rightarrow> u32 \<Rightarrow> HostAction \<Rightarrow> VsockInner \<Rightarrow> u32 \<times> VsockInner" where
  "apply_action gcid host_port act v =
     (case act of
        ActNone \<Rightarrow> (0, v)
      | ActCreditRequest hp gp rx \<Rightarrow>
          (1, push_pkt (host_ctrl gcid v hp gp VSOCK_OP_CREDIT_REQUEST rx) [] v)
      | ActShutdown hp gp rx \<Rightarrow>
          (let v' = push_pkt ((host_ctrl gcid v hp gp VSOCK_OP_SHUTDOWN rx)\<lparr>h_flags := 3\<rparr>) [] v in
           (1, v'\<lparr>v_conns := (v_conns v')(host_port := None)\<rparr>))
      | ActRst hp gp rx \<Rightarrow>
          (let v' = push_pkt (host_ctrl gcid v hp gp VSOCK_OP_RST rx) [] v in
           (1, v'\<lparr>v_conns := (v_conns v')(host_port := None)\<rparr>))
      | ActRw hp gp rx data \<Rightarrow>
          (let k = of_nat (length data);
               v' = push_pkt ((host_ctrl gcid v hp gp VSOCK_OP_RW rx)\<lparr>h_len := k\<rparr>) data v in
           case v_conns v' host_port of
             Some (Estab est) \<Rightarrow>
               (1, v'\<lparr>v_conns := (v_conns v')(host_port \<mapsto> Estab (est\<lparr>tx_cnt := tx_cnt est + k\<rparr>))\<rparr>)
           | _ \<Rightarrow> (1, v')))"

definition poll_conn :: "u32 \<Rightarrow> u32 \<Rightarrow> VsockInner \<Rightarrow> u32 \<times> VsockInner" where
  "poll_conn gcid host_port v =
     (case v_conns v host_port of
        Some (Estab est) \<Rightarrow>
          (case est_action est of
             (act, est') \<Rightarrow>
               apply_action gcid host_port act (v\<lparr>v_conns := (v_conns v)(host_port \<mapsto> Estab est')\<rparr>))
      | _ \<Rightarrow> (0, v))"

fun poll_established_host_reads :: "u32 \<Rightarrow> u32 list \<Rightarrow> VsockInner \<Rightarrow> u32 \<times> VsockInner" where
  "poll_established_host_reads gcid [] v = (0, v)"
| "poll_established_host_reads gcid (k # ks) v =
     (case poll_conn gcid k v of
        (a, v') \<Rightarrow>
          (case poll_established_host_reads gcid ks v' of (b, v'') \<Rightarrow> (a + b, v'')))"

text \<open>
  \<^verbatim>\<open>poll_host\<close>: \<open>ks\<close> gives the key order the hash map has once the pending clients are drained.
\<close>

definition poll_host :: "(VsockInner \<Rightarrow> u32 list) \<Rightarrow> VsockBackend \<Rightarrow> u32 \<times> VsockBackend" where
  "poll_host ks be =
     (case accept_pending (b_inner be) of
        (a, v1) \<Rightarrow>
          (case drain_connect_lines (b_guest_cid be) v1 of
             (b, v2) \<Rightarrow>
               (case poll_established_host_reads (b_guest_cid be) (ks v2) v2 of
                  (c, v3) \<Rightarrow> (a + b + c, be\<lparr>b_inner := v3\<rparr>))))"

section \<open>The guest side\<close>

definition on_response :: "VsockHeader \<Rightarrow> VsockInner \<Rightarrow> u32 \<times> VsockInner" where
  "on_response hdr v0 =
     (let v = v0\<lparr>v_conns := (v_conns v0)(h_dst_port hdr := None)\<rparr> in
      case v_conns v0 (h_dst_port hdr) of
        Some (WaitResponse s gp hp) \<Rightarrow>
          (let gport = (if h_src_port hdr \<noteq> 0 then h_src_port hdr else gp);
               s' = snd (write_all (bytes_of (''OK '' @ dec_string (unat hp) @ [char_of (10 :: nat)])) s) in
           (1, v\<lparr>v_conns := (v_conns v)(hp \<mapsto>
                  Estab \<lparr>e_stream = s', e_guest_port = gport, e_host_port = hp,
                         peer_buf_alloc = max (h_buf_alloc hdr) 1, peer_fwd_cnt = h_fwd_cnt hdr,
                         tx_cnt = 0, rx_cnt = 0\<rparr>)\<rparr>))
      | _ \<Rightarrow> (0, v))"

text \<open>Every packet of the guest updates the credit it grants.\<close>

definition credit_from :: "VsockHeader \<Rightarrow> Established \<Rightarrow> Established" where
  "credit_from hdr est =
     est\<lparr>peer_buf_alloc := (if 0 < h_buf_alloc hdr then h_buf_alloc hdr else peer_buf_alloc est),
         peer_fwd_cnt := h_fwd_cnt hdr\<rparr>"

definition on_rw :: "u32 \<Rightarrow> VsockHeader \<Rightarrow> u8 list \<Rightarrow> VsockInner \<Rightarrow> u32 \<times> VsockInner" where
  "on_rw gcid hdr payload v =
     (case v_conns v (h_dst_port hdr) of
        Some (Estab est0) \<Rightarrow>
          (let est = credit_from hdr est0; hp = e_host_port est; gp = e_guest_port est in
           if payload = [] then (0, v\<lparr>v_conns := (v_conns v)(h_dst_port hdr \<mapsto> Estab est)\<rparr>)
           else
             (case write_all payload (e_stream est) of
                (ok, s) \<Rightarrow>
                  if ok then
                    (let rx = rx_cnt est + of_nat (length payload);
                         v' = v\<lparr>v_conns := (v_conns v)(h_dst_port hdr \<mapsto> Estab (est\<lparr>e_stream := s, rx_cnt := rx\<rparr>))\<rparr> in
                     (1, push_pkt (host_ctrl gcid v' hp gp VSOCK_OP_CREDIT_UPDATE rx) [] v'))
                  else
                    (let v' = v\<lparr>v_conns := ((v_conns v)(h_dst_port hdr \<mapsto> Estab (est\<lparr>e_stream := s\<rparr>)))(hp := None)\<rparr> in
                     (1, push_pkt (host_ctrl gcid v' hp gp VSOCK_OP_RST 0) [] v'))))
      | _ \<Rightarrow> (0, v))"

definition on_credit :: "u32 \<Rightarrow> VsockHeader \<Rightarrow> VsockInner \<Rightarrow> u32 \<times> VsockInner" where
  "on_credit gcid hdr v =
     (case v_conns v (h_dst_port hdr) of
        Some (Estab est0) \<Rightarrow>
          (let est = credit_from hdr est0; v' = v\<lparr>v_conns := (v_conns v)(h_dst_port hdr \<mapsto> Estab est)\<rparr> in
           if h_op hdr = VSOCK_OP_CREDIT_REQUEST then
             (1, push_pkt (host_ctrl gcid v' (e_host_port est) (e_guest_port est) VSOCK_OP_CREDIT_UPDATE
                    (rx_cnt est)) [] v')
           else (0, v'))
      | _ \<Rightarrow> (0, v))"

definition handle_guest_packet :: "u32 \<Rightarrow> VsockHeader \<Rightarrow> u8 list \<Rightarrow> VsockInner \<Rightarrow> u32 \<times> VsockInner" where
  "handle_guest_packet gcid hdr payload v =
     (let rst = host_ctrl gcid v (h_dst_port hdr) (h_src_port hdr) VSOCK_OP_RST 0 in
      if h_op hdr = VSOCK_OP_RESPONSE then on_response hdr v
      else if h_op hdr = VSOCK_OP_RW then on_rw gcid hdr payload v
      else if h_op hdr = VSOCK_OP_CREDIT_UPDATE \<or> h_op hdr = VSOCK_OP_CREDIT_REQUEST then on_credit gcid hdr v
      else if h_op hdr = VSOCK_OP_SHUTDOWN \<or> h_op hdr = VSOCK_OP_RST then
        (let v' = v\<lparr>v_conns := (v_conns v)(h_dst_port hdr := None)\<rparr> in
         if h_op hdr = VSOCK_OP_SHUTDOWN then (1, push_pkt rst [] v') else (0, v'))
      else if h_op hdr = VSOCK_OP_REQUEST then (1, push_pkt rst [] v)
      else (0, v))"

section \<open>The virtqueues\<close>

fun gather_tx_loop :: "nat \<Rightarrow> GuestMemory \<Rightarrow> u64 \<Rightarrow> u16 \<Rightarrow> u8 list \<Rightarrow> u8 list result" where
  "gather_tx_loop 0 m desc_base idx out = Inr out"
| "gather_tx_loop (Suc k) m desc_base idx out =
     rbind (read_desc desc_base idx m) (\<lambda>d.
     rbind (if has_flag (d_flags d) VRING_DESC_F_WRITE then Inr out
            else rbind (read_at (d_addr d) (unat (d_len d)) m) (\<lambda>buf. Inr (out @ buf))) (\<lambda>out'.
       if has_flag (d_flags d) VRING_DESC_F_NEXT then gather_tx_loop k m desc_base (d_next d) out'
       else Inr out'))"

definition gather_tx :: "GuestMemory \<Rightarrow> u64 \<Rightarrow> u16 \<Rightarrow> u8 list result" where
  "gather_tx m desc_base head = gather_tx_loop 32 m desc_base head []"

text \<open>The copy loop of \<^verbatim>\<open>inject_rx_packet\<close>: what is left of the packet, and how much was written.\<close>

fun inject_loop :: "nat \<Rightarrow> u64 \<Rightarrow> u16 \<Rightarrow> u8 list \<Rightarrow> u32 \<Rightarrow> (GuestMemory, u8 list \<times> u32) op" where
  "inject_loop 0 desc_base idx remaining written m = (Inr (remaining, written), m)"
| "inject_loop (Suc k) desc_base idx remaining written m =
     bnd (reads (read_desc desc_base idx)) (\<lambda>d.
     bnd (if has_flag (d_flags d) VRING_DESC_F_WRITE \<and> 0 < unat (d_len d) \<and> remaining \<noteq> [] then
            (let n = min (length remaining) (unat (d_len d)) in
             bnd (write_at (d_addr d) (take n remaining)) (\<lambda>_. ret (drop n remaining, written + of_nat n)))
          else ret (remaining, written)) (\<lambda>rw.
       if has_flag (d_flags d) VRING_DESC_F_NEXT then inject_loop k desc_base (d_next d) (fst rw) (snd rw)
       else ret rw)) m"

definition inject_rx_packet :: "u8 list \<Rightarrow> (GuestMemory \<times> VirtioState, bool) op" where
  "inject_rx_packet pkt s =
     (case s of (m, st) \<Rightarrow>
        let q = get_q st 0 in
        if q_ready q = 0 \<or> q_num q = 0 then (Inr False, (m, st))
        else
          (case pop_avail q m of
             Inl e \<Rightarrow> (Inl e, (m, st))
           | Inr None \<Rightarrow> (Inr False, (m, st))
           | Inr (Some head) \<Rightarrow>
               (case inject_loop 32 (q_desc q) head pkt 0 m of
                  (Inl e, m') \<Rightarrow> (Inl e, (m', st))
                | (Inr (remaining, written), m') \<Rightarrow>
                    (case used_push (q_used q) (q_num q) head written m' of
                       (Inl e, m'') \<Rightarrow> (Inl e, (m'', st))
                     | (Inr _, m'') \<Rightarrow>
                         (Inr (remaining = []), (m'', set_last_avail 0 (q_last_avail q + 1) st))))))"

text \<open>\<^verbatim>\<open>flush_rx\<close> over the queued packets: the count, what stays queued, memory and registers.\<close>

fun flush_loop :: "u8 list list \<Rightarrow> u32 \<Rightarrow> GuestMemory \<times> VirtioState \<Rightarrow>
    u32 result \<times> u8 list list \<times> GuestMemory \<times> VirtioState" where
  "flush_loop [] n s = (Inr n, [], s)"
| "flush_loop (pkt # rest) n s =
     (case inject_rx_packet pkt s of
        (r, s') \<Rightarrow>
          (case r of
             Inl e \<Rightarrow> (Inl e, rest, s')
           | Inr done \<Rightarrow> if done then flush_loop rest (n + 1) s' else (Inr n, pkt # rest, s')))"

record vsock_state =
  k_mem :: GuestMemory
  k_st :: VirtioState
  k_be :: "VsockBackend option"

definition flush_rx :: "VsockBackend \<Rightarrow> (vsock_state, u32) op" where
  "flush_rx be s =
     (case flush_loop (v_rx_q (b_inner be)) 0 (k_mem s, k_st s) of
        (r, rest, m, st) \<Rightarrow>
          (r, s\<lparr>k_mem := m, k_st := st, k_be := Some (be\<lparr>b_inner := (b_inner be)\<lparr>v_rx_q := rest\<rparr>\<rparr>)\<rparr>))"

definition flush_if :: "(vsock_state, u32) op" where
  "flush_if s = (case k_be s of None \<Rightarrow> (Inr 0, s) | Some be \<Rightarrow> flush_rx be s)"

text \<open>The packet a transmit chain carries is handed to the backend, when there is one.\<close>

definition packet_payload :: "VsockHeader \<Rightarrow> u8 list \<Rightarrow> u8 list" where
  "packet_payload hdr pkt =
     (let plen = unat (min (h_len hdr) (of_nat (length pkt - HDR_LEN))) in
      if HDR_LEN < length pkt then slice HDR_LEN (HDR_LEN + plen) pkt else [])"

definition deliver_pkt :: "u8 list \<Rightarrow> VsockBackend \<Rightarrow> VsockBackend" where
  "deliver_pkt pkt be =
     (case decode pkt of
        None \<Rightarrow> be
      | Some hdr \<Rightarrow>
          be\<lparr>b_inner := snd (handle_guest_packet (b_guest_cid be) hdr (packet_payload hdr pkt) (b_inner be))\<rparr>)"

definition tx_one :: "u16 \<Rightarrow> (vsock_state, unit) op" where
  "tx_one head s =
     (let q = get_q (k_st s) 1 in
      case gather_tx (k_mem s) (q_desc q) head of
        Inl e \<Rightarrow> (Inl e, s)
      | Inr pkt \<Rightarrow>
          (case used_push (q_used q) (q_num q) head 0 (k_mem s) of
             (Inl e, m) \<Rightarrow> (Inl e, s\<lparr>k_mem := m\<rparr>)
           | (Inr _, m) \<Rightarrow>
               (Inr (), s\<lparr>k_mem := m, k_st := set_last_avail 1 (q_last_avail q + 1) (k_st s),
                          k_be := map_option (deliver_pkt pkt) (k_be s)\<rparr>)))"

definition vsock_tx_loop :: "u32 \<Rightarrow> (vsock_state, u32) op" where
  "vsock_tx_loop n = notify_loop (\<lambda>s. pop_avail (get_q (k_st s) 1) (k_mem s)) tx_one n"

definition vsock_handle_notify :: "u32 \<Rightarrow> (vsock_state, u32) op" where
  "vsock_handle_notify qsel =
     bnd flush_if (\<lambda>n0.
     bnd (\<lambda>s. let q = get_q (k_st s) 1 in
              if qsel = 1 \<and> q_ready q \<noteq> 0 \<and> q_num q \<noteq> 0 then vsock_tx_loop n0 s else (Inr n0, s)) (\<lambda>n1.
     bnd flush_if (\<lambda>n2. ret (n1 + n2))))"

definition vsock_poll :: "(VsockInner \<Rightarrow> u32 list) \<Rightarrow> VsockBackend \<Rightarrow> (vsock_state, u32) op" where
  "vsock_poll ks be0 s =
     (case poll_host ks be0 of
        (n, be) \<Rightarrow> bnd (flush_rx be) (\<lambda>k. ret (n + k)) s)"

section \<open>Packets\<close>

lemma length_encode [simp]: "length (encode h) = 44"
  by (simp add: encode_def)

lemma decode_encode: "decode (encode h @ payload) = Some h"
  by (simp add: decode_def encode_def HDR_LEN_def slice_append_left slice_append_right)

lemma payload_encode:
  assumes "length payload < 2 ^ 32" and "h_len h = of_nat (length payload)"
  shows "packet_payload h (encode h @ payload) = payload"
  using assms by (simp add: packet_payload_def HDR_LEN_def Let_def slice_def unat_of_nat)

section \<open>Host ports\<close>

text \<open>The candidates the allocator tries form one cycle through the ports from 1024 on.\<close>

definition port_at :: "u32 \<Rightarrow> nat \<Rightarrow> nat" where
  "port_at p i = 1024 + (unat p - 1024 + i) mod (2 ^ 32 - 1024)"

definition next_port :: "u32 \<Rightarrow> u32" where
  "next_port p = max (p + 1) 1024"

lemma unat_max: "unat (max a b :: 'a::len word) = max (unat a) (unat b)"
  by (auto simp: max_def word_le_nat_alt)

lemma unat_next_port: "unat (next_port p) = (if unat p = 2 ^ 32 - 1 then 1024 else max (unat p + 1) 1024)"
proof (cases "unat p = 2 ^ 32 - 1")
  case True
  then have "unat (p + 1) = 0" by (simp add: unat_word_ariths)
  then show ?thesis using True by (simp add: next_port_def unat_max)
next
  case False
  have "unat p < 2 ^ 32" using unsigned_less [of p] by simp
  then have "unat (p + 1) = unat p + 1" using False by (subst unat_add_no_wrap) auto
  then show ?thesis using False by (simp add: next_port_def unat_max)
qed

lemma port_at_next:
  assumes "1024 \<le> unat p"
  shows "port_at (next_port p) i = port_at p (Suc i)"
proof (cases "unat p = 2 ^ 32 - 1")
  case True
  have "(unat p - 1024 + Suc i) = i + (2 ^ 32 - 1024)" using True by simp
  then show ?thesis using True by (simp only: port_at_def unat_next_port if_True mod_add_self2) simp
next
  case False
  then have "unat (next_port p) - 1024 + i = unat p - 1024 + Suc i"
    using assms by (simp add: unat_next_port)
  then show ?thesis by (simp only: port_at_def)
qed

lemma port_at_0: "1024 \<le> unat p \<Longrightarrow> port_at p 0 = unat p"
proof -
  assume "1024 \<le> unat p"
  moreover have "unat p < 2 ^ 32" using unsigned_less [of p] by simp
  ultimately show ?thesis by (simp add: port_at_def)
qed

lemma alloc_loop_spec:
  assumes "alloc_loop k v = (p, v')" and "1024 \<le> unat (v_next_host_port v)"
  shows "v_conns v' = v_conns v \<and> v_rx_q v' = v_rx_q v \<and> v_host_buf_alloc v' = v_host_buf_alloc v \<and>
         v_pending v' = v_pending v \<and> 1024 \<le> unat (v_next_host_port v') \<and> 1024 \<le> unat p \<and>
         (v_conns v p = None \<or>
          (\<forall>i < k. of_nat (port_at (v_next_host_port v) i) \<in> dom (v_conns v)))"
  using assms
proof (induction k arbitrary: v)
  case (Suc k)
  let ?p = "v_next_host_port v" and ?v = "v\<lparr>v_next_host_port := next_port (v_next_host_port v)\<rparr>"
  have n: "1024 \<le> unat (next_port ?p)" using Suc.prems(2) by (simp add: unat_next_port)
  show ?case
  proof (cases "v_conns v ?p")
    case None
    then show ?thesis using Suc.prems n by (auto simp: Let_def next_port_def)
  next
    case (Some c)
    then have "alloc_loop k ?v = (p, v')" using Suc.prems by (simp add: Let_def next_port_def)
    note ih = Suc.IH [OF this] n
    have zero: "of_nat (port_at ?p 0) \<in> dom (v_conns v)" using Some Suc.prems(2) by (auto simp: port_at_0)
    have "\<forall>i < Suc k. of_nat (port_at ?p i) \<in> dom (v_conns v)"
      if all: "\<forall>i < k. of_nat (port_at (next_port ?p) i) \<in> dom (v_conns v)"
    proof (intro allI impI)
      fix i assume "i < Suc k"
      then show "of_nat (port_at ?p i) \<in> dom (v_conns v)"
        using zero all port_at_next [OF Suc.prems(2)] by (cases i) auto
    qed
    then show ?thesis using ih by auto
  qed
qed auto

lemma mod_shift_cancel:
  assumes "(a + i) mod q = (a + j) mod (q :: nat)" and "i < q" and "j < q"
  shows "i = j"
proof -
  have "x = y" if "(a + x) mod q = (a + y) mod q" "x < q" "y \<le> x" for x y
  proof -
    have "q dvd (a + x) - (a + y)" using that by (subst mod_eq_dvd_iff_nat [symmetric]) auto
    then show ?thesis using that nat_dvd_not_less [of "x - y" q] by (cases "x = y") auto
  qed
  then show ?thesis using assms by (metis nat_le_linear)
qed

lemma inj_port_at: "inj_on (\<lambda>i. of_nat (port_at p i) :: u32) {..<10000}"
proof (rule inj_onI)
  fix i j :: nat
  assume ij: "i \<in> {..<10000}" "j \<in> {..<10000}" and eq: "(of_nat (port_at p i) :: u32) = of_nat (port_at p j)"
  let ?M = "2 ^ 32 - 1024 :: nat"
  have b: "port_at p x < 2 ^ 32" for x
    unfolding port_at_def using mod_less_divisor [of ?M "unat p - 1024 + x"] by simp
  have "port_at p i = port_at p j"
    using arg_cong [OF eq, of unat] b [of i] b [of j] by (simp add: unat_of_nat)
  then have "(unat p - 1024 + i) mod ?M = (unat p - 1024 + j) mod ?M" by (simp add: port_at_def)
  then show "i = j" by (rule mod_shift_cancel) (use ij in auto)
qed

lemma alloc_fresh:
  assumes "alloc_host_port v = (p, v')" and "1024 \<le> unat (v_next_host_port v)"
    and "finite (dom (v_conns v))" and "card (dom (v_conns v)) < 10000"
  shows "v_conns v p = None"
proof (rule ccontr)
  assume "v_conns v p \<noteq> None"
  then have "\<forall>i < 10000. of_nat (port_at (v_next_host_port v) i) \<in> dom (v_conns v)"
    using alloc_loop_spec [OF assms(1) [unfolded alloc_host_port_def] assms(2)] by auto
  then have "(\<lambda>i. of_nat (port_at (v_next_host_port v) i)) ` {..<10000} \<subseteq> dom (v_conns v)" by auto
  then have "10000 \<le> card (dom (v_conns v))"
    using card_inj_on_le [OF inj_port_at _ assms(3)] by auto
  then show False using assms(4) by simp
qed

section \<open>The invariant of the backend\<close>

fun conn_port :: "ConnState \<Rightarrow> u32" where
  "conn_port (WaitResponse s gp hp) = hp"
| "conn_port (Estab est) = e_host_port est"

text \<open>A packet for the guest: from the host to this guest, and its length field is its payload's.\<close>

definition pkt_ok :: "u32 \<Rightarrow> u8 list \<Rightarrow> bool" where
  "pkt_ok gcid pkt \<longleftrightarrow>
     (\<exists>h payload. pkt = encode h @ payload \<and> h_len h = of_nat (length payload) \<and> length payload \<le> MAX_RW_CHUNK \<and>
        h_src_cid h = ucast VSOCK_HOST_CID \<and> h_dst_cid h = ucast gcid \<and> h_type h = VSOCK_TYPE_STREAM)"

definition vs_inv :: "u32 \<Rightarrow> VsockInner \<Rightarrow> bool" where
  "vs_inv gcid v \<longleftrightarrow>
     (\<forall>p c. v_conns v p = Some c \<longrightarrow> conn_port c = p) \<and> finite (dom (v_conns v)) \<and>
     1024 \<le> unat (v_next_host_port v) \<and> (\<forall>pkt \<in> set (v_rx_q v). pkt_ok gcid pkt)"

lemma pkt_ok_ctrl: "pkt_ok gcid (encode (ctrl (ucast VSOCK_HOST_CID) (ucast gcid) hp gp opc ba fw))"
  unfolding pkt_ok_def
  by (rule exI [of _ "ctrl (ucast VSOCK_HOST_CID) (ucast gcid) hp gp opc ba fw"]) (simp add: ctrl_def)

lemma pkt_ok_flags:
  "pkt_ok gcid (encode ((ctrl (ucast VSOCK_HOST_CID) (ucast gcid) hp gp opc ba fw)\<lparr>h_flags := f\<rparr>))"
  unfolding pkt_ok_def
  by (rule exI [of _ "(ctrl (ucast VSOCK_HOST_CID) (ucast gcid) hp gp opc ba fw)\<lparr>h_flags := f\<rparr>"])
     (simp add: ctrl_def)

lemma pkt_ok_rw:
  assumes "length data \<le> MAX_RW_CHUNK"
  shows "pkt_ok gcid (encode ((ctrl (ucast VSOCK_HOST_CID) (ucast gcid) hp gp opc ba fw)\<lparr>h_len := of_nat (length data)\<rparr>) @ data)"
  unfolding pkt_ok_def
  by (rule exI [of _ "(ctrl (ucast VSOCK_HOST_CID) (ucast gcid) hp gp opc ba fw)\<lparr>h_len := of_nat (length data)\<rparr>"])
     (use assms in \<open>simp add: ctrl_def\<close>)

lemma vs_inv_push: "vs_inv gcid v \<Longrightarrow> pkt_ok gcid (encode h @ payload) \<Longrightarrow> vs_inv gcid (push_pkt h payload v)"
  by (simp add: vs_inv_def push_pkt_def)

lemma vs_inv_conn:
  "vs_inv gcid v \<Longrightarrow> m = v_conns v \<Longrightarrow> conn_port c = p \<Longrightarrow> vs_inv gcid (v\<lparr>v_conns := m(p \<mapsto> c)\<rparr>)"
  by (simp add: vs_inv_def)

lemma vs_inv_conn2:
  "vs_inv gcid v \<Longrightarrow> conn_port c = p \<Longrightarrow> vs_inv gcid (v\<lparr>v_conns := (v_conns v)(k := None, p \<mapsto> c)\<rparr>)"
  "vs_inv gcid v \<Longrightarrow> conn_port c = p \<Longrightarrow> vs_inv gcid (v\<lparr>v_conns := (v_conns v)(p \<mapsto> c, k := None)\<rparr>)"
  by (auto simp: vs_inv_def)

lemma vs_inv_remove: "vs_inv gcid v \<Longrightarrow> m = v_conns v \<Longrightarrow> vs_inv gcid (v\<lparr>v_conns := m(p := None)\<rparr>)"
  by (auto simp: vs_inv_def)

lemma vs_inv_fields [simp]:
  "vs_inv gcid (v\<lparr>v_pending := ps\<rparr>) = vs_inv gcid v"
  "vs_inv gcid (v\<lparr>v_listener := l\<rparr>) = vs_inv gcid v"
  by (simp_all add: vs_inv_def)

lemma push_pkt_fields [simp]:
  "v_conns (push_pkt h p v) = v_conns v"
  "v_host_buf_alloc (push_pkt h p v) = v_host_buf_alloc v"
  "v_next_host_port (push_pkt h p v) = v_next_host_port v"
  "v_pending (push_pkt h p v) = v_pending v"
  by (simp_all add: push_pkt_def)

lemma vs_inv_open_conn:
  assumes "vs_inv gcid v"
  shows "vs_inv gcid (open_conn gcid s port v)"
proof -
  obtain hp v' where a: "alloc_host_port v = (hp, v')" by (cases "alloc_host_port v") auto
  have "vs_inv gcid v'"
    using alloc_loop_spec [OF a [unfolded alloc_host_port_def]] assms by (auto simp: vs_inv_def)
  then have "vs_inv gcid (push_pkt (ctrl (ucast VSOCK_HOST_CID) (ucast gcid) hp port VSOCK_OP_REQUEST
      (v_host_buf_alloc v') 0) [] v')"
    using vs_inv_push pkt_ok_ctrl by simp
  then show ?thesis unfolding open_conn_def a prod.case Let_def
    by (rule vs_inv_conn) simp_all
qed

lemma vs_inv_drain: "vs_inv gcid v \<Longrightarrow> vs_inv gcid (snd (drain_loop gcid kept ps v n))"
proof (induction gcid kept ps v n rule: drain_loop.induct)
  case (2 gcid kept p ps v n)
  obtain r s where r: "stream_read 256 (p_stream p) = (r, s)" by (cases "stream_read 256 (p_stream p)") auto
  show ?case
  proof (cases r)
    case (Got bs)
    then show ?thesis using 2 r
      by (auto simp: Let_def vs_inv_open_conn split: option.splits)
  qed (use 2 r in auto)
qed simp

lemma stream_read_len: "stream_read n s = (Got bs, s') \<Longrightarrow> length bs \<le> n"
  by (auto simp: stream_read_def split: list.splits sock_read.splits)

lemma est_action_out:
  assumes "est_action est = (act, est')"
  shows "\<exists>s. est' = est\<lparr>e_stream := s\<rparr>"
    and "act = ActRw hp gp rx data \<Longrightarrow> data \<noteq> [] \<and> length data \<le> MAX_RW_CHUNK \<and> length data \<le> unat (credit est) \<and>
           hp = e_host_port est \<and> gp = e_guest_port est \<and> rx = rx_cnt est"
proof -
  let ?k = "max (min MAX_RW_CHUNK (unat (credit est))) 1"
  obtain r s where r: "stream_read ?k (e_stream est) = (r, s)" by (cases "stream_read ?k (e_stream est)") auto
  have e: "est = est\<lparr>e_stream := e_stream est\<rparr>" by simp
  show "\<exists>s. est' = est\<lparr>e_stream := s\<rparr>"
    using assms e r by (cases r) (auto simp: est_action_def Let_def split: if_split_asm intro: exI [of _ "e_stream est"])
  show "data \<noteq> [] \<and> length data \<le> MAX_RW_CHUNK \<and> length data \<le> unat (credit est) \<and>
        hp = e_host_port est \<and> gp = e_guest_port est \<and> rx = rx_cnt est"
    if a: "act = ActRw hp gp rx data"
  proof -
    have c: "credit est \<noteq> 0" and g: "r = Got data" "data \<noteq> []"
      and f: "hp = e_host_port est" "gp = e_guest_port est" "rx = rx_cnt est"
      using assms a r by (auto simp: est_action_def Let_def split: if_split_asm sock_read.split_asm)
    have "0 < unat (credit est)" using c by (simp add: unat_gt_0)
    then have "?k = min MAX_RW_CHUNK (unat (credit est))" by (simp add: MAX_RW_CHUNK_def)
    then show ?thesis using stream_read_len [of ?k "e_stream est" data s] r g f by simp
  qed
qed

lemma vs_inv_apply_action:
  assumes w: "vs_inv gcid v"
    and l: "\<And>hp gp rx data. act = ActRw hp gp rx data \<Longrightarrow> length data \<le> MAX_RW_CHUNK"
  shows "vs_inv gcid (snd (apply_action gcid k act v))"
proof (cases act)
  case (ActRw hp gp rx data)
  let ?v = "push_pkt ((host_ctrl gcid v hp gp VSOCK_OP_RW rx)\<lparr>h_len := of_nat (length data)\<rparr>) data v"
  have i: "vs_inv gcid ?v" using l [OF ActRw] by (simp add: w host_ctrl_def pkt_ok_rw vs_inv_push)
  have "e_host_port est = k" if "v_conns v k = Some (Estab est)" for est
    using that w by (force simp: vs_inv_def)
  then show ?thesis using i
    by (auto simp: apply_action_def ActRw Let_def split: option.splits ConnState.splits intro!: vs_inv_conn)
qed (auto simp: apply_action_def w host_ctrl_def pkt_ok_ctrl pkt_ok_flags Let_def
    intro!: vs_inv_remove vs_inv_push)

lemma vs_inv_poll_conn:
  assumes "vs_inv gcid v"
  shows "vs_inv gcid (snd (poll_conn gcid k v))"
proof (cases "\<exists>est. v_conns v k = Some (Estab est)")
  case True
  then obtain est where est: "v_conns v k = Some (Estab est)" by blast
  obtain act est' where a: "est_action est = (act, est')" by (cases "est_action est") auto
  have hp: "e_host_port est' = k" using est_action_out(1) [OF a] est assms by (force simp: vs_inv_def)
  have "vs_inv gcid (v\<lparr>v_conns := (v_conns v)(k \<mapsto> Estab est')\<rparr>)"
    by (rule vs_inv_conn [OF assms]) (simp_all add: hp)
  then show ?thesis using est_action_out(2) [OF a] by (auto simp: poll_conn_def est a intro!: vs_inv_apply_action)
next
  case False
  then have "poll_conn gcid k v = (0, v)" by (auto simp: poll_conn_def split: option.splits ConnState.splits)
  then show ?thesis using assms by simp
qed

lemma vs_inv_poll_list: "vs_inv gcid v \<Longrightarrow> vs_inv gcid (snd (poll_established_host_reads gcid ks v))"
proof (induction ks arbitrary: v)
  case (Cons k ks)
  then show ?case using vs_inv_poll_conn [of gcid v k] by (auto split: prod.splits) (metis snd_conv)
qed simp

lemma vs_inv_accept: "vs_inv gcid v \<Longrightarrow> vs_inv gcid (snd (accept_pending v))"
  by (simp add: accept_pending_def split: option.splits prod.splits)

lemma vs_inv_poll_host:
  assumes "vs_inv (b_guest_cid be) (b_inner be)"
  shows "b_guest_cid (snd (poll_host ks be)) = b_guest_cid be"
    and "vs_inv (b_guest_cid be) (b_inner (snd (poll_host ks be)))"
proof -
  let ?g = "b_guest_cid be"
  obtain a v1 where 1: "accept_pending (b_inner be) = (a, v1)" by (cases "accept_pending (b_inner be)") auto
  obtain b v2 where 2: "drain_connect_lines ?g v1 = (b, v2)" by (cases "drain_connect_lines ?g v1") auto
  obtain c v3 where 3: "poll_established_host_reads ?g (ks v2) v2 = (c, v3)"
    by (cases "poll_established_host_reads ?g (ks v2) v2") auto
  have "vs_inv ?g v1" using vs_inv_accept [OF assms] 1 by simp
  then have "vs_inv ?g v2" using vs_inv_drain [of ?g v1 "[]" "v_pending v1" 0] 2 by (simp add: drain_connect_lines_def)
  then have "vs_inv ?g v3" using vs_inv_poll_list [of ?g v2 "ks v2"] 3 by simp
  then show "b_guest_cid (snd (poll_host ks be)) = b_guest_cid be"
    "vs_inv (b_guest_cid be) (b_inner (snd (poll_host ks be)))"
    by (simp_all add: poll_host_def 1 2 3)
qed

lemma credit_from_fields [simp]:
  "e_host_port (credit_from h est) = e_host_port est"
  "e_guest_port (credit_from h est) = e_guest_port est"
  "e_stream (credit_from h est) = e_stream est"
  "rx_cnt (credit_from h est) = rx_cnt est"
  "tx_cnt (credit_from h est) = tx_cnt est"
  by (simp_all add: credit_from_def)

lemma vs_inv_est: "vs_inv gcid v \<Longrightarrow> v_conns v p = Some c \<Longrightarrow> conn_port c = p"
  by (simp add: vs_inv_def)

lemma vs_inv_on_response: "vs_inv gcid v \<Longrightarrow> vs_inv gcid (snd (on_response hdr v))"
  by (auto simp: on_response_def Let_def split: option.splits ConnState.splits
      simp del: fun_upd_apply intro!: vs_inv_conn2(1) vs_inv_remove)

lemma vs_inv_on_rw:
  assumes "vs_inv gcid v"
  shows "vs_inv gcid (snd (on_rw gcid hdr payload v))"
proof (cases "\<exists>est. v_conns v (h_dst_port hdr) = Some (Estab est)")
  case True
  then obtain est where est: "v_conns v (h_dst_port hdr) = Some (Estab est)" by blast
  have hp: "e_host_port est = h_dst_port hdr" using vs_inv_est [OF assms est] by simp
  show ?thesis
    by (auto simp: on_rw_def est hp Let_def host_ctrl_def pkt_ok_ctrl assms split: prod.splits
        intro!: vs_inv_push vs_inv_conn2(2) vs_inv_conn [OF _ refl] vs_inv_remove)
qed (auto simp: on_rw_def assms split: option.splits ConnState.splits)

lemma vs_inv_on_credit: "vs_inv gcid v \<Longrightarrow> vs_inv gcid (snd (on_credit gcid hdr v))"
  by (auto simp: on_credit_def Let_def host_ctrl_def pkt_ok_ctrl split: option.splits ConnState.splits
      dest: vs_inv_est intro!: vs_inv_conn vs_inv_push)

lemma vs_inv_guest: "vs_inv gcid v \<Longrightarrow> vs_inv gcid (snd (handle_guest_packet gcid hdr payload v))"
  by (simp add: handle_guest_packet_def Let_def host_ctrl_def pkt_ok_ctrl vs_inv_on_response vs_inv_on_rw
      vs_inv_on_credit vs_inv_remove vs_inv_push)

text \<open>
  What can happen to a backend: the host is polled, a packet of the guest arrives, packets are taken
  from the front of the receive queue. A run is a list of these.
\<close>

datatype vs_event = HostPoll "VsockInner \<Rightarrow> u32 list" | GuestPkt "u8 list" | Taken nat

fun vs_step :: "vs_event \<Rightarrow> VsockBackend \<Rightarrow> VsockBackend" where
  "vs_step (HostPoll ks) be = snd (poll_host ks be)"
| "vs_step (GuestPkt pkt) be = deliver_pkt pkt be"
| "vs_step (Taken n) be = be\<lparr>b_inner := (b_inner be)\<lparr>v_rx_q := drop n (v_rx_q (b_inner be))\<rparr>\<rparr>"

definition backend_ok :: "u32 \<Rightarrow> VsockBackend \<Rightarrow> bool" where
  "backend_ok gcid be \<longleftrightarrow> b_guest_cid be = gcid \<and> vs_inv gcid (b_inner be)"

lemma backend_ok_step: "backend_ok gcid be \<Longrightarrow> backend_ok gcid (vs_step e be)"
proof (cases e)
  case (HostPoll ks)
  then show "backend_ok gcid be \<Longrightarrow> ?thesis" using vs_inv_poll_host [of be ks] by (auto simp: backend_ok_def)
next
  case (GuestPkt pkt)
  then show "backend_ok gcid be \<Longrightarrow> ?thesis"
    by (auto simp: backend_ok_def deliver_pkt_def vs_inv_guest split: option.splits)
next
  case (Taken n)
  then show "backend_ok gcid be \<Longrightarrow> ?thesis"
    by (auto simp: backend_ok_def vs_inv_def dest: in_set_dropD)
qed

interpretation vsb: step_system vs_step "backend_ok gcid" for gcid
  by unfold_locales (rule backend_ok_step)

lemma vsock_new_ok: "vsock_new bound cid = Inr be \<Longrightarrow> backend_ok (max cid 3) be"
  by (auto simp: vsock_new_def backend_ok_def vs_inv_def split: sum.splits)

section \<open>Bytes and credit of a connection\<close>

definition got :: "sock_read \<Rightarrow> u8 list" where
  "got r = (case r of Got bs \<Rightarrow> bs | _ \<Rightarrow> [])"

definition unread :: "HostStream \<Rightarrow> u8 list" where
  "unread s = concat (map got (s_in s))"

text \<open>The stream bytes for host port \<open>hp\<close> in a list of packets.\<close>

definition pkt_data :: "u32 \<Rightarrow> u8 list \<Rightarrow> u8 list" where
  "pkt_data hp pkt =
     (case decode pkt of
        Some h \<Rightarrow> if h_op h = VSOCK_OP_RW \<and> h_src_port h = hp then drop HDR_LEN pkt else []
      | None \<Rightarrow> [])"

definition rw_data :: "u32 \<Rightarrow> u8 list list \<Rightarrow> u8 list" where
  "rw_data hp pkts = concat (map (pkt_data hp) pkts)"

definition in_flight :: "Established \<Rightarrow> nat" where
  "in_flight est = unat (tx_cnt est - peer_fwd_cnt est)"

lemma stream_read_unread: "stream_read n s = (r, s') \<Longrightarrow> unread s = got r @ unread s'"
  by (auto simp: stream_read_def unread_def got_def split: list.splits sock_read.splits if_split_asm)

lemma pkt_data_encode:
  "pkt_data hp (encode h @ payload) = (if h_op h = VSOCK_OP_RW \<and> h_src_port h = hp then payload else [])"
  by (simp add: pkt_data_def decode_encode HDR_LEN_def)

lemma rw_data_push:
  "rw_data hp (v_rx_q (push_pkt h payload v)) =
     rw_data hp (v_rx_q v) @ (if h_op h = VSOCK_OP_RW \<and> h_src_port h = hp then payload else [])"
  by (simp add: rw_data_def push_pkt_def pkt_data_encode)

lemma host_ctrl_simps [simp]:
  "h_op (host_ctrl g v hp gp opc fw) = opc"
  "h_src_port (host_ctrl g v hp gp opc fw) = hp"
  "h_dst_port (host_ctrl g v hp gp opc fw) = gp"
  by (simp_all add: host_ctrl_def ctrl_def)

text \<open>What one action of the poll does to its connection and its bytes.\<close>

definition conn_kept :: "u32 \<Rightarrow> VsockInner \<Rightarrow> Established \<Rightarrow> VsockInner \<Rightarrow> Established \<Rightarrow> bool" where
  "conn_kept hp v est v' est' \<longleftrightarrow>
     rw_data hp (v_rx_q v') @ unread (e_stream est') = rw_data hp (v_rx_q v) @ unread (e_stream est) \<and>
     peer_buf_alloc est' = peer_buf_alloc est \<and> peer_fwd_cnt est' = peer_fwd_cnt est \<and>
     (in_flight est \<le> unat (peer_buf_alloc est) \<longrightarrow> in_flight est' \<le> unat (peer_buf_alloc est))"

lemma conn_kept_refl: "conn_kept hp v est v est"
  by (simp add: conn_kept_def)

lemma conn_kept_trans: "conn_kept hp v e v' e' \<Longrightarrow> conn_kept hp v' e' v'' e'' \<Longrightarrow> conn_kept hp v e v'' e''"
  by (simp add: conn_kept_def)

lemma in_flight_rw:
  assumes "n \<le> unat (credit est)" and "in_flight est \<le> unat (peer_buf_alloc est)"
  shows "in_flight (est\<lparr>e_stream := s, tx_cnt := tx_cnt est + of_nat n\<rparr>) \<le> unat (peer_buf_alloc est)"
proof -
  let ?f = "tx_cnt est - peer_fwd_cnt est"
  have c: "unat ?f + n \<le> unat (peer_buf_alloc est)"
    using assms by (simp add: credit_def unat_saturating_sub in_flight_def)
  have b: "unat (peer_buf_alloc est) < 2 ^ 32" using unsigned_less [of "peer_buf_alloc est"] by simp
  have eq: "tx_cnt est + of_nat n - peer_fwd_cnt est = ?f + of_nat n" by simp
  have "unat (?f + of_nat n) = unat ?f + n"
    using c b by (subst unat_add_no_wrap) (auto simp: unat_of_nat)
  then show ?thesis using c by (simp add: in_flight_def eq)
qed

lemma est_action_kept:
  assumes a: "est_action est = (act, est')"
  shows "case act of
           ActRw hp gp rx data \<Rightarrow> unread (e_stream est) = data @ unread (e_stream est')
         | _ \<Rightarrow> unread (e_stream est) = unread (e_stream est')"
proof -
  let ?k = "max (min MAX_RW_CHUNK (unat (credit est))) 1"
  obtain r s where r: "stream_read ?k (e_stream est) = (r, s)" by (cases "stream_read ?k (e_stream est)") auto
  show ?thesis using a r stream_read_unread [OF r]
    by (cases r) (auto simp: est_action_def Let_def got_def split: if_split_asm)
qed

lemma poll_conn_same:
  assumes i: "vs_inv gcid v" and e: "v_conns v hp = Some (Estab est)"
    and e': "v_conns (snd (poll_conn gcid hp v)) hp = Some (Estab est')"
  shows "conn_kept hp v est (snd (poll_conn gcid hp v)) est'"
proof -
  obtain act est1 where a: "est_action est = (act, est1)" by (cases "est_action est") auto
  obtain s where s: "est1 = est\<lparr>e_stream := s\<rparr>" using est_action_out(1) [OF a] by blast
  note k = est_action_kept [OF a]
  show ?thesis
  proof (cases act)
    case (ActRw h g rx data)
    then have d: "length data \<le> unat (credit est)" "h = hp"
      using est_action_out(2) [OF a] vs_inv_est [OF i e] by auto
    have "est' = est\<lparr>e_stream := s, tx_cnt := tx_cnt est + of_nat (length data)\<rparr>"
      using e' ActRw s by (auto simp: poll_conn_def e a apply_action_def Let_def)
    then show ?thesis using in_flight_rw [OF d(1)] k ActRw s d(2)
      by (simp add: conn_kept_def poll_conn_def e a apply_action_def Let_def rw_data_push)
  qed (use e' k s in \<open>auto simp: conn_kept_def poll_conn_def e a apply_action_def Let_def rw_data_push vsock_ops in_flight_def\<close>)
qed

lemma poll_conn_other:
  assumes i: "vs_inv gcid v" and n: "k \<noteq> hp"
  shows "v_conns (snd (poll_conn gcid k v)) hp = v_conns v hp \<and>
         rw_data hp (v_rx_q (snd (poll_conn gcid k v))) = rw_data hp (v_rx_q v)"
proof (cases "\<exists>est. v_conns v k = Some (Estab est)")
  case True
  then obtain est where e: "v_conns v k = Some (Estab est)" by blast
  obtain act est1 where a: "est_action est = (act, est1)" by (cases "est_action est") auto
  have hp: "h = k" if "act = ActRw h g rx data" for h g rx data
    using est_action_out(2) [OF a that] vs_inv_est [OF i e] by simp
  show ?thesis using n hp
    by (cases act) (auto simp: poll_conn_def e a apply_action_def Let_def rw_data_push vsock_ops)
next
  case False
  then have "poll_conn gcid k v = (0, v)" by (auto simp: poll_conn_def split: option.splits ConnState.splits)
  then show ?thesis by simp
qed

lemma poll_list_kept:
  assumes "vs_inv gcid v" and "v_conns v hp = Some (Estab est)"
    and "v_conns (snd (poll_established_host_reads gcid ks v)) hp = Some (Estab est')"
  shows "conn_kept hp v est (snd (poll_established_host_reads gcid ks v)) est'"
  using assms
proof (induction ks arbitrary: v est)
  case Nil
  then show ?case by (simp add: conn_kept_refl)
next
  case (Cons k ks)
  let ?v = "snd (poll_conn gcid k v)"
  have l: "snd (poll_established_host_reads gcid (k # ks) v) = snd (poll_established_host_reads gcid ks ?v)"
    by (simp split: prod.splits)
  have i: "vs_inv gcid ?v" by (rule vs_inv_poll_conn [OF Cons.prems(1)])
  show ?case
  proof (cases "k = hp")
    case False
    note o = poll_conn_other [OF Cons.prems(1) False]
    have "conn_kept hp v est ?v est" using o by (simp add: conn_kept_def)
    then show ?thesis using Cons.IH [OF i] Cons.prems(2,3) o l conn_kept_trans by metis
  next
    case True
    have st: "v_conns (snd (poll_established_host_reads gcid ks w)) hp = None" if "v_conns w hp = None" "vs_inv gcid w" for w ks
      using that
    proof (induction ks arbitrary: w)
      case (Cons j js)
      have "v_conns (snd (poll_conn gcid j w)) hp = None"
        using Cons.prems poll_conn_other [OF Cons.prems(2), of j hp] by (cases "j = hp") (auto simp: poll_conn_def)
      then show ?case using Cons.IH [OF _ vs_inv_poll_conn [OF Cons.prems(2)]] by (simp split: prod.splits) (metis snd_conv)
    qed simp
    have "v_conns ?v hp \<noteq> None" using st [of ?v ks] i Cons.prems(3) l by auto
    moreover have "v_conns ?v hp = Some (WaitResponse x y z) \<Longrightarrow> False" for x y z
      using Cons.prems(2) True
      by (auto simp: poll_conn_def apply_action_def Let_def split: prod.splits HostAction.splits)
    ultimately obtain est1 where e1: "v_conns ?v hp = Some (Estab est1)"
      by (metis ConnState.exhaust option.exhaust)
    then have "conn_kept hp v est ?v est1" using poll_conn_same [OF Cons.prems(1,2)] True by simp
    then show ?thesis using Cons.IH [OF i e1] Cons.prems(3) l conn_kept_trans by metis
  qed
qed

section \<open>The queue contract\<close>

definition vs_keeps :: "GuestMemory \<times> VirtioState \<Rightarrow> GuestMemory \<times> VirtioState \<Rightarrow> bool" where
  "vs_keeps s s' \<longleftrightarrow>
     ram_len (fst s') = ram_len (fst s) \<and> ring_view (snd s') = ring_view (snd s) \<and>
     length (queues (snd s')) = length (queues (snd s))"

lemma vs_keeps_refl [simp]: "vs_keeps s s"
  by (simp add: vs_keeps_def)

lemma vs_keeps_trans: "vs_keeps s s' \<Longrightarrow> vs_keeps s' s'' \<Longrightarrow> vs_keeps s s''"
  by (simp add: vs_keeps_def)

lemma inject_loop_len: "inject_loop k d i rem w m = (r, m') \<Longrightarrow> ram_len m' = ram_len m"
proof (induction k d i rem w m arbitrary: r m' rule: inject_loop.induct)
  case (2 k d i rem w m)
  then show ?case
    by (auto simp: bnd_def Let_def ret_def reads_def split: prod.splits sum.splits if_split_asm dest!: write_at_len)
qed simp

lemma inject_keeps: "vs_keeps s (snd (inject_rx_packet pkt s))"
  by (cases s)
     (auto simp: inject_rx_packet_def Let_def vs_keeps_def dest!: inject_loop_len used_push_len
      split: sum.splits option.splits prod.splits)

lemma inject_other_queue: "get_q (snd (snd (inject_rx_packet pkt s))) 1 = get_q (snd s) 1"
  by (cases s)
     (auto simp: inject_rx_packet_def Let_def get_q_def set_last_avail_def
      split: sum.splits option.splits prod.splits)

lemma flush_loop_keeps:
  "vs_keeps s (snd (snd (flush_loop pkts n s))) \<and> get_q (snd (snd (snd (flush_loop pkts n s)))) 1 = get_q (snd s) 1"
proof (induction pkts arbitrary: n s)
  case (Cons p ps)
  obtain r s' where i: "inject_rx_packet p s = (r, s')" by (cases "inject_rx_packet p s") auto
  have "vs_keeps s s'" "get_q (snd s') 1 = get_q (snd s) 1"
    using inject_keeps [of s p] inject_other_queue [of p s] i by simp_all
  then show ?case using Cons.IH [of s' "n + 1"] i
    by (auto split: sum.splits intro: vs_keeps_trans)
qed simp

text \<open>Packets leave the receive queue only from its front.\<close>

lemma flush_loop_suffix: "\<exists>k. fst (snd (flush_loop pkts n s)) = drop k pkts"
proof (induction pkts arbitrary: n s)
  case (Cons p ps)
  obtain r s' where i: "inject_rx_packet p s = (r, s')" by (cases "inject_rx_packet p s") auto
  show ?case
  proof (cases r)
    case (Inl e)
    then show ?thesis using i by (auto intro: exI [of _ 1])
  next
    case (Inr d)
    obtain k where "fst (snd (flush_loop ps (n + 1) s')) = drop k ps" using Cons.IH by blast
    then show ?thesis using i Inr by (cases d) (auto intro: exI [of _ "Suc k"] exI [of _ 0])
  qed
qed simp

definition vpair :: "vsock_state \<Rightarrow> GuestMemory \<times> VirtioState" where
  "vpair s = (k_mem s, k_st s)"

lemma flush_rx_keeps: "vs_keeps (vpair s) (vpair (snd (flush_rx be s))) \<and> get_q (k_st (snd (flush_rx be s))) 1 = get_q (k_st s) 1"
  using flush_loop_keeps [of "(k_mem s, k_st s)" "v_rx_q (b_inner be)" 0]
  by (auto simp: flush_rx_def vpair_def split: prod.splits)

lemma flush_if_keeps: "vs_keeps (vpair s) (vpair (snd (flush_if s))) \<and> get_q (k_st (snd (flush_if s))) 1 = get_q (k_st s) 1"
  using flush_rx_keeps by (auto simp: flush_if_def split: option.splits)

lemma tx_one_keeps:
  assumes "tx_one head s = (r, s')"
  shows "vs_keeps (vpair s) (vpair s')"
    and "r = Inr x \<Longrightarrow> 1 < length (queues (k_st s)) \<Longrightarrow> q_last_avail (get_q (k_st s') 1) = q_last_avail (get_q (k_st s) 1) + 1"
  using assms
  by (auto simp: tx_one_def Let_def vs_keeps_def vpair_def get_q_set_last_avail dest!: used_push_len
      split: sum.splits prod.splits)

definition tx_served :: "nat \<Rightarrow> vsock_state \<Rightarrow> vsock_state \<Rightarrow> bool" where
  "tx_served k s s' \<longleftrightarrow>
     vs_keeps (vpair s) (vpair s') \<and>
     (1 < length (queues (k_st s)) \<longrightarrow>
        q_last_avail (get_q (k_st s') 1) = q_last_avail (get_q (k_st s) 1) + of_nat k)"

interpretation vtx: chain_server "\<lambda>s. pop_avail (get_q (k_st s) 1) (k_mem s)" tx_one tx_served
proof unfold_locales
  fix j k s s' s''
  assume "tx_served j s s'" and "tx_served k s' s''"
  then show "tx_served (j + k) s s''"
    by (auto simp: tx_served_def vs_keeps_def vpair_def)
next
  fix head s u s'
  assume "tx_one head s = (Inr u, s')"
  then show "tx_served 1 s s'" using tx_one_keeps [of head s "Inr u" s'] by (simp add: tx_served_def)
next
  fix head s e s'
  assume t: "tx_one head s = (Inl e, s')"
  then have "k_st s' = k_st s" by (auto simp: tx_one_def Let_def split: sum.splits prod.splits)
  then show "tx_served 0 s s'" using tx_one_keeps(1) [OF t] by (simp add: tx_served_def)
qed (simp add: tx_served_def)

lemma vsock_tx_loop_keeps:
  assumes "vsock_tx_loop n s = (r, s')" and "1 < length (queues (k_st s))"
  shows "vs_keeps (vpair s) (vpair s') \<and>
         (\<exists>k \<le> 66. q_last_avail (get_q (k_st s') 1) = q_last_avail (get_q (k_st s) 1) + of_nat k)"
  using vtx.loop_served [of n s] assms round_budget_le [of n]
  by (auto simp: vsock_tx_loop_def tx_served_def intro: order_trans)

lemma vsock_notify_keeps:
  assumes "1 < length (queues (k_st s))"
  shows "vs_keeps (vpair s) (vpair (snd (vsock_handle_notify qsel s))) \<and>
         (\<exists>k \<le> 66. q_last_avail (get_q (k_st (snd (vsock_handle_notify qsel s))) 1) = q_last_avail (get_q (k_st s) 1) + of_nat k)"
proof -
  obtain r1 s1 where f1: "flush_if s = (r1, s1)" by (cases "flush_if s") auto
  have k1: "vs_keeps (vpair s) (vpair s1)" "get_q (k_st s1) 1 = get_q (k_st s) 1" using flush_if_keeps [of s] f1 by auto
  have l1: "1 < length (queues (k_st s1))" using k1(1) assms by (simp add: vs_keeps_def vpair_def)
  show ?thesis
  proof (cases r1)
    case (Inl e)
    then show ?thesis using f1 k1 by (auto simp: vsock_handle_notify_def intro: exI [of _ 0])
  next
    case (Inr n0)
    define body where "body = (\<lambda>s. let q = get_q (k_st s) 1 in
              if qsel = 1 \<and> q_ready q \<noteq> 0 \<and> q_num q \<noteq> 0 then vsock_tx_loop n0 s else (Inr n0, s))"
    obtain r2 s2 where b: "body s1 = (r2, s2)" by (cases "body s1") auto
    have "vs_keeps (vpair s1) (vpair s2) \<and>
      (\<exists>k \<le> 66. q_last_avail (get_q (k_st s2) 1) = q_last_avail (get_q (k_st s1) 1) + of_nat k)"
    proof (cases "vsock_tx_loop n0 s1 = (r2, s2)")
      case True
      then show ?thesis using vsock_tx_loop_keeps [OF True l1] by blast
    next
      case False
      then have "s2 = s1" using b by (auto simp: body_def Let_def split: if_split_asm)
      then show ?thesis by (auto intro: exI [of _ 0])
    qed
    then obtain k where k2: "vs_keeps (vpair s1) (vpair s2)" "k \<le> 66"
      "q_last_avail (get_q (k_st s2) 1) = q_last_avail (get_q (k_st s1) 1) + of_nat k" by blast
    have n: "vsock_handle_notify qsel s = bnd body (\<lambda>n1. bnd flush_if (\<lambda>n2. ret (n1 + n2))) s1"
      using f1 Inr by (simp add: vsock_handle_notify_def body_def)
    have "snd (vsock_handle_notify qsel s) = s2 \<or> snd (vsock_handle_notify qsel s) = snd (flush_if s2)"
      unfolding n using b by (cases r2) (auto simp: bnd_def split: prod.splits sum.splits)
    then show ?thesis
    proof
      assume "snd (vsock_handle_notify qsel s) = s2"
      then show ?thesis using k1 k2 vs_keeps_trans by (metis (no_types, lifting))
    next
      assume "snd (vsock_handle_notify qsel s) = snd (flush_if s2)"
      then show ?thesis using k1 k2 flush_if_keeps [of s2] vs_keeps_trans by (metis (no_types, lifting))
    qed
  qed
qed

datatype vsock_event = VNotify u32 | VPoll "VsockInner \<Rightarrow> u32 list"

fun vsock_handle :: "vsock_event \<Rightarrow> vsock_state \<Rightarrow> vsock_state" where
  "vsock_handle (VNotify qsel) s = snd (vsock_handle_notify qsel s)"
| "vsock_handle (VPoll ks) s = (case k_be s of None \<Rightarrow> s | Some be \<Rightarrow> snd (vsock_poll ks be s))"

lemma vsock_poll_keeps: "vs_keeps (vpair s) (vpair (snd (vsock_poll ks be s)))"
proof -
  obtain n b where p: "poll_host ks be = (n, b)" by (cases "poll_host ks be") auto
  have "snd (vsock_poll ks be s) = snd (flush_rx b s)"
    by (auto simp: vsock_poll_def p bnd_def split: prod.splits sum.splits)
  then show ?thesis using flush_rx_keeps [of s b] by simp
qed

lemma vsock_handle_keeps:
  "1 < length (queues (k_st s)) \<Longrightarrow> vs_keeps (vpair s) (vpair (vsock_handle e s))"
  by (cases e) (auto simp: vsock_notify_keeps vsock_poll_keeps split: option.splits)

interpretation vsk: queue_device vsock_handle k_mem k_st "\<lambda>s. 1 < length (queues (k_st s))"
  using vsock_handle_keeps by unfold_locales (auto simp: vs_keeps_def vpair_def)

section \<open>The handshake\<close>

lemma bytes_chars [simp]: "chars_of (bytes_of s) = s"
proof -
  have "unat (of_nat (byte_of c) :: u8) = byte_of c" for c :: char
    using byte_of_less [of c] by (simp add: unat_of_nat)
  then show ?thesis by (simp add: chars_of_def bytes_of_def comp_def)
qed

lemma digit_not_space: "is_digit_c c \<Longrightarrow> \<not> is_space c"
  by (auto simp: is_digit_c_def is_space_def)

lemma trim_last: "s \<noteq> [] \<Longrightarrow> \<not> is_space (hd s) \<Longrightarrow> \<not> is_space (last s) \<Longrightarrow> list_all is_space t \<Longrightarrow> trim (s @ t) = s"
proof -
  assume a: "s \<noteq> []" "\<not> is_space (hd s)" "\<not> is_space (last s)" "list_all is_space t"
  have "trim_start (s @ t) = s @ t" using a by (cases s) (auto simp: trim_start_def)
  moreover have "dropWhile is_space (rev t @ rev s) = dropWhile is_space (rev s)"
    using a(4) by (intro dropWhile_append2) (auto simp: list_all_iff)
  moreover have "dropWhile is_space (rev s) = rev s" using a(1,3) by (cases s rule: rev_cases) auto
  ultimately show ?thesis by (simp add: trim_def trim_end_def)
qed

lemma parse_connect_line:
  assumes "n < 2 ^ 32"
  shows "parse_connect (''CONNECT '' @ dec_string n @ [char_of (10 :: nat)]) = Some (of_nat n)"
proof -
  obtain d ds where d: "dec_string n = d # ds" "is_digit_c d" using dec_string_head by blast
  have l: "\<not> is_space (last (dec_string n))"
    using dec_string_digits [of "last (dec_string n)" n] d by (simp add: digit_not_space)
  have nl: "is_space (char_of (10 :: nat))" by (simp add: is_space_def)
  have "trim ((''CONNECT '' @ dec_string n) @ [char_of (10 :: nat)]) = ''CONNECT '' @ dec_string n"
    by (rule trim_last) (use l d nl in \<open>auto simp: is_space_def\<close>)
  moreover have "trim (dec_string n @ []) = dec_string n"
    by (rule trim_last) (use l d in \<open>auto simp: digit_not_space\<close>)
  ultimately show ?thesis using from_str_radix_dec_string [OF assms]
    by (simp add: parse_connect_def Let_def strip_prefix_def parse_u32_def)
qed

definition connect_line :: "nat \<Rightarrow> u8 list" where
  "connect_line n = bytes_of (''CONNECT '' @ dec_string n @ [char_of (10 :: nat)])"

lemma connect_line_facts:
  assumes "n < 2 ^ 32"
  shows "length (connect_line n) \<le> 256" and "connect_line n \<noteq> []" and "newline \<in> set (connect_line n)"
    and "takeWhile (\<lambda>b. b \<noteq> newline) (connect_line n @ extra) @ [newline] = connect_line n"
proof -
  have "n < 10 ^ Suc 9" using assms by simp
  then have "length (dec_string n) \<le> Suc 9" by (rule length_dec_string)
  then show "length (connect_line n) \<le> 256" by (simp add: connect_line_def bytes_of_def)
  show "connect_line n \<noteq> []" by (simp add: connect_line_def bytes_of_def)
  show "newline \<in> set (connect_line n)" by (simp add: connect_line_def bytes_of_def newline_def)
  let ?w = "bytes_of (''CONNECT '' @ dec_string n)"
  have split: "connect_line n = ?w @ [newline]" by (simp add: connect_line_def bytes_of_def newline_def)
  have "(of_nat (byte_of c) :: u8) \<noteq> newline" if "is_digit_c c" for c
  proof
    assume "(of_nat (byte_of c) :: u8) = newline"
    then have "unat (of_nat (byte_of c) :: u8) = 10" by (simp add: newline_def)
    then show False using that byte_of_less [of c] by (simp add: unat_of_nat is_digit_c_def)
  qed
  then have "\<forall>b \<in> set ?w. b \<noteq> newline"
    by (auto simp: bytes_of_def newline_def dest!: dec_string_digits)
  then have "takeWhile (\<lambda>b. b \<noteq> newline) (?w @ newline # extra) = ?w" by (simp add: takeWhile_append2)
  then show "takeWhile (\<lambda>b. b \<noteq> newline) (connect_line n @ extra) @ [newline] = connect_line n"
    using split by simp
qed

text \<open>One client whose line has arrived, possibly with bytes behind it.\<close>

lemma drain_connect:
  assumes n: "n < 2 ^ 32" and p: "v_pending v = [\<lparr>p_stream = s\<lparr>s_in := [Got (connect_line n @ extra)]\<rparr>, p_buf = []\<rparr>]"
    and l: "length (connect_line n @ extra) \<le> 256"
  shows "drain_connect_lines gcid v = (1, (open_conn gcid (s\<lparr>s_in := []\<rparr>) (of_nat n) v)\<lparr>v_pending := []\<rparr>)"
proof -
  note c = connect_line_facts [OF n]
  have r: "stream_read 256 (s\<lparr>s_in := [Got (connect_line n @ extra)]\<rparr>) = (Got (connect_line n @ extra), s\<lparr>s_in := []\<rparr>)"
    using l by (simp add: stream_read_def)
  have "parse_connect (chars_of (takeWhile (\<lambda>b. b \<noteq> newline) (connect_line n) @ [newline])) = Some (of_nat n)"
    using c(4) [of "[]"] by (simp add: connect_line_def parse_connect_line [OF n, simplified])
  then show ?thesis using c(2,3) by (simp add: drain_connect_lines_def p r)
qed

section \<open>Properties\<close>

text \<open>
  C24. A host client that sends a \<^verbatim>\<open>CONNECT\<close> line gets its connection: draining queues exactly one request
  packet, from a host port that no connection uses to the port on the line, and when the guest
  answers with a response the client is sent \<^verbatim>\<open>OK\<close> and that host port and the connection is established
  with both byte counters at zero. Fewer than 10000 connections may be open.
\<close>

theorem vsock_connect_handshake:
  assumes inv: "vs_inv gcid v" and room: "card (dom (v_conns v)) < 10000" and n: "n < 2 ^ 32"
    and p: "v_pending v = [\<lparr>p_stream = s\<lparr>s_in := [Got (connect_line n)]\<rparr>, p_buf = []\<rparr>]" and w: "s_write_ok s = []"
  shows "\<exists>hp v1. drain_connect_lines gcid v = (1, v1) \<and> v_conns v hp = None \<and>
     v_rx_q v1 = v_rx_q v @ [encode (ctrl (ucast VSOCK_HOST_CID) (ucast gcid) hp (of_nat n) VSOCK_OP_REQUEST (v_host_buf_alloc v) 0)] \<and>
     (\<forall>hdr. h_op hdr = VSOCK_OP_RESPONSE \<longrightarrow> h_dst_port hdr = hp \<longrightarrow>
        (\<exists>est. v_conns (snd (handle_guest_packet gcid hdr [] v1)) hp = Some (Estab est) \<and>
           s_out (e_stream est) = s_out s @ bytes_of (''OK '' @ dec_string (unat hp) @ [char_of (10 :: nat)]) \<and>
           tx_cnt est = 0 \<and> rx_cnt est = 0))"
proof -
  obtain hp v' where a: "alloc_host_port v = (hp, v')" by (cases "alloc_host_port v") auto
  have i: "1024 \<le> unat (v_next_host_port v)" "finite (dom (v_conns v))" using inv by (simp_all add: vs_inv_def)
  note f = alloc_loop_spec [OF a [unfolded alloc_host_port_def] i(1)]
  have fresh: "v_conns v hp = None" by (rule alloc_fresh [OF a i room])
  let ?v1 = "(open_conn gcid (s\<lparr>s_in := []\<rparr>) (of_nat n) v)\<lparr>v_pending := []\<rparr>"
  have d: "drain_connect_lines gcid v = (1, ?v1)"
    using drain_connect [OF n, of v "[]" s] p connect_line_facts(1) [OF n] by simp
  have q: "v_rx_q ?v1 = v_rx_q v @ [encode (ctrl (ucast VSOCK_HOST_CID) (ucast gcid) hp (of_nat n) VSOCK_OP_REQUEST (v_host_buf_alloc v) 0)]"
    using f by (simp add: open_conn_def a Let_def push_pkt_def)
  have c: "v_conns ?v1 hp = Some (WaitResponse (s\<lparr>s_in := []\<rparr>) (of_nat n) hp)"
    by (simp add: open_conn_def a Let_def)
  have "\<exists>est. v_conns (snd (handle_guest_packet gcid hdr [] ?v1)) hp = Some (Estab est) \<and>
           s_out (e_stream est) = s_out s @ bytes_of (''OK '' @ dec_string (unat hp) @ [char_of (10 :: nat)]) \<and>
           tx_cnt est = 0 \<and> rx_cnt est = 0"
    if "h_op hdr = VSOCK_OP_RESPONSE" "h_dst_port hdr = hp" for hdr
    using that c w by (simp add: handle_guest_packet_def on_response_def Let_def write_all_def)
  then show ?thesis using d q fresh by blast
qed

text \<open>
  C25. The host side never loses, repeats or reorders stream bytes: polling any list of connections, the
  bytes already queued for the guest on a connection followed by the bytes still unread on its host
  socket stay the same, as long as the connection lives.
\<close>

theorem vsock_stream_order:
  assumes "vs_inv gcid v" and "v_conns v hp = Some (Estab est)"
    and "v_conns (snd (poll_established_host_reads gcid ks v)) hp = Some (Estab est')"
  shows "rw_data hp (v_rx_q (snd (poll_established_host_reads gcid ks v))) @ unread (e_stream est') =
         rw_data hp (v_rx_q v) @ unread (e_stream est)"
  using poll_list_kept [OF assms] by (simp add: conn_kept_def)

text \<open>
  Polling respects the guest's credit: a connection whose bytes in flight fit the buffer the guest
  advertised still fits it afterwards, however often the connection is polled.
\<close>

theorem vsock_credit_respected:
  assumes "vs_inv gcid v" and "v_conns v hp = Some (Estab est)"
    and "v_conns (snd (poll_established_host_reads gcid ks v)) hp = Some (Estab est')"
    and "in_flight est \<le> unat (peer_buf_alloc est)"
  shows "in_flight est' \<le> unat (peer_buf_alloc est') \<and> peer_buf_alloc est' = peer_buf_alloc est"
  using poll_list_kept [OF assms(1-3)] assms(4) by (simp add: conn_kept_def)

text \<open>
  C26. From its creation on, whatever the host clients and the guest do, the backend keeps every
  connection under its own host port, and queues for the guest only packets of at most 4096 payload
  bytes whose length field is right and that come from the host and go to this guest.
\<close>

theorem vsock_backend_invariant:
  assumes "vsock_new bound cid = Inr be"
  shows "(\<forall>p c. v_conns (b_inner (fold vs_step es be)) p = Some c \<longrightarrow> conn_port c = p) \<and>
         (\<forall>pkt \<in> set (v_rx_q (b_inner (fold vs_step es be))). pkt_ok (max cid 3) pkt)"
  using vsb.invar_run [OF vsock_new_ok [OF assms]] by (simp add: backend_ok_def vs_inv_def)

text \<open>
  Handling a notification always returns after at most 66 chains of the transmit queue, and leaves
  the RAM size and everything the driver programmed into the queues as it was.
\<close>

theorem vsock_notify_bounded:
  assumes "1 < length (queues (k_st s))"
  shows "\<exists>r s' k. vsock_handle_notify qsel s = (r, s') \<and> k \<le> 66 \<and>
     q_last_avail (get_q (k_st s') 1) = q_last_avail (get_q (k_st s) 1) + of_nat k \<and>
     ram_len (k_mem s') = ram_len (k_mem s) \<and> ring_view (k_st s') = ring_view (k_st s)"
proof -
  obtain r s' where n: "vsock_handle_notify qsel s = (r, s')" by (cases "vsock_handle_notify qsel s") auto
  then show ?thesis using vsock_notify_keeps [OF assms, of qsel] by (auto simp: vs_keeps_def vpair_def)
qed

text \<open>
  The header survives the wire: decoding a packet gives back the encoded header, and the payload the
  device hands on is the one the sender appended when the length field says so.
\<close>

theorem vsock_packet_roundtrip:
  assumes "length payload < 2 ^ 32" and "h_len h = of_nat (length payload)"
  shows "decode (encode h @ payload) = Some h \<and> packet_payload h (encode h @ payload) = payload"
  using decode_encode payload_encode [OF assms] by simp

section \<open>Witnesses\<close>

definition vs_demo :: "(u32 \<rightharpoonup> ConnState) \<Rightarrow> PendingHost list \<Rightarrow> VsockInner" where
  "vs_demo conns pend =
     \<lparr>v_listener = None, v_pending = pend, v_conns = conns, v_rx_q = [], v_next_host_port = 50000,
      v_host_buf_alloc = DEFAULT_BUF_ALLOC\<rparr>"

definition demo_stream :: "sock_read list \<Rightarrow> HostStream" where
  "demo_stream rs = \<lparr>s_in = rs, s_out = [], s_write_ok = []\<rparr>"

definition demo_est :: Established where
  "demo_est = \<lparr>e_stream = demo_stream [Got [1, 2, 3]], e_guest_port = 5000, e_host_port = 50000,
     peer_buf_alloc = 2, peer_fwd_cnt = 0, tx_cnt = 0, rx_cnt = 0\<rparr>"

lemma demo_inv: "vs_inv 3 (vs_demo Map.empty pend)" "vs_inv 3 (vs_demo [50000 \<mapsto> Estab demo_est] [])"
  by (simp_all add: vs_inv_def vs_demo_def demo_est_def)

lemma demo_poll:
  "v_conns (snd (poll_established_host_reads 3 [50000] (vs_demo [50000 \<mapsto> Estab demo_est] []))) 50000 =
     Some (Estab (demo_est\<lparr>e_stream := demo_stream [Got [3]], tx_cnt := 2\<rparr>))"
  by (simp add: vs_demo_def demo_est_def demo_stream_def poll_conn_def est_action_def Let_def credit_def
      saturating_sub_def stream_read_def MAX_RW_CHUNK_def apply_action_def push_pkt_def)

theorem vsock_connect_handshake_witness:
  "\<exists>hp v1. drain_connect_lines 3 (vs_demo Map.empty [\<lparr>p_stream = demo_stream [Got (connect_line 5000)], p_buf = []\<rparr>]) = (1, v1) \<and>
     v_rx_q v1 = [encode (ctrl (ucast VSOCK_HOST_CID) 3 hp 5000 VSOCK_OP_REQUEST DEFAULT_BUF_ALLOC 0)]"
  using vsock_connect_handshake [OF demo_inv(1), of "[\<lparr>p_stream = demo_stream [Got (connect_line 5000)], p_buf = []\<rparr>]" 5000
      "demo_stream []"]
  by (auto simp: vs_demo_def demo_stream_def)

theorem vsock_stream_order_witness:
  "rw_data 50000 (v_rx_q (snd (poll_established_host_reads 3 [50000] (vs_demo [50000 \<mapsto> Estab demo_est] [])))) @ [3] = [1, 2, 3]"
  using vsock_stream_order [OF demo_inv(2) _ demo_poll]
  by (simp add: vs_demo_def demo_est_def demo_stream_def unread_def got_def rw_data_def)

theorem vsock_credit_respected_witness:
  "in_flight (demo_est\<lparr>e_stream := demo_stream [Got [3]], tx_cnt := 2\<rparr>) \<le> 2"
  using vsock_credit_respected [OF demo_inv(2) _ demo_poll, of demo_est]
  by (simp add: vs_demo_def demo_est_def in_flight_def)

theorem vsock_backend_invariant_witness:
  "\<exists>be. vsock_new (Inr [Some (demo_stream [Got (connect_line 7)])]) 1 = Inr be \<and>
     (\<forall>pkt \<in> set (v_rx_q (b_inner (fold vs_step [HostPoll (\<lambda>_. []), GuestPkt []] be))). pkt_ok 3 pkt)"
proof -
  obtain be where be: "vsock_new (Inr [Some (demo_stream [Got (connect_line 7)])]) 1 = Inr be"
    by (simp add: vsock_new_def)
  show ?thesis using be vsock_backend_invariant [OF be, of "[HostPoll (\<lambda>_. []), GuestPkt []]"] by (auto simp: max_def)
qed

theorem vsock_notify_bounded_witness:
  "\<exists>r s' k. vsock_handle_notify 1 \<lparr>k_mem = \<lparr>ram = \<lambda>_. 0, ram_len = 64\<rparr>, k_st = virtio_default, k_be = None\<rparr> = (r, s') \<and>
     (k :: nat) \<le> 66 \<and> ram_len (k_mem s') = 64"
proof -
  have "1 < length (queues virtio_default)" by (simp add: virtio_default_def MAX_QUEUES_def)
  then show ?thesis
    using vsock_notify_bounded [of "\<lparr>k_mem = \<lparr>ram = \<lambda>_. 0, ram_len = 64\<rparr>, k_st = virtio_default, k_be = None\<rparr>" 1] by auto
qed

theorem vsock_packet_roundtrip_witness:
  "packet_payload ((ctrl 2 3 1 1 VSOCK_OP_RW 0 0)\<lparr>h_len := 2\<rparr>) (encode ((ctrl 2 3 1 1 VSOCK_OP_RW 0 0)\<lparr>h_len := 2\<rparr>) @ [7, 8]) = [7, 8]"
  using vsock_packet_roundtrip [of "[7, 8]" "(ctrl 2 3 1 1 VSOCK_OP_RW 0 0)\<lparr>h_len := 2\<rparr>"] by simp

section \<open>Observed defects\<close>

text \<open>
  A second response for an established connection drops it without telling the guest or the client: it
  is removed from the table before its state is looked at.
\<close>

lemma vsock_response_drops:
  assumes "v_conns v hp = Some (Estab est)" and "h_op hdr = VSOCK_OP_RESPONSE" and "h_dst_port hdr = hp"
  shows "handle_guest_packet gcid hdr payload v = (0, v\<lparr>v_conns := (v_conns v)(hp := None)\<rparr>)"
  using assms by (simp add: handle_guest_packet_def on_response_def Let_def)

text \<open>
  Bytes a client sends in one piece with its \<^verbatim>\<open>CONNECT\<close> line are discarded: the result is the one
  without them.
\<close>

lemma vsock_early_bytes_lost:
  assumes "n < 2 ^ 32" and "length (connect_line n @ extra) \<le> 256"
  shows "drain_connect_lines gcid (v\<lparr>v_pending := [\<lparr>p_stream = s\<lparr>s_in := [Got (connect_line n @ extra)]\<rparr>, p_buf = []\<rparr>]\<rparr>) =
         drain_connect_lines gcid (v\<lparr>v_pending := [\<lparr>p_stream = s\<lparr>s_in := [Got (connect_line n)]\<rparr>, p_buf = []\<rparr>]\<rparr>)"
proof -
  have o: "(open_conn gcid st port (v\<lparr>v_pending := ps\<rparr>))\<lparr>v_pending := []\<rparr> = (open_conn gcid st port v)\<lparr>v_pending := []\<rparr>"
    for st port ps
  proof -
    have "alloc_loop k (u\<lparr>v_pending := ps\<rparr>) = map_prod id (\<lambda>w. w\<lparr>v_pending := ps\<rparr>) (alloc_loop k u)" for k u
    proof (induction k arbitrary: u)
      case (Suc k)
      have c: "u\<lparr>v_pending := ps, v_next_host_port := x\<rparr> = u\<lparr>v_next_host_port := x, v_pending := ps\<rparr>" for x by simp
      have "alloc_loop k (u\<lparr>v_pending := ps, v_next_host_port := x\<rparr>) =
            map_prod id (\<lambda>w. w\<lparr>v_pending := ps\<rparr>) (alloc_loop k (u\<lparr>v_next_host_port := x\<rparr>))" for x
        unfolding c by (rule Suc)
      then show ?case by (simp add: Let_def id_def)
    qed simp
    then show ?thesis by (simp add: open_conn_def alloc_host_port_def Let_def push_pkt_def split: prod.splits)
  qed
  show ?thesis
    using drain_connect [OF assms(1), of "v\<lparr>v_pending := [\<lparr>p_stream = s\<lparr>s_in := [Got (connect_line n @ extra)]\<rparr>, p_buf = []\<rparr>]\<rparr>" extra s gcid]
      drain_connect [OF assms(1), of "v\<lparr>v_pending := [\<lparr>p_stream = s\<lparr>s_in := [Got (connect_line n)]\<rparr>, p_buf = []\<rparr>]\<rparr>" "[]" s gcid]
      assms(2) by (simp add: o)
qed

text \<open>
  A packet that does not fit the next receive chain is published in part and stays queued in full, so
  the guest is given its beginning again with the next buffer.
\<close>

lemma vsock_partial_redelivery:
  assumes "q_ready (get_q st 0) \<noteq> 0" and "q_num (get_q st 0) \<noteq> 0" and "pop_avail (get_q st 0) m = Inr (Some head)"
    and "inject_loop 32 (q_desc (get_q st 0)) head pkt 0 m = (Inr (b # rest, written), m1)"
    and "used_push (q_used (get_q st 0)) (q_num (get_q st 0)) head written m1 = (Inr (), m2)"
  shows "flush_loop (pkt # pkts) n (m, st) =
         (Inr n, pkt # pkts, (m2, set_last_avail 0 (q_last_avail (get_q st 0) + 1) st))"
  using assms by (simp add: inject_rx_packet_def Let_def)

end
