(* ===== verification/Virtio_Balloon.thy ===== *)
theory Virtio_Balloon
  imports Queue_Device
begin

text \<open>
  The virtio-balloon device, \<^verbatim>\<open>src/crates/fluxvm-hypervisor/src/devices/virtio_balloon.rs\<close>: the inflate and
  deflate queues carry arrays of page numbers. What \<^verbatim>\<open>madvise\<close> does to the contents of a range is the
  kernel's business: it is the argument \<open>madv\<close>, and the statements that need it say that it changes
  nothing outside the range and does not change the size.
\<close>

section \<open>Definitions\<close>

definition VIRTIO_BALLOON_PFN_SHIFT :: nat where "VIRTIO_BALLOON_PFN_SHIFT = 12"

type_synonym madv = "nat \<times> nat \<Rightarrow> GuestMemory \<Rightarrow> GuestMemory"

definition balloon_page :: "madv \<Rightarrow> bool \<Rightarrow> u32 \<Rightarrow> GuestMemory \<times> VirtioState \<Rightarrow> GuestMemory \<times> VirtioState" where
  "balloon_page madv inflate pfn s =
     (case s of (m, st) \<Rightarrow>
        let gpa = push_bit VIRTIO_BALLOON_PFN_SHIFT (ucast pfn :: u64) in
        if inflate then
          ((case advise_dontneed m gpa 4096 of None \<Rightarrow> m | Some r \<Rightarrow> madv r m),
           st\<lparr>balloon_actual := saturating_add (balloon_actual st) 1\<rparr>)
        else (m, st\<lparr>balloon_actual := saturating_sub (balloon_actual st) 1\<rparr>))"

fun pfn_loop :: "madv \<Rightarrow> bool \<Rightarrow> u64 \<Rightarrow> nat \<Rightarrow> nat \<Rightarrow> (GuestMemory \<times> VirtioState, unit) op" where
  "pfn_loop madv inflate addr i 0 s = (Inr (), s)"
| "pfn_loop madv inflate addr i (Suc k) s =
     (case read_at (addr + of_nat i * 4) 4 (fst s) of
        Inl e \<Rightarrow> (Inl e, s)
      | Inr pfnb \<Rightarrow> pfn_loop madv inflate addr (i + 1) k (balloon_page madv inflate (u32_from_le pfnb) s))"

fun pfn_chain :: "madv \<Rightarrow> bool \<Rightarrow> nat \<Rightarrow> u64 \<Rightarrow> u16 \<Rightarrow> (GuestMemory \<times> VirtioState, unit) op" where
  "pfn_chain madv inflate 0 desc idx s = (Inr (), s)"
| "pfn_chain madv inflate (Suc k) desc idx s =
     (case read_desc desc idx (fst s) of
        Inl e \<Rightarrow> (Inl e, s)
      | Inr d \<Rightarrow>
          (case pfn_loop madv inflate (d_addr d) 0 (unat (d_len d) div 4) s of
             (Inl e, s') \<Rightarrow> (Inl e, s')
           | (Inr _, s') \<Rightarrow>
               if has_flag (d_flags d) VRING_DESC_F_NEXT then pfn_chain madv inflate k desc (d_next d) s'
               else (Inr (), s')))"

definition balloon_serve :: "madv \<Rightarrow> nat \<Rightarrow> bool \<Rightarrow> u16 \<Rightarrow> (GuestMemory \<times> VirtioState, unit) op" where
  "balloon_serve madv q_idx inflate head s =
     (let q = get_q (snd s) q_idx in
      case pfn_chain madv inflate 32 (q_desc q) head s of
        (Inl e, s') \<Rightarrow> (Inl e, s')
      | (Inr _, (m, st)) \<Rightarrow>
          (case used_push (q_used q) (q_num q) head 0 m of
             (Inl e, m') \<Rightarrow> (Inl e, (m', st))
           | (Inr _, m') \<Rightarrow> (Inr (), (m', set_last_avail q_idx (q_last_avail q + 1) st))))"

definition process_pfns :: "madv \<Rightarrow> nat \<Rightarrow> bool \<Rightarrow> (GuestMemory \<times> VirtioState, u32) op" where
  "process_pfns madv q_idx inflate s =
     (let q = get_q (snd s) q_idx in
      if q_ready q = 0 \<or> q_num q = 0 then (Inr 0, s)
      else notify_loop (\<lambda>(m, st). pop_avail (get_q st q_idx) m) (balloon_serve madv q_idx inflate) 0 s)"

definition balloon_handle_notify :: "madv \<Rightarrow> u32 \<Rightarrow> (GuestMemory \<times> VirtioState, u32) op" where
  "balloon_handle_notify madv qsel s =
     (if qsel = 0 then process_pfns madv 0 True s
      else if qsel = 1 then process_pfns madv 1 False s
      else (Inr 0, s))"

section \<open>Lemmas\<close>

text \<open>What is assumed of \<^verbatim>\<open>madvise\<close>: it stays inside its range.\<close>

definition madv_ok :: "madv \<Rightarrow> bool" where
  "madv_ok madv \<longleftrightarrow>
     (\<forall>a n m. ram_len (madv (a, n) m) = ram_len m \<and> (\<forall>i. \<not> (a \<le> i \<and> i < a + n) \<longrightarrow> ram (madv (a, n) m) i = ram m i))"

definition bal_keeps :: "GuestMemory \<times> VirtioState \<Rightarrow> GuestMemory \<times> VirtioState \<Rightarrow> bool" where
  "bal_keeps s s' \<longleftrightarrow>
     ram_len (fst s') = ram_len (fst s) \<and> ring_view (snd s') = ring_view (snd s) \<and>
     length (queues (snd s')) = length (queues (snd s))"

lemma bal_keeps_refl [simp]: "bal_keeps s s"
  by (simp add: bal_keeps_def)

lemma bal_keeps_trans: "bal_keeps s s' \<Longrightarrow> bal_keeps s' s'' \<Longrightarrow> bal_keeps s s''"
  by (simp add: bal_keeps_def)

lemma balloon_page_keeps:
  assumes "madv_ok madv"
  shows "bal_keeps s (balloon_page madv inflate pfn s)" and "queues (snd (balloon_page madv inflate pfn s)) = queues (snd s)"
  using assms
  by (cases s; auto simp: balloon_page_def Let_def bal_keeps_def madv_ok_def split: option.splits)+

lemma pfn_loop_keeps:
  assumes "madv_ok madv" and "pfn_loop madv inflate addr i k s = (r, s')"
  shows "bal_keeps s s' \<and> queues (snd s') = queues (snd s)"
  using assms(2)
proof (induction k arbitrary: i s)
  case (Suc k)
  show ?case
  proof (cases "read_at (addr + of_nat i * 4) 4 (fst s)")
    case (Inl e)
    then show ?thesis using Suc.prems by simp
  next
    case (Inr b)
    then have "pfn_loop madv inflate addr (i + 1) k (balloon_page madv inflate (u32_from_le b) s) = (r, s')"
      using Suc.prems by simp
    from Suc.IH [OF this] show ?thesis
      using balloon_page_keeps [OF assms(1), where s = s and inflate = inflate and pfn = "u32_from_le b"] bal_keeps_trans by metis
  qed
qed simp

lemma pfn_chain_keeps:
  assumes "madv_ok madv" and "pfn_chain madv inflate k desc idx s = (r, s')"
  shows "bal_keeps s s' \<and> queues (snd s') = queues (snd s)"
  using assms(2)
proof (induction k arbitrary: idx s)
  case (Suc k)
  show ?case
  proof (cases "read_desc desc idx (fst s)")
    case (Inl e)
    then show ?thesis using Suc.prems by simp
  next
    case (Inr d)
    obtain r1 s1 where l: "pfn_loop madv inflate (d_addr d) 0 (unat (d_len d) div 4) s = (r1, s1)"
      by (cases "pfn_loop madv inflate (d_addr d) 0 (unat (d_len d) div 4) s") auto
    note k = pfn_loop_keeps [OF assms(1) l]
    show ?thesis
    proof (cases "\<exists>u. r1 = Inr u \<and> has_flag (d_flags d) VRING_DESC_F_NEXT")
      case True
      then have "pfn_chain madv inflate k desc (d_next d) s1 = (r, s')" using Suc.prems Inr l by auto
      from Suc.IH [OF this] show ?thesis using k bal_keeps_trans by metis
    next
      case False
      then have "s' = s1" using Suc.prems Inr l by (auto split: sum.splits)
      then show ?thesis using k by simp
    qed
  qed
qed simp

definition pages_served :: "nat \<Rightarrow> nat \<Rightarrow> GuestMemory \<times> VirtioState \<Rightarrow> GuestMemory \<times> VirtioState \<Rightarrow> bool" where
  "pages_served q_idx k s s' \<longleftrightarrow>
     bal_keeps s s' \<and>
     (q_idx < length (queues (snd s)) \<longrightarrow>
        q_last_avail (get_q (snd s') q_idx) = q_last_avail (get_q (snd s) q_idx) + of_nat k)"

lemma balloon_serve_served:
  assumes ok: "madv_ok madv" and sv: "balloon_serve madv q_idx inflate head s = (r, s')"
  shows "r = Inr u \<Longrightarrow> pages_served q_idx 1 s s'" and "r = Inl e \<Longrightarrow> pages_served q_idx 0 s s'"
proof -
  let ?q = "get_q (snd s) q_idx"
  obtain r1 m st where c: "pfn_chain madv inflate 32 (q_desc ?q) head s = (r1, (m, st))"
    by (cases "pfn_chain madv inflate 32 (q_desc ?q) head s") auto
  note k = pfn_chain_keeps [OF ok c]
  have q: "get_q st q_idx = ?q" using k by (simp add: get_q_def)
  have keeps: "bal_keeps s (m, st)" "length (queues st) = length (queues (snd s))"
    using k by auto
  consider (fail) e' where "r = Inl e'" "ram_len (fst s') = ram_len m" "snd s' = st"
    | (ok) "r = Inr ()" "ram_len (fst s') = ram_len m" "snd s' = set_last_avail q_idx (q_last_avail ?q + 1) st"
  proof (cases r1)
    case (Inl e')
    then have "r = Inl e'" "s' = (m, st)" using sv c by (auto simp: balloon_serve_def Let_def)
    then show ?thesis using that(1) by simp
  next
    case (Inr v)
    obtain r2 m' where p: "used_push (q_used ?q) (q_num ?q) head 0 m = (r2, m')"
      by (cases "used_push (q_used ?q) (q_num ?q) head 0 m") auto
    note l = used_push_len [OF p]
    show ?thesis
    proof (cases r2)
      case (Inl e')
      then have "r = Inl e'" "s' = (m', st)" using sv c p Inr by (auto simp: balloon_serve_def Let_def)
      then show ?thesis using that(1) l by simp
    next
      case (Inr v')
      then have "r = Inr ()" "s' = (m', set_last_avail q_idx (q_last_avail ?q + 1) st)"
        using sv c p \<open>r1 = Inr v\<close> by (auto simp: balloon_serve_def Let_def)
      then show ?thesis using that(2) l by simp
    qed
  qed
  note cases = this
  show "pages_served q_idx 1 s s'" if "r = Inr u"
    using cases that keeps q by cases (simp_all add: pages_served_def bal_keeps_def get_q_set_last_avail)
  show "pages_served q_idx 0 s s'" if "r = Inl e"
    using cases that keeps q by cases (simp_all add: pages_served_def bal_keeps_def)
qed

lemma balloon_server:
  assumes "madv_ok madv"
  shows "chain_server (balloon_serve madv q_idx inflate) (pages_served q_idx)"
  using balloon_serve_served [OF assms]
  by unfold_locales (auto simp: pages_served_def bal_keeps_def)

lemma process_pfns_served:
  assumes "madv_ok madv"
  shows "\<exists>k \<le> 66. pages_served q_idx k s (snd (process_pfns madv q_idx inflate s))"
proof (cases "q_ready (get_q (snd s) q_idx) = 0 \<or> q_num (get_q (snd s) q_idx) = 0")
  case True
  then show ?thesis by (intro exI [of _ 0]) (auto simp: process_pfns_def Let_def pages_served_def)
next
  case False
  let ?loop = "notify_loop (\<lambda>(m, st). pop_avail (get_q st q_idx) m) (balloon_serve madv q_idx inflate) 0 s"
  obtain k where "k \<le> round_budget 0" "pages_served q_idx k s (snd ?loop)"
    using chain_server.loop_served [OF balloon_server [OF assms]] by blast
  moreover have "process_pfns madv q_idx inflate s = ?loop"
    using False by (simp only: process_pfns_def Let_def if_False)
  ultimately show ?thesis using round_budget_le [of 0] by (intro exI [of _ k]) simp
qed

lemma balloon_notify_keeps: "madv_ok madv \<Longrightarrow> bal_keeps s (snd (balloon_handle_notify madv qsel s))"
  using process_pfns_served [of madv 0 s True] process_pfns_served [of madv 1 s False]
  by (auto simp: balloon_handle_notify_def pages_served_def)

lemma balloon_device:
  assumes "madv_ok madv"
  shows "queue_device (\<lambda>qsel s. snd (balloon_handle_notify madv qsel s)) fst snd (\<lambda>_. True)"
  using balloon_notify_keeps [OF assms] by unfold_locales (auto simp: bal_keeps_def)

section \<open>What an array of page numbers does\<close>

definition in_page :: "u32 \<Rightarrow> nat \<Rightarrow> bool" where
  "in_page pfn j \<longleftrightarrow> 4096 * unat pfn \<le> j \<and> j < 4096 * unat pfn + 4096"

lemma unat_page_addr: "unat (push_bit VIRTIO_BALLOON_PFN_SHIFT (ucast (pfn :: u32) :: u64)) = 4096 * unat pfn"
proof -
  have "unat pfn < 2 ^ 32" using unsigned_less [of pfn] by simp
  then have "unat (ucast pfn :: u64) * 4096 < 2 ^ 64" by simp
  then have "unat ((ucast pfn :: u64) * 4096) = unat (ucast pfn :: u64) * 4096"
    by (subst unat_mult_no_wrap) auto
  then show ?thesis by (simp add: VIRTIO_BALLOON_PFN_SHIFT_def push_bit_eq_mult mult.commute)
qed

lemma balloon_page_inflate:
  assumes "madv_ok madv"
  shows "unat (balloon_actual (snd (balloon_page madv True pfn s))) = min (unat (balloon_actual (snd s)) + 1) (2 ^ 32 - 1)"
    and "\<not> in_page pfn j \<Longrightarrow> ram (fst (balloon_page madv True pfn s)) j = ram (fst s) j"
proof -
  show "unat (balloon_actual (snd (balloon_page madv True pfn s))) = min (unat (balloon_actual (snd s)) + 1) (2 ^ 32 - 1)"
    by (cases s) (simp add: balloon_page_def Let_def unat_saturating_add)
  show "ram (fst (balloon_page madv True pfn s)) j = ram (fst s) j" if "\<not> in_page pfn j"
    using that assms
    by (cases s) (auto simp: balloon_page_def Let_def advise_dontneed_def unat_page_addr in_page_def madv_ok_def)
qed

lemma inflate_loop:
  assumes ok: "madv_ok madv" and l: "pfn_loop madv True addr i k s = (Inr (), s')"
  shows "\<exists>pfns. length pfns = k \<and>
     unat (balloon_actual (snd s')) = min (unat (balloon_actual (snd s)) + k) (2 ^ 32 - 1) \<and>
     (\<forall>j. (\<forall>p \<in> set pfns. \<not> in_page p j) \<longrightarrow> ram (fst s') j = ram (fst s) j)"
  using l
proof (induction k arbitrary: i s)
  case 0
  have "unat (balloon_actual (snd s)) < 2 ^ 32" using unsigned_less [of "balloon_actual (snd s)"] by simp
  then show ?case using 0 by simp
next
  case (Suc k)
  then obtain b where b: "read_at (addr + of_nat i * 4) 4 (fst s) = Inr b"
    "pfn_loop madv True addr (i + 1) k (balloon_page madv True (u32_from_le b) s) = (Inr (), s')"
    by (auto split: sum.splits)
  let ?s = "balloon_page madv True (u32_from_le b) s"
  obtain pfns where p: "length pfns = k"
    "unat (balloon_actual (snd s')) = min (unat (balloon_actual (snd ?s)) + k) (2 ^ 32 - 1)"
    "\<forall>j. (\<forall>p \<in> set pfns. \<not> in_page p j) \<longrightarrow> ram (fst s') j = ram (fst ?s) j"
    using Suc.IH [OF b(2)] by blast
  have "unat (balloon_actual (snd s')) = min (unat (balloon_actual (snd s)) + Suc k) (2 ^ 32 - 1)"
    unfolding p(2) balloon_page_inflate(1) [OF ok] by (simp add: min_def)
  moreover have "\<forall>j. (\<forall>p \<in> set (u32_from_le b # pfns). \<not> in_page p j) \<longrightarrow> ram (fst s') j = ram (fst s) j"
    using p(3) balloon_page_inflate(2) [OF ok] by auto
  ultimately show ?case using p(1) by (intro exI [of _ "u32_from_le b # pfns"]) simp
qed

section \<open>Properties\<close>

text \<open>
  Inflating counts every page once and touches nothing else: a descriptor's array of \<open>k\<close> page numbers
  raises the reported size by exactly \<open>k\<close>, saturating at the largest \<^verbatim>\<open>u32\<close>, and a byte of RAM that is in
  none of the \<open>k\<close> pages keeps its value, given that the kernel's \<^verbatim>\<open>madvise\<close> stays inside its range.
\<close>

theorem balloon_inflate_accounts:
  assumes "madv_ok madv" and "pfn_loop madv True addr 0 k s = (Inr (), s')"
  shows "\<exists>pfns. length pfns = k \<and>
     unat (balloon_actual (snd s')) = min (unat (balloon_actual (snd s)) + k) (2 ^ 32 - 1) \<and>
     (\<forall>j. (\<forall>p \<in> set pfns. \<not> in_page p j) \<longrightarrow> ram (fst s') j = ram (fst s) j)"
  by (rule inflate_loop [OF assms])

theorem balloon_inflate_accounts_witness:
  "unat (balloon_actual (snd (snd (pfn_loop (\<lambda>_ m. m) True 8 0 (Suc (Suc 0)) (\<lparr>ram = \<lambda>_. 0, ram_len = 64\<rparr>, virtio_default))))) = 2"
proof -
  let ?s = "(\<lparr>ram = \<lambda>_. 0, ram_len = 64\<rparr>, virtio_default)"
  have ok: "madv_ok (\<lambda>_ m. m)" by (simp add: madv_ok_def)
  have "fst (pfn_loop (\<lambda>_ m. m) True 8 0 (Suc (Suc 0)) ?s) = Inr ()"
    by (simp add: read_at_def balloon_page_def Let_def advise_dontneed_def split: option.splits)
  then obtain s' where l: "pfn_loop (\<lambda>_ m. m) True 8 0 (Suc (Suc 0)) ?s = (Inr (), s')"
    by (cases "pfn_loop (\<lambda>_ m. m) True 8 0 (Suc (Suc 0)) ?s") auto
  have "unat (balloon_actual (snd s')) = 2" using balloon_inflate_accounts [OF ok l] by (auto simp: virtio_default_def)
  then show ?thesis unfolding l by simp
qed

end
