(* ===== verification/Virtio_Rng.thy ===== *)
theory Virtio_Rng
  imports Queue_Device
begin

text \<open>
  The entropy device, \<^verbatim>\<open>src/crates/fluxvm-hypervisor/src/devices/virtio_rng.rs\<close>. The random source is the
  kernel's: \<open>rand n c\<close> is the buffer of \<open>n\<close> bytes the \<open>c\<close>-th call of \<^verbatim>\<open>fill_random\<close> leaves.
\<close>

section \<open>Definitions\<close>

record rng_state =
  g_mem :: GuestMemory
  g_st :: VirtioState
  g_calls :: nat

type_synonym rand = "nat \<Rightarrow> nat \<Rightarrow> u8 list"

fun rng_chain :: "rand \<Rightarrow> nat \<Rightarrow> u64 \<Rightarrow> u16 \<Rightarrow> u32 \<Rightarrow> (rng_state, u32) op" where
  "rng_chain rand 0 desc idx written s = (Inr written, s)"
| "rng_chain rand (Suc k) desc idx written s =
     (case read_desc desc idx (g_mem s) of
        Inl e \<Rightarrow> (Inl e, s)
      | Inr d \<Rightarrow>
          (case (if has_flag (d_flags d) VRING_DESC_F_WRITE \<and> 0 < d_len d then
                   (case write_at (d_addr d) (rand (unat (d_len d)) (g_calls s)) (g_mem s) of
                      (r, m) \<Rightarrow> (map_sum id (\<lambda>_. saturating_add written (d_len d)) r,
                                 s\<lparr>g_mem := m, g_calls := Suc (g_calls s)\<rparr>))
                 else (Inr written, s)) of
             (Inl e, s') \<Rightarrow> (Inl e, s')
           | (Inr w, s') \<Rightarrow>
               if has_flag (d_flags d) VRING_DESC_F_NEXT then rng_chain rand k desc (d_next d) w s'
               else (Inr w, s')))"

definition rng_serve :: "rand \<Rightarrow> u16 \<Rightarrow> (rng_state, unit) op" where
  "rng_serve rand head s =
     (let q = get_q (g_st s) 0 in
      case rng_chain rand 16 (q_desc q) head 0 s of
        (Inl e, s') \<Rightarrow> (Inl e, s')
      | (Inr written, s') \<Rightarrow>
          (case used_push (q_used q) (q_num q) head written (g_mem s') of
             (Inl e, m) \<Rightarrow> (Inl e, s'\<lparr>g_mem := m\<rparr>)
           | (Inr _, m) \<Rightarrow>
               (Inr (), s'\<lparr>g_mem := m, g_st := set_last_avail 0 (q_last_avail q + 1) (g_st s')\<rparr>)))"

definition rng_handle_notify :: "rand \<Rightarrow> (rng_state, u32) op" where
  "rng_handle_notify rand s =
     (let q = get_q (g_st s) 0 in
      if q_ready q = 0 \<or> q_num q = 0 then (Inr 0, s)
      else notify_loop (\<lambda>s. pop_avail (get_q (g_st s) 0) (g_mem s)) (rng_serve rand) 0 s)"

section \<open>Lemmas\<close>

lemma rng_chain_keeps:
  "rng_chain rand k desc idx w s = (r, s') \<Longrightarrow> ram_len (g_mem s') = ram_len (g_mem s) \<and> g_st s' = g_st s"
proof (induction k arbitrary: idx w s)
  case (Suc k)
  show ?case
  proof (cases "read_desc desc idx (g_mem s)")
    case (Inl e)
    then show ?thesis using Suc.prems by simp
  next
    case (Inr d)
    define step where "step = (if has_flag (d_flags d) VRING_DESC_F_WRITE \<and> 0 < d_len d then
                   (case write_at (d_addr d) (rand (unat (d_len d)) (g_calls s)) (g_mem s) of
                      (r, m) \<Rightarrow> (map_sum id (\<lambda>_. saturating_add w (d_len d)) r,
                                 s\<lparr>g_mem := m, g_calls := Suc (g_calls s)\<rparr>))
                 else (Inr w, s))"
    obtain r1 s1 where st: "step = (r1, s1)" by (cases step) auto
    have k: "ram_len (g_mem s1) = ram_len (g_mem s) \<and> g_st s1 = g_st s"
      using st by (auto simp: step_def split: if_split_asm prod.splits dest!: write_at_len)
    have u: "rng_chain rand (Suc k) desc idx w s =
       (case step of (Inl e, s') \<Rightarrow> (Inl e, s')
         | (Inr w, s') \<Rightarrow> if has_flag (d_flags d) VRING_DESC_F_NEXT then rng_chain rand k desc (d_next d) w s' else (Inr w, s'))"
      by (simp add: Inr step_def)
    show ?thesis
    proof (cases "\<exists>w'. r1 = Inr w' \<and> has_flag (d_flags d) VRING_DESC_F_NEXT")
      case True
      then obtain w' where "rng_chain rand k desc (d_next d) w' s1 = (r, s')" using Suc.prems u st by auto
      from Suc.IH [OF this] show ?thesis using k by simp
    next
      case False
      then have "s' = s1" using Suc.prems u st by (auto split: sum.splits)
      then show ?thesis using k by simp
    qed
  qed
qed simp

definition rng_served :: "nat \<Rightarrow> rng_state \<Rightarrow> rng_state \<Rightarrow> bool" where
  "rng_served k s s' \<longleftrightarrow>
     ram_len (g_mem s') = ram_len (g_mem s) \<and> ring_view (g_st s') = ring_view (g_st s) \<and>
     length (queues (g_st s')) = length (queues (g_st s)) \<and>
     (queues (g_st s) \<noteq> [] \<longrightarrow>
        q_last_avail (get_q (g_st s') 0) = q_last_avail (get_q (g_st s) 0) + of_nat k)"

lemma rng_serve_served:
  assumes sv: "rng_serve rand head s = (r, s')"
  shows "r = Inr u \<Longrightarrow> rng_served 1 s s'" and "r = Inl e \<Longrightarrow> rng_served 0 s s'"
proof -
  let ?q = "get_q (g_st s) 0"
  obtain r1 s1 where c: "rng_chain rand 16 (q_desc ?q) head 0 s = (r1, s1)"
    by (cases "rng_chain rand 16 (q_desc ?q) head 0 s") auto
  note k = rng_chain_keeps [OF c]
  consider (fail) e' where "r = Inl e'" "ram_len (g_mem s') = ram_len (g_mem s1)" "g_st s' = g_st s"
    | (ok) "r = Inr ()" "ram_len (g_mem s') = ram_len (g_mem s1)" "g_st s' = set_last_avail 0 (q_last_avail ?q + 1) (g_st s)"
  proof (cases r1)
    case (Inl e')
    then have "r = Inl e'" "s' = s1" using sv c by (auto simp: rng_serve_def Let_def)
    then show ?thesis using that(1) k by simp
  next
    case (Inr w)
    obtain r2 m where p: "used_push (q_used ?q) (q_num ?q) head w (g_mem s1) = (r2, m)"
      by (cases "used_push (q_used ?q) (q_num ?q) head w (g_mem s1)") auto
    note l = used_push_len [OF p]
    show ?thesis
    proof (cases r2)
      case (Inl e')
      then have "r = Inl e'" "s' = s1\<lparr>g_mem := m\<rparr>" using sv c p Inr by (auto simp: rng_serve_def Let_def)
      then show ?thesis using that(1) l k by simp
    next
      case (Inr v)
      then have "r = Inr ()" "s' = s1\<lparr>g_mem := m, g_st := set_last_avail 0 (q_last_avail ?q + 1) (g_st s1)\<rparr>"
        using sv c p \<open>r1 = Inr w\<close> by (auto simp: rng_serve_def Let_def)
      then show ?thesis using that(2) l k by simp
    qed
  qed
  note cases = this
  show "rng_served 1 s s'" if "r = Inr u"
    using cases that k by cases (simp_all add: rng_served_def get_q_set_last_avail)
  show "rng_served 0 s s'" if "r = Inl e"
    using cases that k by cases (simp_all add: rng_served_def)
qed

interpretation rngc: chain_server "\<lambda>s. pop_avail (get_q (g_st s) 0) (g_mem s)" "rng_serve rand" rng_served
  for rand
  using rng_serve_served by unfold_locales (auto simp: rng_served_def)

lemma rng_notify_served: "\<exists>k \<le> 66. rng_served k s (snd (rng_handle_notify rand s))"
proof (cases "q_ready (get_q (g_st s) 0) = 0 \<or> q_num (get_q (g_st s) 0) = 0")
  case True
  then show ?thesis by (intro exI [of _ 0]) (auto simp: rng_handle_notify_def Let_def rng_served_def)
next
  case False
  let ?loop = "notify_loop (\<lambda>s. pop_avail (get_q (g_st s) 0) (g_mem s)) (rng_serve rand) 0 s"
  obtain k where "k \<le> round_budget 0" "rng_served k s (snd ?loop)" using rngc.loop_served by blast
  moreover have "rng_handle_notify rand s = ?loop" using False by (simp only: rng_handle_notify_def Let_def if_False)
  ultimately show ?thesis using round_budget_le [of 0] by (intro exI [of _ k]) simp
qed

interpretation rngd: queue_device "\<lambda>(u :: unit) s. snd (rng_handle_notify rand s)" g_mem g_st "\<lambda>_. True"
  for rand
  using rng_notify_served by unfold_locales (auto simp: rng_served_def)

end
