(* ===== verification/Serial.thy ===== *)
theory Serial
  imports Bus
begin

text \<open>
  The 16550 UART of the first serial port, \<^verbatim>\<open>src/crates/fluxvm-hypervisor/src/devices/serial.rs\<close>: its registers, the
  receive queue the host fills, the interrupt bits and the eventfd behind them. Standard output is
  the list of bytes written, the eventfd a counter of signals.
\<close>

section \<open>Definitions\<close>

definition IIR_NO_INT :: u8 where "IIR_NO_INT = 0x01"
definition IIR_THR :: u8 where "IIR_THR = 0x02"
definition IIR_RDA :: u8 where "IIR_RDA = 0x04"
definition IIR_FIFO_BITS :: u8 where "IIR_FIFO_BITS = 0xc0"
definition IER_RDA :: u8 where "IER_RDA = 0x01"
definition IER_THR :: u8 where "IER_THR = 0x02"

lemmas serial_bits = IIR_NO_INT_def IIR_THR_def IIR_RDA_def IIR_FIFO_BITS_def IER_RDA_def IER_THR_def

record Serial16550 =
  ser_base :: u16
  ser_irq :: u32
  ser_ier :: u8
  ser_lcr :: u8
  ser_mcr :: u8
  ser_scratch :: u8
  ser_dll :: u8
  ser_dlm :: u8
  ser_fcr :: u8
  ser_iir :: u8
  ser_rx :: "u8 list"
  ser_evt :: int
  ser_signals :: nat
  ser_stdout :: "u8 list"

definition com1 :: "int \<Rightarrow> Serial16550" where
  "com1 evt =
     \<lparr>ser_base = 0x3f8, ser_irq = 4, ser_ier = 0, ser_lcr = 0x03, ser_mcr = 0x08, ser_scratch = 0,
      ser_dll = 0x0c, ser_dlm = 0, ser_fcr = 0, ser_iir = IIR_NO_INT, ser_rx = [], ser_evt = evt,
      ser_signals = 0, ser_stdout = []\<rparr>"

definition ser_offset :: "Serial16550 \<Rightarrow> u16 \<Rightarrow> u16" where
  "ser_offset s port = saturating_sub port (ser_base s)"

definition ser_interrupt_evt :: "Serial16550 \<Rightarrow> int option" where
  "ser_interrupt_evt s = (if 0 \<le> ser_evt s then Some (ser_evt s) else None)"

definition rx_len :: "Serial16550 \<Rightarrow> nat" where
  "rx_len s = length (ser_rx s)"

definition irq_pending :: "Serial16550 \<Rightarrow> bool" where
  "irq_pending s \<longleftrightarrow> ser_iir s \<noteq> IIR_NO_INT"

definition trigger_interrupt :: "Serial16550 \<Rightarrow> Serial16550" where
  "trigger_interrupt s = (if ser_evt s < 0 then s else s\<lparr>ser_signals := Suc (ser_signals s)\<rparr>)"

text \<open>\<^verbatim>\<open>thr_empty_interrupt\<close> and \<^verbatim>\<open>recv_data_interrupt\<close> differ only in their two bits.\<close>

definition arm_interrupt :: "u8 \<Rightarrow> u8 \<Rightarrow> Serial16550 \<Rightarrow> Serial16550" where
  "arm_interrupt enable cause s =
     (if ser_ier s AND enable = 0 then s
      else if ser_iir s AND cause \<noteq> 0 then s
      else trigger_interrupt (s\<lparr>ser_iir := (ser_iir s AND NOT IIR_NO_INT) OR cause\<rparr>))"

definition thr_empty_interrupt :: "Serial16550 \<Rightarrow> Serial16550" where
  "thr_empty_interrupt = arm_interrupt IER_THR IIR_THR"

definition recv_data_interrupt :: "Serial16550 \<Rightarrow> Serial16550" where
  "recv_data_interrupt = arm_interrupt IER_RDA IIR_RDA"

fun push_bytes :: "u8 list \<Rightarrow> u8 list \<Rightarrow> u8 list" where
  "push_bytes q [] = q"
| "push_bytes q (b # bs) = push_bytes (if length q < 1024 then q @ [b] else q) bs"

definition push_rx :: "u8 list \<Rightarrow> Serial16550 \<Rightarrow> Serial16550" where
  "push_rx bytes s =
     (let q = push_bytes (ser_rx s) bytes; s' = s\<lparr>ser_rx := q\<rparr> in
      if ser_rx s = [] \<and> q \<noteq> [] then recv_data_interrupt s' else s')"

definition ser_port_range :: "Serial16550 \<Rightarrow> u16 \<times> u16" where
  "ser_port_range s = (ser_base s, ser_base s + 7)"

definition dlab :: "Serial16550 \<Rightarrow> bool" where
  "dlab s \<longleftrightarrow> ser_lcr s AND 0x80 \<noteq> 0"

definition first_byte :: "u8 list \<Rightarrow> u8" where
  "first_byte data = (case data of [] \<Rightarrow> 0 | b # _ \<Rightarrow> b)"

definition set_first :: "u8 \<Rightarrow> u8 list \<Rightarrow> u8 list" where
  "set_first v data = (case data of [] \<Rightarrow> [] | _ # bs \<Rightarrow> v # bs)"

definition ser_io_out :: "u16 \<Rightarrow> u8 list \<Rightarrow> (Serial16550, unit) op" where
  "ser_io_out port data s =
     (let v = first_byte data; off = ser_offset s port in
      (Inr (),
       if off = 0 then
         (if dlab s then s\<lparr>ser_dll := v\<rparr>
          else thr_empty_interrupt (s\<lparr>ser_stdout := ser_stdout s @ [v]\<rparr>))
       else if off = 1 then
         (if dlab s then s\<lparr>ser_dlm := v\<rparr> else s\<lparr>ser_ier := v AND 0x0f\<rparr>)
       else if off = 2 then s\<lparr>ser_fcr := v\<rparr>
       else if off = 3 then s\<lparr>ser_lcr := v\<rparr>
       else if off = 4 then s\<lparr>ser_mcr := v\<rparr>
       else if off = 7 then s\<lparr>ser_scratch := v\<rparr>
       else s))"

text \<open>A read of the data register, and of the interrupt identification register.\<close>

definition read_data :: "Serial16550 \<Rightarrow> u8 \<times> Serial16550" where
  "read_data s =
     (let b = (case ser_rx s of [] \<Rightarrow> 0 | x # _ \<Rightarrow> x); q = tl (ser_rx s); s' = s\<lparr>ser_rx := q\<rparr> in
      if q = [] then
        (let i = ser_iir s AND NOT IIR_RDA in
         (b, s'\<lparr>ser_iir := (if i AND (IIR_THR OR IIR_RDA) = 0 then IIR_NO_INT else i)\<rparr>))
      else (b, s'))"

definition read_iir :: "Serial16550 \<Rightarrow> u8 \<times> Serial16550" where
  "read_iir s =
     (let raw = ser_iir s;
          reported =
            (if raw = IIR_NO_INT then IIR_NO_INT
             else if raw AND IIR_RDA \<noteq> 0 then IIR_RDA
             else if raw AND IIR_THR \<noteq> 0 then IIR_THR
             else raw AND NOT IIR_NO_INT) in
      (reported OR IIR_FIFO_BITS, s\<lparr>ser_iir := IIR_NO_INT\<rparr>))"

definition line_status :: "Serial16550 \<Rightarrow> u8" where
  "line_status s = (0x20 OR 0x40) OR (if ser_rx s \<noteq> [] then 0x01 else 0)"

definition ser_reg :: "u16 \<Rightarrow> Serial16550 \<Rightarrow> u8 \<times> Serial16550" where
  "ser_reg off s =
     (if off = 0 then (if dlab s then (ser_dll s, s) else read_data s)
      else if off = 1 then ((if dlab s then ser_dlm s else ser_ier s), s)
      else if off = 2 then read_iir s
      else if off = 3 then (ser_lcr s, s)
      else if off = 4 then (ser_mcr s, s)
      else if off = 5 then (line_status s, s)
      else if off = 6 then (0x10 OR 0x20 OR 0x80, s)
      else if off = 7 then (ser_scratch s, s)
      else (0xff, s))"

definition ser_io_in :: "u16 \<Rightarrow> u8 list \<Rightarrow> (Serial16550, u8 list) op" where
  "ser_io_in port data s =
     (case ser_reg (ser_offset s port) s of (v, s') \<Rightarrow> (Inr (set_first v data), s'))"

definition serial_device :: "Serial16550 PioDevice" where
  "serial_device = \<lparr>port_range = ser_port_range, io_out = ser_io_out, io_in = ser_io_in\<rparr>"

section \<open>Lemmas\<close>

lemma push_bytes_take: "push_bytes q bs = q @ take (1024 - length q) bs"
proof (induction bs arbitrary: q)
  case (Cons b bs)
  show ?case
  proof (cases "length q < 1024")
    case True
    then have "1024 - length q = Suc (1024 - length (q @ [b]))" by simp
    then show ?thesis using Cons True by simp
  qed (use Cons in simp)
qed simp

lemma arm_fields [simp]:
  "ser_rx (arm_interrupt e c s) = ser_rx s"
  "ser_base (arm_interrupt e c s) = ser_base s"
  "ser_lcr (arm_interrupt e c s) = ser_lcr s"
  "ser_ier (arm_interrupt e c s) = ser_ier s"
  "ser_evt (arm_interrupt e c s) = ser_evt s"
  by (simp_all add: arm_interrupt_def trigger_interrupt_def)

lemma length_set_first [simp]: "length (set_first v data) = length data"
  by (simp add: set_first_def split: list.splits)

text \<open>
  The events of the port: bytes from the host, and accesses of the guest. A run also collects the
  bytes the queue accepted and the bytes data reads took from it.
\<close>

datatype ser_event = HostBytes "u8 list" | GuestOut u16 "u8 list" | GuestIn u16 "u8 list"

fun ser_step :: "ser_event \<Rightarrow> Serial16550 \<Rightarrow> Serial16550" where
  "ser_step (HostBytes bs) s = push_rx bs s"
| "ser_step (GuestOut port data) s = snd (ser_io_out port data s)"
| "ser_step (GuestIn port data) s = snd (ser_io_in port data s)"

definition accepted :: "ser_event \<Rightarrow> Serial16550 \<Rightarrow> u8 list" where
  "accepted e s = (case e of HostBytes bs \<Rightarrow> take (1024 - length (ser_rx s)) bs | _ \<Rightarrow> [])"

definition taken :: "ser_event \<Rightarrow> Serial16550 \<Rightarrow> u8 list" where
  "taken e s =
     (case e of
        GuestIn port data \<Rightarrow>
          if ser_offset s port = 0 \<and> \<not> dlab s \<and> ser_rx s \<noteq> [] then [first_byte (ser_rx s)] else []
      | _ \<Rightarrow> [])"

fun ser_trace :: "(ser_event \<Rightarrow> Serial16550 \<Rightarrow> u8 list) \<Rightarrow> ser_event list \<Rightarrow> Serial16550 \<Rightarrow> u8 list" where
  "ser_trace f [] s = []"
| "ser_trace f (e # es) s = f e s @ ser_trace f es (ser_step e s)"

lemma ser_step_rx: "taken e s @ ser_rx (ser_step e s) = ser_rx s @ accepted e s"
proof (cases e)
  case (HostBytes bs)
  then show ?thesis
    by (simp add: push_rx_def Let_def accepted_def taken_def push_bytes_take recv_data_interrupt_def)
next
  case (GuestOut port data)
  then show ?thesis
    by (simp add: ser_io_out_def Let_def accepted_def taken_def thr_empty_interrupt_def)
next
  case (GuestIn port data)
  have "ser_rx (snd (read_data s)) = tl (ser_rx s)" by (simp add: read_data_def Let_def)
  then show ?thesis using GuestIn
    by (cases "ser_rx s") (auto simp: ser_io_in_def ser_reg_def read_iir_def Let_def accepted_def taken_def
        first_byte_def split: prod.splits)
qed

text \<open>An empty queue has no receive interrupt pending, so the next byte can raise one.\<close>

definition ser_inv :: "Serial16550 \<Rightarrow> bool" where
  "ser_inv s \<longleftrightarrow> (ser_rx s = [] \<longrightarrow> ser_iir s AND IIR_RDA = 0)"

lemma iir_bit_facts:
  "IIR_NO_INT AND IIR_RDA = 0"
  "((x AND NOT IIR_NO_INT) OR IIR_THR) AND IIR_RDA = x AND IIR_RDA"
  "(x AND NOT IIR_RDA) AND IIR_RDA = 0"
proof -
  have c: "(NOT 1 :: u8) AND 4 = 4" "(2 :: u8) AND 4 = 0" by simp_all
  show "IIR_NO_INT AND IIR_RDA = 0" by (simp add: serial_bits)
  show "(x AND NOT IIR_RDA) AND IIR_RDA = 0" by (simp add: and.assoc)
  have "((x AND NOT 1) OR 2) AND (4 :: u8) = (x AND (NOT 1 AND 4)) OR (2 AND 4)"
    by (simp only: bit.conj_disj_distrib2 and.assoc)
  then show "((x AND NOT IIR_NO_INT) OR IIR_THR) AND IIR_RDA = x AND IIR_RDA"
    by (simp only: serial_bits c or.right_neutral)
qed

lemma ser_inv_arm: "ser_inv s \<Longrightarrow> ser_inv (thr_empty_interrupt s)"
  by (simp add: ser_inv_def thr_empty_interrupt_def arm_interrupt_def trigger_interrupt_def iir_bit_facts)

lemma ser_inv_push: "ser_inv s \<Longrightarrow> ser_inv (push_rx bs s)"
  by (auto simp: ser_inv_def push_rx_def Let_def recv_data_interrupt_def push_bytes_take)

lemma ser_inv_step: "ser_inv s \<Longrightarrow> ser_inv (ser_step e s)"
proof (cases e)
  case (GuestOut port data)
  assume i: "ser_inv s"
  have "ser_inv (s\<lparr>ser_stdout := out\<rparr>)" for out using i by (simp add: ser_inv_def)
  then show ?thesis using GuestOut i
    by (auto simp: ser_io_out_def Let_def ser_inv_arm) (simp_all add: ser_inv_def)
next
  case (GuestIn port data)
  assume i: "ser_inv s"
  have "ser_inv (snd (read_data s))" "ser_inv (snd (read_iir s))"
    by (auto simp: ser_inv_def read_data_def read_iir_def Let_def iir_bit_facts)
  then show ?thesis using GuestIn i
    by (auto simp: ser_io_in_def ser_reg_def split: prod.splits)
qed (simp add: ser_inv_push)

interpretation serial_runs: step_system ser_step ser_inv
  by unfold_locales (rule ser_inv_step)

lemma com1_inv: "ser_inv (com1 evt)"
  by (simp add: ser_inv_def com1_def iir_bit_facts)

lemma ser_step_base: "ser_base (ser_step e s) = ser_base s"
  by (cases e) (auto simp: push_rx_def ser_io_out_def ser_io_in_def ser_reg_def read_data_def read_iir_def Let_def
      recv_data_interrupt_def thr_empty_interrupt_def split: prod.splits)

interpretation serial_bus: bus_device ser_port_range ser_io_out ser_io_in ser_inv
proof unfold_locales
  fix x data s
  show "ser_port_range (snd (ser_io_out x data s)) = ser_port_range s"
    using ser_step_base [of "GuestOut x data" s] by (simp add: ser_port_range_def)
  show "ser_port_range (snd (ser_io_in x data s)) = ser_port_range s"
    using ser_step_base [of "GuestIn x data" s] by (simp add: ser_port_range_def)
  show "ser_inv s \<Longrightarrow> ser_inv (snd (ser_io_out x data s))" using ser_inv_step [of s "GuestOut x data"] by simp
  show "ser_inv s \<Longrightarrow> ser_inv (snd (ser_io_in x data s))" using ser_inv_step [of s "GuestIn x data"] by simp
qed (auto simp: ser_io_in_def split: prod.splits)

section \<open>Properties\<close>




end
