(* ===== verification/Cmos.thy ===== *)
theory Cmos
  imports Bus
begin

text \<open>
  The CMOS clock, \<^verbatim>\<open>src/crates/fluxvm-hypervisor/src/devices/cmos.rs\<close>: the index and data ports, and the time
  registers that are recomputed from the host clock on a read. The clock reading, in seconds since
  1970, is an argument; the civil-date arithmetic is exact because the code's 64-bit values are far
  from overflow for every clock reading.
\<close>

section \<open>Definitions\<close>

record CmosRtc =
  cm_addr :: u8
  cm_data :: "u8 list"

definition cmos_new :: CmosRtc where
  "cmos_new = \<lparr>cm_addr = 0, cm_data = (replicate 128 0)[0x0a := 0x26, 0x0b := 0x02, 0x0d := 0x80]\<rparr>"

definition to_bcd :: "u8 \<Rightarrow> u8" where
  "to_bcd v = push_bit 4 (v div 10) OR (v mod 10)"

text \<open>
  The civil date of a day number. The first division truncates toward zero, as the code's does, so
  the branch for negative numbers is written out.
\<close>

definition day_era :: "nat \<Rightarrow> int" where
  "day_era days =
     (let z = int days + 719468 in
      if 0 \<le> z then z div 146097 else - ((146096 - z) div 146097))"

definition day_of_era :: "nat \<Rightarrow> nat" where
  "day_of_era days = nat (int days + 719468 - day_era days * 146097)"

definition year_of_era :: "nat \<Rightarrow> nat" where
  "year_of_era doe = (doe - doe div 1460 + doe div 36524 - doe div 146096) div 365"

definition day_of_year :: "nat \<Rightarrow> nat" where
  "day_of_year doe = (let yoe = year_of_era doe in doe - (365 * yoe + yoe div 4 - yoe div 100))"

definition civil :: "nat \<Rightarrow> int \<times> nat \<times> nat" where
  "civil days =
     (let doe = day_of_era days;
          yoe = year_of_era doe;
          y = int yoe + day_era days * 400;
          doy = day_of_year doe;
          mp = (5 * doy + 2) div 153;
          d = doy - (153 * mp + 2) div 5 + 1;
          m = (if mp < 10 then mp + 3 else mp - 9) in
      (if m \<le> 2 then y + 1 else y, m, d))"

definition refresh_time :: "nat \<Rightarrow> u8 list \<Rightarrow> u8 list" where
  "refresh_time secs data =
     (let days = secs div 86400; tod = secs mod 86400;
          hour = of_nat (tod div 3600); mnt = of_nat (tod mod 3600 div 60); sec = of_nat (tod mod 60);
          dow = of_nat ((days + 4) mod 7) in
      case civil days of
        (y, m, d) \<Rightarrow>
          (let data' = data[0x00 := to_bcd sec, 0x02 := to_bcd mnt, 0x04 := to_bcd hour, 0x06 := to_bcd dow,
                            0x07 := to_bcd (of_nat d), 0x08 := to_bcd (of_nat m),
                            0x09 := to_bcd (of_int (y mod 100))] in
           data'[0x0a := (data' ! 0x0a) AND NOT 0x80]))"

definition cmos_port_range :: "CmosRtc \<Rightarrow> u16 \<times> u16" where
  "cmos_port_range s = (0x70, 0x71)"

definition cmos_io_out :: "u16 \<Rightarrow> u8 list \<Rightarrow> (CmosRtc, unit) op" where
  "cmos_io_out port data s =
     (let v = (case data of [] \<Rightarrow> 0 | b # _ \<Rightarrow> b) in
      (Inr (),
       if port = 0x70 then s\<lparr>cm_addr := v AND 0x7f\<rparr>
       else if port = 0x71 then
         (let idx = unat (cm_addr s AND 0x7f) in
          if idx < 128 then s\<lparr>cm_data := (cm_data s)[idx := v]\<rparr> else s)
       else s))"

definition cmos_reg :: "nat \<Rightarrow> u16 \<Rightarrow> CmosRtc \<Rightarrow> u8 \<times> CmosRtc" where
  "cmos_reg secs port s =
     (if port = 0x70 then (cm_addr s, s)
      else if port = 0x71 then
        (let idx = unat (cm_addr s AND 0x7f);
             mem = (if idx \<le> 0x09 \<or> idx = 0x0a then refresh_time secs (cm_data s) else cm_data s) in
         ((if idx < length mem then mem ! idx else 0), s\<lparr>cm_data := mem\<rparr>))
      else (0xff, s))"

definition cmos_io_in :: "nat \<Rightarrow> u16 \<Rightarrow> u8 list \<Rightarrow> (CmosRtc, u8 list) op" where
  "cmos_io_in secs port data s =
     (case cmos_reg secs port s of
        (v, s') \<Rightarrow> (Inr (case data of [] \<Rightarrow> [] | _ # bs \<Rightarrow> v # bs), s'))"

section \<open>The calendar\<close>

definition leap :: "nat \<Rightarrow> bool" where
  "leap y \<longleftrightarrow> y mod 4 = 0 \<and> (y mod 100 \<noteq> 0 \<or> y mod 400 = 0)"

definition month_len :: "nat \<Rightarrow> nat \<Rightarrow> nat" where
  "month_len y m = (if m = 2 then (if leap y then 29 else 28) else if m \<in> {4, 6, 9, 11} then 30 else 31)"

text \<open>Days in the years from 1970, and in the months of a year before one.\<close>

primrec year_days :: "nat \<Rightarrow> nat" where
  "year_days 0 = 0"
| "year_days (Suc n) = year_days n + (if leap (1970 + n) then 366 else 365)"

primrec month_days :: "nat \<Rightarrow> nat \<Rightarrow> nat" where
  "month_days y 0 = 0"
| "month_days y (Suc m) = month_days y m + (if m = 0 then 0 else month_len y m)"

lemma leaps_Suc:
  "Suc y div 4 + Suc y div 400 + y div 100 = y div 4 + y div 400 + Suc y div 100 + (if leap (Suc y) then 1 else 0)"
proof -
  have dv: "100 dvd Suc y" if "400 dvd Suc y" by (rule dvd_trans [OF _ that]) simp
  have dv4: "4 dvd Suc y" if "100 dvd Suc y" by (rule dvd_trans [OF _ that]) simp
  have s: "Suc y div 4 = y div 4 + (if 4 dvd Suc y then 1 else 0)"
    "Suc y div 100 = y div 100 + (if 100 dvd Suc y then 1 else 0)"
    "Suc y div 400 = y div 400 + (if 400 dvd Suc y then 1 else 0)"
    by (simp_all only: div_Suc dvd_eq_mod_eq_0) simp_all
  have l: "leap (Suc y) \<longleftrightarrow> 4 dvd Suc y \<and> (\<not> 100 dvd Suc y \<or> 400 dvd Suc y)"
    by (simp only: leap_def dvd_eq_mod_eq_0)
  consider "400 dvd Suc y" "100 dvd Suc y" "4 dvd Suc y" | "\<not> 400 dvd Suc y" "100 dvd Suc y" "4 dvd Suc y"
    | "\<not> 400 dvd Suc y" "\<not> 100 dvd Suc y" "4 dvd Suc y" | "\<not> 400 dvd Suc y" "\<not> 100 dvd Suc y" "\<not> 4 dvd Suc y"
    using dv dv4 by blast
  then show ?thesis unfolding s l by cases (simp_all only: if_True if_False simp_thms)
qed

lemma year_days_closed:
  "year_days n + 477 + (1969 + n) div 100 = 365 * n + (1969 + n) div 4 + (1969 + n) div 400"
proof (induction n)
  case (Suc n)
  have eq: "Suc (1969 + n) = 1970 + n" "1969 + Suc n = 1970 + n" by simp_all
  show ?case using Suc leaps_Suc [of "1969 + n"]
    unfolding eq year_days.simps mult_Suc_right by (cases "leap (1970 + n)") (simp_all only: if_True if_False)
qed simp

text \<open>The parts of a day within its 400-year era: century, four-year cycle, day of the cycle.\<close>

lemma era_parts:
  assumes "(doe :: nat) < 146097"
  obtains c k t where "doe = 36524 * c + 1461 * k + t" and "c \<le> 3" and "k \<le> 24" and "t \<le> 1460"
    and "k = 24 \<and> c < 3 \<longrightarrow> t < 1460" and "doe div 36524 = c + doe div 146096"
proof (cases "doe = 146096")
  case True
  show ?thesis by (rule that [of 3 24 1460]) (simp_all add: True)
next
  case False
  define c where "c = doe div 36524"
  define r where "r = doe mod 36524"
  define k where "k = r div 1461"
  define t where "t = r mod 1461"
  have lt: "doe < 146096" using assms False by simp
  have dc: "doe = 36524 * c + r" and r: "r < 36524" by (simp_all add: c_def r_def)
  have rk: "r = 1461 * k + t" and t: "t < 1461" by (simp_all add: k_def t_def)
  have "c \<le> 3" using dc lt by linarith
  moreover have k: "k \<le> 24" using rk r by linarith
  moreover have "t < 1460" if "k = 24" using rk r that by linarith
  moreover have "doe div 36524 = c + doe div 146096" using lt by (simp add: c_def)
  ultimately show ?thesis using that [of c k t] dc rk t by simp
qed

lemma year_of_era_parts:
  assumes doe: "doe = 36524 * c + 1461 * k + t" and b: "c \<le> 3" "k \<le> 24" "t \<le> 1460"
    and q: "doe div 36524 = c + doe div 146096"
  defines "e \<equiv> (24 * c + k + t) div 1460"
  shows "year_of_era doe = 100 * c + 4 * k + (t - e) div 365" and "e \<le> 1" and "e = 1 \<Longrightarrow> 1364 \<le> t"
proof -
  have "24 * c + k + t < 2 * 1460" using b by linarith
  then show e: "e \<le> 1" unfolding e_def by (simp add: div_less_iff_less_mult flip: less_Suc_eq_le)
  have "1460 * e \<le> 24 * c + k + t" unfolding e_def by simp
  then show et: "e = 1 \<Longrightarrow> 1364 \<le> t" using b by linarith
  have "doe = 1460 * (25 * c + k) + (24 * c + k + t)" using doe by simp
  then have d: "doe div 1460 = 25 * c + k + e" by (simp add: e_def)
  have le: "e \<le> t" using et e by (cases "e = 0") auto
  obtain u where u: "t = e + u" using le le_Suc_ex by blast
  have "doe - doe div 1460 + doe div 36524 - doe div 146096 = doe - (25 * c + k + e) + c"
    unfolding d q by simp
  also have "\<dots> = 365 * (100 * c + 4 * k) + (t - e)" using doe u by simp
  finally have "doe - doe div 1460 + doe div 36524 - doe div 146096 = 365 * (100 * c + 4 * k) + (t - e)" .
  moreover have "(365 * a + b) div 365 = a + b div 365" for a b :: nat by simp
  ultimately show "year_of_era doe = 100 * c + 4 * k + (t - e) div 365" unfolding year_of_era_def by metis
qed

text \<open>Year and day of the year of a day in an era; the day is 365 only before a leap year's end.\<close>

lemma era_year:
  assumes "doe < 146097"
  shows "365 * year_of_era doe + year_of_era doe div 4 + day_of_year doe = doe + year_of_era doe div 100"
    and "year_of_era doe < 400" and "day_of_year doe \<le> 365"
    and "day_of_year doe = 365 \<Longrightarrow> leap (year_of_era doe + 1)"
proof -
  obtain c k t where p: "doe = 36524 * c + 1461 * k + t" "c \<le> 3" "k \<le> 24" "t \<le> 1460"
    "k = 24 \<and> c < 3 \<longrightarrow> t < 1460" "doe div 36524 = c + doe div 146096"
    using era_parts [OF assms] by blast
  define e where "e = (24 * c + k + t) div 1460"
  define j where "j = (t - e) div 365"
  have y: "year_of_era doe = 100 * c + (4 * k + j)" and e: "e \<le> 1" and et: "e = 1 \<Longrightarrow> 1364 \<le> t"
    using year_of_era_parts [OF p(1-4,6)] by (auto simp: e_def j_def)
  have last: "t = 1460 \<Longrightarrow> e = 1" using e unfolding e_def by (simp add: div_eq_dividend_iff)
  have le: "e \<le> t" using et e by (cases "e = 0") auto
  then obtain u where u: "t = e + u" using le_Suc_ex by blast
  have uj: "365 * j \<le> u" "u < 365 * j + 365" using u unfolding j_def by auto
  have j: "365 * j \<le> t" "t \<le> 365 * j + 365" using uj u e by linarith+
  have j3: "j \<le> 3"
  proof (rule ccontr)
    assume "\<not> j \<le> 3"
    then have "t = 1460" using j(1) p(4) by linarith
    then show False using last u uj \<open>\<not> j \<le> 3\<close> by linarith
  qed
  have full: "t = 1460 \<and> j = 3" if "t = 365 * j + 365"
  proof -
    have "e = 1" using that uj u e by linarith
    then have "1364 \<le> 365 * j + 365" using et that by simp
    then have "j = 3" using j3 by linarith
    then show ?thesis using that by simp
  qed
  show "year_of_era doe < 400" using y p(2,3) j3 by linarith
  have "4 * k + j \<le> 99" using p(3) j3 by linarith
  then have c100: "year_of_era doe div 100 = c" by (simp add: y)
  have "year_of_era doe = 4 * (25 * c + k) + j" using y by simp
  then have c4: "year_of_era doe div 4 = 25 * c + k" using j3 by simp
  have d: "day_of_year doe = t - 365 * j"
    unfolding day_of_year_def Let_def c100 c4 using y p(1) by linarith
  show "365 * year_of_era doe + year_of_era doe div 4 + day_of_year doe = doe + year_of_era doe div 100"
    unfolding c100 c4 d using y p(1) j(1) by linarith
  show "day_of_year doe \<le> 365" using d j(2) by linarith
  show "leap (year_of_era doe + 1)" if "day_of_year doe = 365"
  proof -
    have "t = 365 * j + 365" using that d j(1) by linarith
    then have t: "t = 1460" "j = 3" using full by blast+
    then have "year_of_era doe + 1 = 4 * (25 * c + k + 1)" using y by simp
    moreover have "k \<noteq> 24 \<or> c = 3" using p(2,5) t by linarith
    ultimately show ?thesis
    proof (cases "k = 24")
      case True
      then have "year_of_era doe + 1 = 400" using y t \<open>k \<noteq> 24 \<or> c = 3\<close> by simp
      then show ?thesis by (simp only: leap_def) simp
    next
      case False
      then have "k < 24" using p(3) by simp
      then have k: "4 * (k + 1) < 100" by simp
      have eq: "year_of_era doe + 1 = 100 * c + 4 * (k + 1)" using y t by simp
      have "(year_of_era doe + 1) mod 100 = 4 * (k + 1)" unfolding eq using k by simp
      moreover have "(year_of_era doe + 1) mod 4 = 0" using y t by presburger
      ultimately show ?thesis by (simp only: leap_def) simp
    qed
  qed
qed

section \<open>The date of a day number\<close>

lemma day_era_parts:
  "days + 719468 = 146097 * nat (day_era days) + day_of_era days" "day_of_era days < 146097" "0 \<le> day_era days"
proof -
  define z where "z = days + 719468"
  have iz: "int days + 719468 = int z" by (simp add: z_def)
  have e: "day_era days = int (z div 146097)" unfolding day_era_def iz by (simp add: zdiv_int)
  have "int z = int (z div 146097) * 146097 + int (z mod 146097)"
    using arg_cong [OF div_mult_mod_eq [of z 146097], of int] by (simp only: of_nat_add of_nat_mult of_nat_numeral)
  then have "int z - int (z div 146097) * 146097 = int (z mod 146097)" by linarith
  then have d: "day_of_era days = z mod 146097" unfolding day_of_era_def iz e by simp
  show "days + 719468 = 146097 * nat (day_era days) + day_of_era days" unfolding e d z_def [symmetric] by simp
  show "day_of_era days < 146097" by (simp add: d)
  show "0 \<le> day_era days" by (simp add: e)
qed

lemma month_table:
  "month_days y 1 = 0" "month_days y 2 = 31"
  "month_days y 3 = 59 + of_bool (leap y)" "month_days y 4 = 90 + of_bool (leap y)"
  "month_days y 5 = 120 + of_bool (leap y)" "month_days y 6 = 151 + of_bool (leap y)"
  "month_days y 7 = 181 + of_bool (leap y)" "month_days y 8 = 212 + of_bool (leap y)"
  "month_days y 9 = 243 + of_bool (leap y)" "month_days y 10 = 273 + of_bool (leap y)"
  "month_days y 11 = 304 + of_bool (leap y)" "month_days y 12 = 334 + of_bool (leap y)"
  by (simp_all add: month_len_def eval_nat_numeral)

lemma month_of_day:
  assumes doy: "doy \<le> 365" and mp: "mp = (5 * doy + 2) div 153"
  shows "mp < 10 \<Longrightarrow> month_days y (mp + 3) + (doy - (153 * mp + 2) div 5) = 59 + of_bool (leap y) + doy \<and>
           doy - (153 * mp + 2) div 5 < month_len y (mp + 3)"
    and "\<not> mp < 10 \<Longrightarrow> mp \<le> 11 \<and> month_days y (mp - 9) + (doy - (153 * mp + 2) div 5) + 306 = doy \<and>
           (doy < 365 \<or> leap y \<longrightarrow> doy - (153 * mp + 2) div 5 < month_len y (mp - 9))"
proof -
  have lo: "153 * mp \<le> 5 * doy + 2" and hi: "5 * doy + 2 < 153 * mp + 153" unfolding mp by auto
  have "mp < 12" using lo doy by linarith
  then have "mp \<in> {0, 1, 2, 3, 4, 5, 6, 7, 8, 9, 10, 11}"
    by (simp add: numeral_eq_Suc less_Suc_eq)
  then have c: "mp = 0 \<or> mp = 1 \<or> mp = 2 \<or> mp = 3 \<or> mp = 4 \<or> mp = 5 \<or> mp = 6 \<or> mp = 7 \<or> mp = 8 \<or> mp = 9 \<or> mp = 10 \<or> mp = 11"
    by simp
  show "month_days y (mp + 3) + (doy - (153 * mp + 2) div 5) = 59 + of_bool (leap y) + doy \<and>
           doy - (153 * mp + 2) div 5 < month_len y (mp + 3)" if "mp < 10"
    using c that lo hi by (elim disjE) (auto simp: month_table month_len_def)
  show "mp \<le> 11 \<and> month_days y (mp - 9) + (doy - (153 * mp + 2) div 5) + 306 = doy \<and>
           (doy < 365 \<or> leap y \<longrightarrow> doy - (153 * mp + 2) div 5 < month_len y (mp - 9))" if "\<not> mp < 10"
    using c that lo hi doy month_table(1) [of y] by (elim disjE) (auto simp: month_table month_len_def)
qed

lemma era_leap: "leap (yoe + 400 * e) = leap yoe"
proof -
  have "(yoe + 400 * e) mod 4 = yoe mod 4" "(yoe + 400 * e) mod 100 = yoe mod 100"
    using mod_mult_self2 [of yoe 4 "100 * e"] mod_mult_self2 [of yoe 100 "4 * e"] by simp_all
  then show ?thesis by (simp add: leap_def)
qed

lemma era_div: "((yoe :: nat) + 400 * e) div 4 = yoe div 4 + 100 * e" "(yoe + 400 * e) div 100 = yoe div 100 + 4 * e"
  using div_mult_self2 [of 4 yoe "100 * e"] div_mult_self2 [of 100 yoe "4 * e"] by simp_all

lemma leaps_of_year:
  assumes "(yoe :: nat) < 400"
  shows "(yoe + 400 * e) div 4 + (yoe + 400 * e) div 400 = yoe div 4 + 101 * e"
  using assms by (simp add: era_div)

text \<open>The year that starts in March, and the equation it satisfies.\<close>

definition march_year :: "nat \<Rightarrow> nat" where
  "march_year days = year_of_era (day_of_era days) + 400 * nat (day_era days)"

text \<open>Three sums, over plain variables in place of the quotients.\<close>

lemma era_sum:
  "(days :: nat) + 719468 = 146097 * E + doe \<Longrightarrow> 365 * q + q4 + doy = doe + q100 \<Longrightarrow> a + b = q4 + 101 * E \<Longrightarrow>
   c = q100 + 4 * E \<Longrightarrow> 365 * (q + 400 * E) + a + b + doy = days + 719468 + c"
  by simp

lemma spring_sum:
  "365 * (1970 + n) + a + b + doy = (days :: nat) + 719468 + c \<Longrightarrow> a + b + c' = a' + b' + c + l \<Longrightarrow>
   yd + 477 + c' = 365 * n + a' + b' \<Longrightarrow> yd + l + 59 + doy = days"
  by simp

lemma winter_sum:
  "365 * (1969 + n) + a + b + doy = (days :: nat) + 719468 + c \<Longrightarrow> yd + 477 + c = 365 * n + a + b \<Longrightarrow>
   yd + doy = days + 306"
  by simp

lemma march_year_days:
  "365 * march_year days + march_year days div 4 + march_year days div 400 + day_of_year (day_of_era days)
     = days + 719468 + march_year days div 100"
proof -
  define E where "E = nat (day_era days)"
  define q where "q = year_of_era (day_of_era days)"
  note d = day_era_parts [of days]
  note y = era_year(1,2) [OF d(2), folded q_def]
  have my: "march_year days = q + 400 * E" by (simp add: march_year_def q_def E_def)
  show ?thesis unfolding my
    by (rule era_sum [OF d(1) [folded E_def] y(1) leaps_of_year [OF y(2), of E] era_div(2) [of q E]])
qed

lemma march_year_range:
  assumes "doy = day_of_year (day_of_era days)" and "mp = (5 * doy + 2) div 153"
  shows "mp < 10 \<Longrightarrow> 1970 \<le> march_year days" and "1969 \<le> march_year days"
proof -
  define Y where "Y = march_year days"
  have eq: "365 * Y + Y div 4 + Y div 400 + doy = days + 719468 + Y div 100"
    using march_year_days [of days] assms(1) by (simp add: Y_def)
  have doy: "doy \<le> 365" unfolding assms(1) by (rule era_year(3)) (rule day_era_parts(2))
  have "4 * (Y div 4) \<le> Y" "Y div 400 \<le> Y div 100" by (simp_all add: div_le_mono2)
  then have "719468 \<le> 365 * Y + Y div 4 + doy" using eq by linarith
  then have "1969 \<le> Y" using doy \<open>4 * (Y div 4) \<le> Y\<close> by linarith
  then show "1969 \<le> march_year days" by (simp add: Y_def)
  show "1970 \<le> march_year days" if "mp < 10"
  proof (rule ccontr)
    assume "\<not> 1970 \<le> march_year days"
    then have "Y = 1969" using \<open>1969 \<le> Y\<close> by (simp add: Y_def)
    then have "306 \<le> doy" using eq by simp
    moreover have "5 * doy + 2 < 153 * 10" using that unfolding assms(2) by (simp add: div_less_iff_less_mult)
    ultimately show False by linarith
  qed
qed

section \<open>Properties\<close>



text \<open>
  The day-of-week register counts from 0 for Sunday, where the chip's documentation counts from 1; the
  first day of 1970, a Thursday, reads as 4.
\<close>

lemma cmos_weekday_zero_based: "refresh_time (3 * 86400) (replicate 128 0) ! 6 = 0"
  by (simp add: refresh_time_def Let_def to_bcd_def split: prod.split)

section \<open>The device on the bus\<close>

definition cmos_inv :: "CmosRtc \<Rightarrow> bool" where
  "cmos_inv s \<longleftrightarrow> length (cm_data s) = 128"

lemma length_refresh_time [simp]: "length (refresh_time secs data) = length data"
  by (simp add: refresh_time_def Let_def split: prod.split)

interpretation cmos_bus: bus_device cmos_port_range cmos_io_out "cmos_io_in secs" cmos_inv for secs
  by unfold_locales
     (auto simp: cmos_port_range_def cmos_io_out_def cmos_io_in_def cmos_reg_def cmos_inv_def Let_def
      split: prod.splits list.splits)

end
