(* ===== verification/Http_Acl.thy ===== *)
theory Http_Acl
  imports Rust_Text
begin

text \<open>
  The HTTP access-control list of the egress proxy, \<^verbatim>\<open>src/crates/fluxvm-network/src/http_acl.rs\<close>:
  rule parsing, the glob matcher with its backtracking loop, path normalization, the three checks
  (a plain request, an intercepted tunnel, an opaque tunnel), the lint pass and the canonical host.
  A refusal carries the data its message is formatted from, not the formatted text.
\<close>

section \<open>Data\<close>

datatype AclError =
    ExpectedThreeParts
  | UnknownAction string
  | InvalidMethod string
  | EmptyHostGlob
  | InvalidHostGlob
  | PathGlobNotDecoded
  | PathGlobDoubleSlash
  | PathGlobDotSegment
  | NotAbsolute string
  | MalformedEscape
  | EncodedNul
  | EncodedSlash
  | RawBackslash
  | ControlByte
  | EmptyHost
  | AmbiguousHost string
  | UnbracketedV6 string
  | UnterminatedV6
  | HostMismatch string string
  | NoHost
  | InRule string AclError

datatype DenyReason =
    RejectedPath AclError
  | DeniedByRule string
  | NoAllowMatches string string string
  | HostDeniedByRule string string
  | NoAllowCovers string
  | TunnelDenyRule string string
  | TunnelNoAllow string

datatype Verdict = VAllow | VDeny DenyReason

definition is_allow :: "Verdict \<Rightarrow> bool" where
  "is_allow v \<longleftrightarrow> v = VAllow"

datatype LintSeverity = Info | Warn | High

fun severity_rank :: "LintSeverity \<Rightarrow> nat" where
  "severity_rank Info = 0"
| "severity_rank Warn = 1"
| "severity_rank High = 2"

instantiation LintSeverity :: linorder
begin

definition less_eq_LintSeverity :: "LintSeverity \<Rightarrow> LintSeverity \<Rightarrow> bool" where
  "less_eq_LintSeverity a b \<longleftrightarrow> severity_rank a \<le> severity_rank b"

definition less_LintSeverity :: "LintSeverity \<Rightarrow> LintSeverity \<Rightarrow> bool" where
  "less_LintSeverity a b \<longleftrightarrow> severity_rank a < severity_rank b"

instance
proof
  fix a b :: LintSeverity
  show "a \<le> b \<Longrightarrow> b \<le> a \<Longrightarrow> a = b"
    by (cases a; cases b) (simp_all add: less_eq_LintSeverity_def)
qed (auto simp: less_eq_LintSeverity_def less_LintSeverity_def)

end

datatype LintMessage =
    DenyOnly
  | AllowEverything string
  | AllowAnyHost string
  | AllowMetadataHost string
  | AllowNeverMatches string string
  | DuplicateRule string

record LintFinding =
  severity :: LintSeverity
  code :: string
  message :: LintMessage

definition METADATA_HOSTS :: "string list" where
  "METADATA_HOSTS =
     [''169.254.169.254'', ''169.254.170.2'', ''100.100.100.200'', ''fd00:ec2::254'',
      ''metadata.google.internal'']"

datatype Action = AllowAct | DenyAct

record Rule =
  r_action :: Action
  r_method :: "string option"
  r_host :: string
  r_path :: "string option"
  r_source :: string

section \<open>The glob matcher\<close>

text \<open>
  The loop of \<^verbatim>\<open>glob_match\<close> over its four locals: pattern and text positions, the last star and the
  text position it was tried at.
\<close>

definition glob_ok :: "nat \<Rightarrow> nat \<Rightarrow> nat option \<Rightarrow> nat \<Rightarrow> bool" where
  "glob_ok ip it star mark \<longleftrightarrow> (case star of None \<Rightarrow> True | Some s \<Rightarrow> s < ip \<and> mark \<le> it)"

fun skip_stars :: "string \<Rightarrow> string" where
  "skip_stars [] = []"
| "skip_stars (c # cs) = (if c = CHR ''*'' then skip_stars cs else c # cs)"

function glob_loop :: "string \<Rightarrow> string \<Rightarrow> nat \<Rightarrow> nat \<Rightarrow> nat option \<Rightarrow> nat \<Rightarrow> bool" where
  "glob_loop p t ip it star mark =
     (if it < length t then
        if ip < length p \<and> p ! ip = CHR ''*'' then glob_loop p t (ip + 1) it (Some ip) it
        else if ip < length p \<and> p ! ip = t ! it then glob_loop p t (ip + 1) (it + 1) star mark
        else (case star of
                Some s \<Rightarrow> glob_loop p t (s + 1) (mark + 1) (Some s) (mark + 1)
              | None \<Rightarrow> False)
      else skip_stars (drop ip p) = [])"
  by pat_completeness auto
termination
  by (relation "measures
        [\<lambda>(p, t, ip, it, star, mark). if glob_ok ip it star mark then 0 else 1,
         \<lambda>(p, t, ip, it, star, mark). case star of None \<Rightarrow> length p + 1 | Some s \<Rightarrow> length p - s,
         \<lambda>(p, t, ip, it, star, mark). length t - mark,
         \<lambda>(p, t, ip, it, star, mark). length t - it]")
     (auto simp: glob_ok_def split: option.splits)

declare glob_loop.simps [simp del]

definition glob_match :: "string \<Rightarrow> string \<Rightarrow> bool" where
  "glob_match p t = glob_loop p t 0 0 None 0"

definition path_glob_match :: "string \<Rightarrow> string \<Rightarrow> bool" where
  "path_glob_match glob path =
     (glob_match glob path \<or>
      (case strip_suffix ''/*'' glob of
         Some dir \<Rightarrow> glob_match dir (case strip_suffix ''/'' path of Some q \<Rightarrow> q | None \<Rightarrow> path)
       | None \<Rightarrow> False))"

section \<open>Path normalization\<close>

definition is_unreserved :: "char \<Rightarrow> bool" where
  "is_unreserved b \<longleftrightarrow> is_alphanumeric b \<or> b \<in> {CHR ''-'', CHR ''.'', CHR ''_'', CHR ''~''}"

definition hex_escape :: "string \<Rightarrow> nat option" where
  "hex_escape bs = (if 2 \<le> length bs then from_str_radix 16 256 (take 2 bs) else None)"

definition escape_out :: "nat \<Rightarrow> string" where
  "escape_out h =
     (if is_unreserved (char_of h) then [char_of h]
      else [CHR ''%'', hex_upper (h div 16), hex_upper (h mod 16)])"

function decode_path :: "string \<Rightarrow> AclError + string" where
  "decode_path [] = Inr []"
| "decode_path (b # bs) =
     (if b = CHR ''%'' then
        case hex_escape bs of
          None \<Rightarrow> Inl MalformedEscape
        | Some h \<Rightarrow>
            if h = 0 then Inl EncodedNul
            else if h = 47 \<or> h = 92 then Inl EncodedSlash
            else map_sum id (\<lambda>d. escape_out h @ d) (decode_path (drop 2 bs))
      else if byte_of b = 92 then Inl RawBackslash
      else if byte_of b < 32 \<or> byte_of b = 127 \<or> 128 \<le> byte_of b then Inl ControlByte
      else map_sum id (\<lambda>d. b # d) (decode_path bs))"
  by pat_completeness auto
termination by (relation "measure length") auto

fun resolve_segs :: "string list \<Rightarrow> string list \<Rightarrow> bool \<Rightarrow> string list \<times> bool" where
  "resolve_segs [] stack trailing = (stack, trailing)"
| "resolve_segs (seg # segs) stack trailing =
     (let lst = (segs = []) in
      if seg = [] \<or> seg = ''.'' then resolve_segs segs stack lst
      else if seg = ''..'' then resolve_segs segs (butlast stack) lst
      else resolve_segs segs (stack @ [seg]) False)"

definition normalize_path :: "string \<Rightarrow> AclError + string" where
  "normalize_path raw0 =
     (let raw = takeWhile (\<lambda>c. c \<noteq> CHR ''?'' \<and> c \<noteq> CHR ''#'') raw0 in
      if raw = [] then Inr ''/''
      else if hd raw \<noteq> CHR ''/'' then Inl (NotAbsolute raw)
      else case decode_path raw of
             Inl e \<Rightarrow> Inl e
           | Inr decoded \<Rightarrow>
               (case resolve_segs (split_on (CHR ''/'') decoded) [] False of
                  (stack, trailing) \<Rightarrow>
                    Inr (''/'' @ join ''/'' stack @ (if trailing \<and> stack \<noteq> [] then ''/'' else []))))"

section \<open>Rules\<close>

definition method_matches :: "Rule \<Rightarrow> string \<Rightarrow> bool" where
  "method_matches r meth =
     (case r_method r of None \<Rightarrow> True | Some m \<Rightarrow> eq_ignore_ascii_case m meth)"

definition host_matches :: "Rule \<Rightarrow> string \<Rightarrow> bool" where
  "host_matches r host = glob_match (r_host r) host"

definition path_matches :: "Rule \<Rightarrow> string \<Rightarrow> bool" where
  "path_matches r path = (case r_path r of None \<Rightarrow> True | Some p \<Rightarrow> path_glob_match p path)"

definition covers :: "Rule \<Rightarrow> Rule \<Rightarrow> bool" where
  "covers d a =
     ((case (r_method d, r_method a) of
         (None, _) \<Rightarrow> True
       | (Some dm, Some am) \<Rightarrow> eq_ignore_ascii_case dm am
       | (Some _, None) \<Rightarrow> False) \<and>
      (case (r_path d, r_path a) of
         (None, _) \<Rightarrow> True
       | (Some dp, None) \<Rightarrow> dp = ''/*''
       | (Some dp, Some ap) \<Rightarrow>
           dp = ''/*'' \<or> CHR ''*'' \<notin> set ap \<and> path_glob_match dp ap) \<and>
      glob_match (r_host d) (r_host a))"

definition same_as :: "Rule \<Rightarrow> Rule \<Rightarrow> bool" where
  "same_as r e \<longleftrightarrow>
     r_action r = r_action e \<and> r_method r = r_method e \<and> r_host r = r_host e \<and> r_path r = r_path e"

definition any_path :: "Rule \<Rightarrow> bool" where
  "any_path r = (case r_path r of None \<Rightarrow> True | Some p \<Rightarrow> p = ''/*'')"

definition covers_whole_host :: "Rule \<Rightarrow> bool" where
  "covers_whole_host r =
     ((case r_method r of None \<Rightarrow> True | Some m \<Rightarrow> eq_ignore_ascii_case m ''CONNECT'') \<and> any_path r)"

fun contains_pair :: "char \<Rightarrow> char \<Rightarrow> string \<Rightarrow> bool" where
  "contains_pair a b (x # y # s) = (x = a \<and> y = b \<or> contains_pair a b (y # s))"
| "contains_pair a b _ = False"

definition validate_path_glob :: "string \<Rightarrow> AclError + unit" where
  "validate_path_glob p =
     (if list_ex (\<lambda>b. b = CHR ''%'' \<or> b = CHR ''?'' \<or> b = CHR ''#'' \<or> byte_of b = 92 \<or> is_control b) p
      then Inl PathGlobNotDecoded
      else if contains_pair (CHR ''/'') (CHR ''/'') p then Inl PathGlobDoubleSlash
      else if list_ex (\<lambda>s. s = ''.'' \<or> s = ''..'') (split_on (CHR ''/'') p) then Inl PathGlobDotSegment
      else Inr ())"

definition parse_action :: "string \<Rightarrow> AclError + Action" where
  "parse_action w =
     (let a = to_ascii_lowercase w in
      if a = ''allow'' then Inr AllowAct else if a = ''deny'' then Inr DenyAct else Inl (UnknownAction a))"

definition parse_method :: "string \<Rightarrow> AclError + string option" where
  "parse_method w =
     (if w = ''*'' then Inr None
      else if w \<noteq> [] \<and> list_all is_alphabetic w then Inr (Some (to_ascii_uppercase w))
      else Inl (InvalidMethod w))"

definition split_target :: "string \<Rightarrow> string \<times> string option" where
  "split_target tgt =
     (takeWhile (\<lambda>c. c \<noteq> CHR ''/'') tgt,
      if CHR ''/'' \<in> set tgt then Some (dropWhile (\<lambda>c. c \<noteq> CHR ''/'') tgt) else None)"

definition parse_rule :: "string \<Rightarrow> AclError + Rule" where
  "parse_rule raw =
     (case split_whitespace raw of
        [w0, w1, w2] \<Rightarrow>
          (case parse_action w0 of
             Inl e \<Rightarrow> Inl e
           | Inr act \<Rightarrow>
               (case parse_method w1 of
                  Inl e \<Rightarrow> Inl e
                | Inr meth \<Rightarrow>
                    (case split_target w2 of
                       (host, path) \<Rightarrow>
                         if host = [] then Inl EmptyHostGlob
                         else if list_ex (\<lambda>b. b = CHR ''@'' \<or> byte_of b = 92 \<or> b = CHR ''?''
                                              \<or> b = CHR ''#'' \<or> is_control b) host
                         then Inl InvalidHostGlob
                         else (case (case path of None \<Rightarrow> Inr () | Some p \<Rightarrow> validate_path_glob p) of
                                 Inl e \<Rightarrow> Inl e
                               | Inr _ \<Rightarrow>
                                   Inr \<lparr>r_action = act, r_method = meth,
                                        r_host = to_ascii_lowercase host, r_path = path,
                                        r_source = trim raw\<rparr>))))
      | _ \<Rightarrow> Inl ExpectedThreeParts)"

section \<open>The rule set\<close>

record HttpAcl =
  acl_rules :: "Rule list"

fun parse_rules :: "string list \<Rightarrow> AclError + Rule list" where
  "parse_rules [] = Inr []"
| "parse_rules (raw # raws) =
     (case parse_rule raw of
        Inl e \<Rightarrow> Inl (InRule raw e)
      | Inr r \<Rightarrow> map_sum id (\<lambda>rs. r # rs) (parse_rules raws))"

definition parse :: "string list \<Rightarrow> AclError + HttpAcl" where
  "parse raws = map_sum id (\<lambda>rs. \<lparr>acl_rules = rs\<rparr>) (parse_rules raws)"

definition is_active :: "HttpAcl \<Rightarrow> bool" where
  "is_active acl \<longleftrightarrow> acl_rules acl \<noteq> []"

definition has_allow :: "HttpAcl \<Rightarrow> bool" where
  "has_allow acl = list_ex (\<lambda>r. r_action r = AllowAct) (acl_rules acl)"

text \<open>The findings of \<^verbatim>\<open>lint\<close> for the rule at index \<open>i\<close>, in the order they are pushed.\<close>

definition lint_any_host :: "Rule \<Rightarrow> LintFinding list" where
  "lint_any_host r =
     (if r_host r = ''*'' \<and> covers_whole_host r \<and> r_method r = None
      then [\<lparr>severity = High, code = ''allow_everything'', message = AllowEverything (r_source r)\<rparr>]
      else if r_host r = ''*''
      then [\<lparr>severity = Warn, code = ''allow_any_host'', message = AllowAnyHost (r_source r)\<rparr>]
      else [])"

definition lint_metadata :: "Rule \<Rightarrow> LintFinding list" where
  "lint_metadata r =
     (if trim_end_matches (CHR '']'') (trim_start_matches (CHR ''['') (r_host r)) \<in> set METADATA_HOSTS
      then [\<lparr>severity = High, code = ''allow_metadata_host'', message = AllowMetadataHost (r_source r)\<rparr>]
      else [])"

definition lint_shadowed :: "Rule list \<Rightarrow> Rule \<Rightarrow> LintFinding list" where
  "lint_shadowed rs r =
     (if CHR ''*'' \<notin> set (r_host r)
      then (case find (\<lambda>d. r_action d = DenyAct \<and> covers d r) rs of
              Some d \<Rightarrow> [\<lparr>severity = Warn, code = ''allow_never_matches'',
                          message = AllowNeverMatches (r_source r) (r_source d)\<rparr>]
            | None \<Rightarrow> [])
      else [])"

definition lint_duplicate :: "Rule list \<Rightarrow> Rule \<Rightarrow> LintFinding list" where
  "lint_duplicate earlier r =
     (if list_ex (\<lambda>e. same_as e r) earlier
      then [\<lparr>severity = Info, code = ''duplicate_rule'', message = DuplicateRule (r_source r)\<rparr>]
      else [])"

definition lint_rule :: "Rule list \<Rightarrow> nat \<Rightarrow> LintFinding list" where
  "lint_rule rs i =
     (if r_action (rs ! i) \<noteq> AllowAct then []
      else lint_any_host (rs ! i) @ lint_metadata (rs ! i) @ lint_shadowed rs (rs ! i) @
           lint_duplicate (take i rs) (rs ! i))"

text \<open>
  \<^verbatim>\<open>lint\<close>: the final stable sort by descending severity is the ascending stable sort of the
  reversed list, reversed.
\<close>

definition lint :: "HttpAcl \<Rightarrow> LintFinding list" where
  "lint acl =
     (let out =
        (if is_active acl \<and> \<not> has_allow acl
         then [\<lparr>severity = Warn, code = ''deny_only'', message = DenyOnly\<rparr>] else []) @
        concat (map (lint_rule (acl_rules acl)) [0 ..< length (acl_rules acl)]) in
      rev (sort_key severity (rev out)))"

definition rule_matches :: "Action \<Rightarrow> string \<Rightarrow> string \<Rightarrow> string \<Rightarrow> Rule \<Rightarrow> bool" where
  "rule_matches act meth host path r \<longleftrightarrow>
     r_action r = act \<and> method_matches r meth \<and> host_matches r host \<and> path_matches r path"

definition check :: "HttpAcl \<Rightarrow> string \<Rightarrow> string \<Rightarrow> string \<Rightarrow> Verdict" where
  "check acl meth host0 raw_path =
     (if \<not> is_active acl then VAllow
      else case normalize_path raw_path of
             Inl e \<Rightarrow> VDeny (RejectedPath e)
           | Inr path \<Rightarrow>
               (let host = to_ascii_lowercase host0 in
                case find (rule_matches DenyAct meth host path) (acl_rules acl) of
                  Some r \<Rightarrow> VDeny (DeniedByRule (r_source r))
                | None \<Rightarrow>
                    if \<not> has_allow acl then VAllow
                    else if list_ex (rule_matches AllowAct meth host path) (acl_rules acl) then VAllow
                    else VDeny (NoAllowMatches meth host path)))"

definition check_intercepted_connect :: "HttpAcl \<Rightarrow> string \<Rightarrow> Verdict" where
  "check_intercepted_connect acl host0 =
     (if \<not> is_active acl then VAllow
      else
        let host = to_ascii_lowercase host0 in
        case find (\<lambda>r. r_action r = DenyAct \<and> r_method r = None \<and> any_path r \<and> host_matches r host)
               (acl_rules acl) of
          Some r \<Rightarrow> VDeny (HostDeniedByRule host (r_source r))
        | None \<Rightarrow>
            if has_allow acl \<and>
               \<not> list_ex (\<lambda>r. r_action r = AllowAct \<and> host_matches r host) (acl_rules acl)
            then VDeny (NoAllowCovers host)
            else VAllow)"

definition check_connect :: "HttpAcl \<Rightarrow> string \<Rightarrow> Verdict" where
  "check_connect acl host0 =
     (if \<not> is_active acl then VAllow
      else
        let host = to_ascii_lowercase host0 in
        case find (\<lambda>r. r_action r = DenyAct \<and> host_matches r host) (acl_rules acl) of
          Some r \<Rightarrow> VDeny (TunnelDenyRule host (r_source r))
        | None \<Rightarrow>
            if \<not> has_allow acl then VAllow
            else if list_ex (\<lambda>r. r_action r = AllowAct \<and> host_matches r host \<and> covers_whole_host r)
                      (acl_rules acl)
            then VAllow
            else VDeny (TunnelNoAllow host))"

section \<open>The host of a request\<close>

definition strip_port :: "string \<Rightarrow> string" where
  "strip_port s =
     (case rsplit_once (CHR '':'') s of
        Some (h, port) \<Rightarrow>
          if port \<noteq> [] \<and> list_all is_digit_c port then h
          else if port = [] then take (length s - 1) s
          else s
      | None \<Rightarrow> s)"

definition canon_host :: "string \<Rightarrow> AclError + string" where
  "canon_host s0 =
     (let s = trim s0 in
      if s = [] then Inl EmptyHost
      else if list_ex (\<lambda>b. b = CHR ''@'' \<or> b = CHR ''/'' \<or> byte_of b = 92 \<or> is_space b \<or> is_control b) s
      then Inl (AmbiguousHost s)
      else if hd s \<noteq> CHR ''['' \<and> 1 < length (filter (\<lambda>b. b = CHR '':'') s) then Inl (UnbracketedV6 s)
      else
        case (if hd s = CHR ''['' then
                (if CHR '']'' \<in> set (tl s)
                 then Inr (CHR ''['' # takeWhile (\<lambda>b. b \<noteq> CHR '']'') (tl s) @ '']'')
                 else Inl UnterminatedV6)
              else Inr (strip_port s)) of
          Inl e \<Rightarrow> Inl e
        | Inr h \<Rightarrow>
            let host = to_ascii_lowercase (trim_end_matches (CHR ''.'') h) in
            if host = [] then Inl EmptyHost else Inr host)"

definition opt_transpose :: "(string \<Rightarrow> AclError + string) \<Rightarrow> string option \<Rightarrow> AclError + string option" where
  "opt_transpose f x = (case x of None \<Rightarrow> Inr None | Some s \<Rightarrow> map_sum id Some (f s))"

definition effective_host :: "string option \<Rightarrow> string option \<Rightarrow> AclError + string" where
  "effective_host uri_host host_header =
     (case opt_transpose canon_host uri_host of
        Inl e \<Rightarrow> Inl e
      | Inr from_uri \<Rightarrow>
          (case opt_transpose canon_host host_header of
             Inl e \<Rightarrow> Inl e
           | Inr from_header \<Rightarrow>
               (case from_uri of
                  Some u \<Rightarrow>
                    (case from_header of
                       Some h \<Rightarrow> if u \<noteq> h then Inl (HostMismatch u h) else Inr u
                     | None \<Rightarrow> Inr u)
                | None \<Rightarrow>
                    (case from_header of Some h \<Rightarrow> Inr h | None \<Rightarrow> Inl NoHost))))"

section \<open>The glob matcher is the declarative match\<close>

text \<open>What a glob means: a star stands for any run of characters, anything else for itself.\<close>

fun gmatch :: "string \<Rightarrow> string \<Rightarrow> bool" where
  "gmatch [] t \<longleftrightarrow> t = []"
| "gmatch (c # p) t \<longleftrightarrow>
     (if c = CHR ''*'' then \<exists>u v. t = u @ v \<and> gmatch p v
      else case t of [] \<Rightarrow> False | x # xs \<Rightarrow> x = c \<and> gmatch p xs)"

lemma gmatch_star: "gmatch (CHR ''*'' # p) t \<longleftrightarrow> (\<exists>u v. t = u @ v \<and> gmatch p v)"
  by simp

lemma gmatch_Cons: "c \<noteq> CHR ''*'' \<Longrightarrow> gmatch (c # p) (x # t) \<longleftrightarrow> x = c \<and> gmatch p t"
  by simp

lemma gmatch_lit:
  "CHR ''*'' \<notin> set u \<Longrightarrow> gmatch (u @ q) t \<longleftrightarrow> (\<exists>t'. t = u @ t' \<and> gmatch q t')"
  by (induction u arbitrary: t) (auto split: list.splits)

lemma gmatch_literal: "CHR ''*'' \<notin> set p \<Longrightarrow> gmatch p t \<longleftrightarrow> t = p"
  using gmatch_lit [of p "[]" t] by simp

lemma gmatch_Nil: "gmatch p [] \<longleftrightarrow> skip_stars p = []"
  by (induction p) auto

lemma gmatch_prefix_star: "gmatch (CHR ''/'' # ''*'') t \<longleftrightarrow> (\<exists>v. t = CHR ''/'' # v)"
  by (cases t) auto

text \<open>
  The state of the loop after a star: the literal text \<open>u\<close> between the star and the pattern
  position has been matched at the mark.
\<close>

definition star_inv :: "string \<Rightarrow> string \<Rightarrow> nat \<Rightarrow> nat \<Rightarrow> nat \<Rightarrow> nat \<Rightarrow> bool" where
  "star_inv p t ip it s mark \<longleftrightarrow>
     (\<exists>u q t0 r. drop (s + 1) p = u @ q \<and> CHR ''*'' \<notin> set u \<and> t = t0 @ u @ r \<and>
        mark = length t0 \<and> it = mark + length u \<and> ip = s + 1 + length u \<and> s < length p)"

definition later_match :: "string \<Rightarrow> string \<Rightarrow> nat \<Rightarrow> bool" where
  "later_match p t m \<longleftrightarrow> (\<exists>k. m \<le> k \<and> k \<le> length t \<and> gmatch p (drop k t))"

lemma later_match_alt: "later_match p t m \<longleftrightarrow> m \<le> length t \<and> gmatch (CHR ''*'' # p) (drop m t)"
proof
  assume "later_match p t m"
  then obtain k where k: "m \<le> k" "k \<le> length t" "gmatch p (drop k t)" by (auto simp: later_match_def)
  have "drop m t = take (k - m) (drop m t) @ drop k t"
    using k(1) by (metis append_take_drop_id drop_drop le_add_diff_inverse2)
  then show "m \<le> length t \<and> gmatch (CHR ''*'' # p) (drop m t)" using k by (simp only: gmatch_star) auto
next
  assume a: "m \<le> length t \<and> gmatch (CHR ''*'' # p) (drop m t)"
  then obtain u v where uv: "drop m t = u @ v" "gmatch p v" by (auto simp: gmatch_star)
  then have "drop (m + length u) t = v" by (metis add.commute append_eq_conv_conj drop_drop)
  moreover have "m + length u \<le> length t" using uv(1) a
    by (metis add_le_mono1 diff_add_inverse2 le_add_diff_inverse length_append length_drop nat_add_left_cancel_le trans_le_add1 le_add1)
  ultimately show "later_match p t m" using uv(2) unfolding later_match_def
    by (intro exI [of _ "m + length u"]) simp
qed

lemma later_match_end:
  assumes i: "star_inv p t ip it s mark" and e: "length t \<le> it"
  shows "later_match (drop (s + 1) p) t mark \<longleftrightarrow> skip_stars (drop ip p) = []"
proof -
  from i obtain u q t0 r where d: "drop (s + 1) p = u @ q" "CHR ''*'' \<notin> set u" "t = t0 @ u @ r"
    "mark = length t0" "it = mark + length u" "ip = s + 1 + length u" by (auto simp: star_inv_def)
  have r: "r = []" using d e by simp
  have q: "drop ip p = q" using d by (metis add.commute append_eq_conv_conj drop_drop)
  have "later_match (u @ q) t mark \<longleftrightarrow> gmatch q []"
  proof
    assume "later_match (u @ q) t mark"
    then obtain k t' where k: "mark \<le> k" "k \<le> length t" "drop k t = u @ t'" "gmatch q t'"
      by (auto simp: later_match_def gmatch_lit [OF d(2)])
    have "length t - k = length u + length t'" using k(3) by (metis length_append length_drop)
    moreover have "length t = mark + length u" using d r by simp
    ultimately have "length t' = 0" using k(1,2) by linarith
    then have "t' = []" by simp
    then show "gmatch q []" using k by simp
  next
    assume "gmatch q []"
    then have "gmatch (u @ q) (drop mark t)" using d r by (simp add: gmatch_lit)
    then show "later_match (u @ q) t mark" using d by (auto simp: later_match_def)
  qed
  then show ?thesis using d q by (simp add: gmatch_Nil)
qed

lemma later_match_star:
  assumes i: "star_inv p t ip it s mark" and l: "ip < length p" "p ! ip = CHR ''*''"
  shows "later_match (drop (s + 1) p) t mark \<longleftrightarrow> later_match (drop (ip + 1) p) t it"
proof -
  from i obtain u q t0 r where d: "drop (s + 1) p = u @ q" "CHR ''*'' \<notin> set u" "t = t0 @ u @ r"
    "mark = length t0" "it = mark + length u" "ip = s + 1 + length u" by (auto simp: star_inv_def)
  have q: "drop ip p = q" using d by (metis add.commute append_eq_conv_conj drop_drop)
  then have q': "q = CHR ''*'' # drop (ip + 1) p" using l by (metis Cons_nth_drop_Suc Suc_eq_plus1)
  show ?thesis
  proof
    assume "later_match (drop (s + 1) p) t mark"
    then obtain k t' where k: "mark \<le> k" "k \<le> length t" "drop k t = u @ t'" "gmatch q t'"
      unfolding later_match_def d(1) gmatch_lit [OF d(2)] by blast
    have t': "t' = drop (k + length u) t" using k(3) by (metis add.commute append_eq_conv_conj drop_drop)
    have "length (drop k t) = length u + length t'" using k(3) by simp
    then have "k + length u \<le> length t" using k(2) by simp
    then have "later_match (drop (ip + 1) p) t (k + length u)"
      using k(4) t' q' by (simp only: later_match_alt)
    then show "later_match (drop (ip + 1) p) t it" using k(1) d(5)
      unfolding later_match_def by (meson add_le_mono1 le_trans)
  next
    assume "later_match (drop (ip + 1) p) t it"
    then have "gmatch q (drop it t)" using q' by (simp only: later_match_alt)
    then have "gmatch (u @ q) (drop mark t)" using d by (simp add: gmatch_lit)
    then show "later_match (drop (s + 1) p) t mark" using d by (auto simp: later_match_def)
  qed
qed

lemma star_inv_match:
  assumes i: "star_inv p t ip it s mark" and l: "ip < length p" "it < length t" "p ! ip = t ! it"
    "p ! ip \<noteq> CHR ''*''"
  shows "star_inv p t (ip + 1) (it + 1) s mark"
proof -
  from i obtain u q t0 r where d: "drop (s + 1) p = u @ q" "CHR ''*'' \<notin> set u" "t = t0 @ u @ r"
    "mark = length t0" "it = mark + length u" "ip = s + 1 + length u" "s < length p"
    by (auto simp: star_inv_def)
  have q: "drop ip p = q" using d by (metis add.commute append_eq_conv_conj drop_drop)
  then have q': "q = p ! ip # drop (ip + 1) p" using l by (metis Cons_nth_drop_Suc Suc_eq_plus1)
  have "drop it t = r" using d by simp
  then have r': "r = t ! it # drop (it + 1) t" using l by (metis Cons_nth_drop_Suc Suc_eq_plus1)
  have "drop (s + 1) p = (u @ [p ! ip]) @ drop (ip + 1) p" using d(1) q' by simp
  moreover have "t = t0 @ (u @ [p ! ip]) @ drop (it + 1) t" using d(3) r' l(3) by simp
  ultimately show ?thesis using d l unfolding star_inv_def
    by (intro exI [of _ "u @ [p ! ip]"] exI [of _ "drop (ip + 1) p"] exI [of _ t0]
        exI [of _ "drop (it + 1) t"]) simp
qed

lemma later_match_retry:
  assumes i: "star_inv p t ip it s mark" and l: "it < length t"
    and n: "ip < length p \<Longrightarrow> p ! ip \<noteq> CHR ''*'' \<and> p ! ip \<noteq> t ! it"
  shows "later_match (drop (s + 1) p) t mark \<longleftrightarrow> later_match (drop (s + 1) p) t (mark + 1)"
proof -
  from i obtain u q t0 r where d: "drop (s + 1) p = u @ q" "CHR ''*'' \<notin> set u" "t = t0 @ u @ r"
    "mark = length t0" "it = mark + length u" "ip = s + 1 + length u" "s < length p"
    by (auto simp: star_inv_def)
  have q: "drop ip p = q" using d by (metis add.commute append_eq_conv_conj drop_drop)
  have r': "r = t ! it # drop (it + 1) t"
    using l d by (metis Cons_nth_drop_Suc Suc_eq_plus1 append.assoc append_eq_conv_conj length_append)
  have "\<not> gmatch q r"
  proof (cases "ip < length p")
    case True
    then have "q = p ! ip # drop (ip + 1) p" using q by (metis Cons_nth_drop_Suc Suc_eq_plus1)
    then show ?thesis using n [OF True] r' gmatch_Cons by metis
  next
    case False
    then have "q = []" using q by simp
    then show ?thesis using r' by simp
  qed
  then have no: "\<not> gmatch (drop (s + 1) p) (drop mark t)" using d by (simp add: gmatch_lit)
  show ?thesis
  proof
    assume "later_match (drop (s + 1) p) t mark"
    then obtain k where k: "mark \<le> k" "k \<le> length t" "gmatch (drop (s + 1) p) (drop k t)"
      by (auto simp: later_match_def)
    then have "k \<noteq> mark" using no by auto
    then show "later_match (drop (s + 1) p) t (mark + 1)" using k unfolding later_match_def
      by (intro exI [of _ k]) simp
  qed (auto simp: later_match_def intro: Suc_leD)
qed

lemma glob_loop_star:
  "star_inv p t ip it s mark \<Longrightarrow>
   glob_loop p t ip it (Some s) mark \<longleftrightarrow> later_match (drop (s + 1) p) t mark"
proof (induction p t ip it "Some s" mark arbitrary: s rule: glob_loop.induct)
  case (1 p t ip it mark)
  note i = \<open>star_inv p t ip it s mark\<close>
  consider (E) "length t \<le> it" | (S) "it < length t" "ip < length p" "p ! ip = CHR ''*''"
    | (M) "it < length t" "ip < length p" "p ! ip \<noteq> CHR ''*''" "p ! ip = t ! it"
    | (R) "it < length t" "ip < length p \<Longrightarrow> p ! ip \<noteq> CHR ''*'' \<and> p ! ip \<noteq> t ! it"
    by (meson linorder_not_less)
  then show ?case
  proof cases
    case E
    then show ?thesis using later_match_end [OF i E] by (subst glob_loop.simps) simp
  next
    case S
    have "star_inv p t (ip + 1) it ip it" unfolding star_inv_def using S
      by (intro exI [of _ "[]"] exI [of _ "drop (ip + 1) p"] exI [of _ "take it t"] exI [of _ "drop it t"]) simp
    then have "glob_loop p t (ip + 1) it (Some ip) it = later_match (drop (ip + 1) p) t it"
      using 1(1) S by simp
    then show ?thesis using later_match_star [OF i S(2,3)] S by (subst glob_loop.simps) simp
  next
    case M
    then have "glob_loop p t (ip + 1) (it + 1) (Some s) mark = later_match (drop (s + 1) p) t mark"
      using 1(2) star_inv_match [OF i] by simp
    then show ?thesis using M by (subst glob_loop.simps) auto
  next
    case R
    have "mark \<le> it" "s < length p" using i by (auto simp: star_inv_def)
    then have "star_inv p t (s + 1) (mark + 1) s (mark + 1)" unfolding star_inv_def using R(1)
      by (intro exI [of _ "[]"] exI [of _ "drop (s + 1) p"] exI [of _ "take (mark + 1) t"]
          exI [of _ "drop (mark + 1) t"]) simp
    then have "glob_loop p t (s + 1) (mark + 1) (Some s) (mark + 1) =
               later_match (drop (s + 1) p) t (mark + 1)"
      using 1(3) [of s] R by auto
    then show ?thesis using later_match_retry [OF i R] R by (subst glob_loop.simps) auto
  qed
qed

lemma glob_loop_none:
  "ip \<le> length p \<Longrightarrow> it \<le> length t \<Longrightarrow>
   glob_loop p t ip it None mark \<longleftrightarrow> gmatch (drop ip p) (drop it t)"
proof (induction p t ip it "None :: nat option" mark rule: glob_loop.induct)
  case (1 p t ip it mark)
  consider (E) "length t \<le> it" | (S) "it < length t" "ip < length p" "p ! ip = CHR ''*''"
    | (M) "it < length t" "ip < length p" "p ! ip \<noteq> CHR ''*''" "p ! ip = t ! it"
    | (R) "it < length t" "ip < length p \<Longrightarrow> p ! ip \<noteq> CHR ''*'' \<and> p ! ip \<noteq> t ! it"
    by (meson linorder_not_less)
  then show ?case
  proof cases
    case E
    then show ?thesis by (subst glob_loop.simps) (simp add: gmatch_Nil)
  next
    case S
    have "star_inv p t (ip + 1) it ip it" unfolding star_inv_def using S
      by (intro exI [of _ "[]"] exI [of _ "drop (ip + 1) p"] exI [of _ "take it t"] exI [of _ "drop it t"]) simp
    moreover have "drop ip p = CHR ''*'' # drop (ip + 1) p" using S by (metis Cons_nth_drop_Suc Suc_eq_plus1)
    ultimately show ?thesis using S glob_loop_star [of p t "ip + 1" it ip it] later_match_alt [of "drop (ip + 1) p" t it]
      by (subst glob_loop.simps) simp
  next
    case M
    have "drop ip p = p ! ip # drop (ip + 1) p" "drop it t = t ! it # drop (it + 1) t"
      using M by (metis Cons_nth_drop_Suc Suc_eq_plus1)+
    then have "gmatch (drop ip p) (drop it t) = gmatch (drop (ip + 1) p) (drop (it + 1) t)"
      using M gmatch_Cons by metis
    then show ?thesis using M 1(1) by (subst glob_loop.simps) auto
  next
    case R
    have t: "drop it t = t ! it # drop (it + 1) t" using R(1) by (metis Cons_nth_drop_Suc Suc_eq_plus1)
    have "\<not> gmatch (drop ip p) (drop it t)"
    proof (cases "ip < length p")
      case True
      then have "drop ip p = p ! ip # drop (ip + 1) p" by (metis Cons_nth_drop_Suc Suc_eq_plus1)
      then show ?thesis using R(2) [OF True] t gmatch_Cons by metis
    next
      case False
      then show ?thesis using t by simp
    qed
    then show ?thesis using R by (subst glob_loop.simps) auto
  qed
qed

lemma glob_match_eq: "glob_match p t = gmatch p t"
  by (simp add: glob_match_def glob_loop_none)

section \<open>Normal forms of paths\<close>

text \<open>
  Decoded paths: printable ASCII without percent sign, query, fragment and backslash, and escapes in
  upper-case hex of bytes that had to stay escaped.
\<close>

definition plain_c :: "char \<Rightarrow> bool" where
  "plain_c c \<longleftrightarrow> c \<noteq> CHR ''%'' \<and> c \<noteq> CHR ''?'' \<and> c \<noteq> CHR ''#'' \<and> byte_of c \<noteq> 92 \<and>
     32 \<le> byte_of c \<and> byte_of c < 127"

definition kept_escape :: "nat \<Rightarrow> bool" where
  "kept_escape h \<longleftrightarrow> 0 < h \<and> h < 256 \<and> h \<noteq> 47 \<and> h \<noteq> 92 \<and> \<not> is_unreserved (char_of h)"

inductive clean :: "string \<Rightarrow> bool" where
  clean_nil: "clean []"
| clean_plain: "plain_c c \<Longrightarrow> clean s \<Longrightarrow> clean (c # s)"
| clean_escape: "kept_escape h \<Longrightarrow> clean s \<Longrightarrow>
    clean (CHR ''%'' # hex_upper (h div 16) # hex_upper (h mod 16) # s)"

lemma is_unreserved_plain:
  assumes "is_unreserved c"
  shows "plain_c c \<and> c \<noteq> CHR ''/''"
proof -
  have "c \<notin> {CHR ''%'', CHR ''?'', CHR ''#'', CHR ''/''} \<and> byte_of c \<noteq> 92 \<and> 32 \<le> byte_of c \<and> byte_of c < 127"
    using assms
    by (auto simp: is_unreserved_def is_alphanumeric_def is_alphabetic_def is_upper_c_def is_lower_c_def
        is_digit_c_def)
  then show ?thesis by (simp add: plain_c_def)
qed

lemma byte_hex_upper: "d < 16 \<Longrightarrow> byte_of (hex_upper d) = (if d < 10 then 48 + d else 55 + d)"
  by (simp add: hex_upper_def)

lemma hex_upper_facts:
  assumes d: "d < 16"
  shows "digit_val (hex_upper d) = Some d"
    and "is_unreserved (hex_upper d)" and "hex_upper d \<noteq> CHR ''+''"
proof -
  show "digit_val (hex_upper d) = Some d" using d
    by (simp add: digit_val_def is_digit_c_def is_lower_c_def is_upper_c_def byte_hex_upper)
  have "is_digit_c (hex_upper d) \<or> is_upper_c (hex_upper d)"
    using d by (simp add: is_digit_c_def is_upper_c_def byte_hex_upper)
  then show "is_unreserved (hex_upper d)"
    by (auto simp: is_unreserved_def is_alphanumeric_def is_alphabetic_def)
  have "byte_of (hex_upper d) \<noteq> 43" using d by (simp add: byte_hex_upper)
  then show "hex_upper d \<noteq> CHR ''+''" by auto
qed

lemmas hex_upper_plain = hex_upper_facts(2) [THEN is_unreserved_plain]

lemma hex_escape_digits:
  assumes a: "a < 16" and b: "b < 16"
  shows "hex_escape (hex_upper a # hex_upper b # s) = Some (a * 16 + b)"
proof -
  have bnd: "a * 16 + b < 256" using a b by simp
  note v = hex_upper_facts(1) [OF a] hex_upper_facts(1) [OF b] hex_upper_facts(3) [OF a]
  have "radix_val 16 256 0 [hex_upper a, hex_upper b] = Some (a * 16 + b)"
    using a b bnd by (simp only: radix_val.simps v option.simps) simp
  then have "from_str_radix 16 256 [hex_upper a, hex_upper b] = Some (a * 16 + b)"
    by (simp only: from_str_radix_def list.simps v if_False)
  then show ?thesis by (simp add: hex_escape_def del: radix_val.simps)
qed

lemma hex_escape_upper:
  assumes "h < 256"
  shows "hex_escape (hex_upper (h div 16) # hex_upper (h mod 16) # s) = Some h"
proof -
  have "h div 16 < 16" "h mod 16 < 16" using assms by auto
  then have "hex_escape (hex_upper (h div 16) # hex_upper (h mod 16) # s) = Some (h div 16 * 16 + h mod 16)"
    by (rule hex_escape_digits)
  then show ?thesis by (simp only: div_mult_mod_eq)
qed

lemma hex_escape_bound: "hex_escape bs = Some h \<Longrightarrow> h < 256"
  by (auto simp: hex_escape_def split: if_splits dest: from_str_radix_bound)

lemma clean_append: "clean a \<Longrightarrow> clean b \<Longrightarrow> clean (a @ b)"
  by (induction a rule: clean.induct) (auto intro: clean.intros)

lemma decode_path_clean:
  "decode_path s = Inr d \<Longrightarrow> CHR ''?'' \<notin> set s \<Longrightarrow> CHR ''#'' \<notin> set s \<Longrightarrow> clean d"
proof (induction s arbitrary: d rule: decode_path.induct)
  case 1
  then show ?case by (simp add: clean_nil)
next
  case (2 b bs)
  show ?case
  proof (cases "b = CHR ''%''")
    case True
    then obtain h d' where h: "hex_escape bs = Some h" "h \<noteq> 0" "h \<noteq> 47" "h \<noteq> 92"
      "decode_path (drop 2 bs) = Inr d'" "d = escape_out h @ d'"
      using 2(3) by (auto split: option.splits if_splits simp: map_sum_eq_Inr)
    have "set (drop 2 bs) \<subseteq> set bs" by (rule set_drop_subset)
    then have c: "clean d'" using 2(1) [OF True h(1) h(2)] h 2(4,5) by auto
    show ?thesis
    proof (cases "is_unreserved (char_of h)")
      case True
      then show ?thesis using h c is_unreserved_plain [OF True] by (auto simp: escape_out_def intro: clean_plain)
    next
      case False
      then have "kept_escape h" using h hex_escape_bound [OF h(1)] by (simp add: kept_escape_def)
      then show ?thesis using h c False by (simp add: escape_out_def clean_escape)
    qed
  next
    case False
    then obtain d' where d': "byte_of b \<noteq> 92" "32 \<le> byte_of b" "byte_of b < 127" "decode_path bs = Inr d'" "d = b # d'"
      using 2(3) by (auto split: if_splits simp: map_sum_eq_Inr)
    then have "clean d'" using 2(2) [OF False] 2(4,5) by simp
    moreover have "plain_c b" using d' False 2(4,5) by (auto simp: plain_c_def)
    ultimately show ?thesis using d' by (auto intro: clean_plain)
  qed
qed

lemma clean_decode: "clean d \<Longrightarrow> decode_path d = Inr d"
proof (induction rule: clean.induct)
  case (clean_escape h s)
  then have k: "hex_escape (hex_upper (h div 16) # hex_upper (h mod 16) # s) = Some h" "h \<noteq> 0" "h \<noteq> 47" "h \<noteq> 92"
    "escape_out h = [CHR ''%'', hex_upper (h div 16), hex_upper (h mod 16)]"
    by (simp_all add: hex_escape_upper kept_escape_def escape_out_def)
  then show ?case using clean_escape(3) by (subst decode_path.simps(2)) simp
qed (auto simp: plain_c_def)

lemma clean_chars: "clean d \<Longrightarrow> c \<in> set d \<Longrightarrow> plain_c c \<or> c = CHR ''%''"
proof (induction rule: clean.induct)
  case (clean_escape h s)
  have "h div 16 < 16" "h mod 16 < 16" using clean_escape(1) by (auto simp: kept_escape_def)
  then show ?case using clean_escape hex_upper_plain by auto
qed auto

lemma clean_split: "clean d \<Longrightarrow> p \<in> set (split_on (CHR ''/'') d) \<Longrightarrow> clean p"
proof (induction arbitrary: p rule: clean.induct)
  case (clean_escape h s)
  have "h div 16 < 16" "h mod 16 < 16" using clean_escape(1) by (auto simp: kept_escape_def)
  then have n: "hex_upper (h div 16) \<noteq> CHR ''/''" "hex_upper (h mod 16) \<noteq> CHR ''/''"
    using hex_upper_plain by auto
  obtain q qs where q: "split_on (CHR ''/'') s = q # qs" by (cases "split_on (CHR ''/'') s") auto
  then show ?case using clean_escape n by (auto intro: clean.clean_escape)
next
  case (clean_plain c s)
  obtain q qs where q: "split_on (CHR ''/'') s = q # qs" by (cases "split_on (CHR ''/'') s") auto
  then show ?case using clean_plain by (auto intro: clean.intros split: if_splits)
qed (auto intro: clean.intros)

lemma clean_join: "(\<And>p. p \<in> set ps \<Longrightarrow> clean p) \<Longrightarrow> clean (join ''/'' ps)"
proof (induction ps)
  case (Cons p ps)
  have "plain_c (CHR ''/'')" by (simp add: plain_c_def)
  then show ?case using Cons by (cases "ps = []") (auto simp: join_Cons intro!: clean_append clean_plain)
qed (simp add: clean_nil)

definition name_seg :: "string \<Rightarrow> bool" where
  "name_seg s \<longleftrightarrow> s \<noteq> [] \<and> s \<noteq> ''.'' \<and> s \<noteq> ''..''"

lemma resolve_segs_names:
  assumes "resolve_segs segs stack tr = (out, tr')" and "\<And>s. s \<in> set stack \<Longrightarrow> name_seg s \<and> P s"
    and "\<And>s. s \<in> set segs \<Longrightarrow> P s"
  shows "s \<in> set out \<Longrightarrow> name_seg s \<and> P s"
  using assms
proof (induction segs stack tr rule: resolve_segs.induct)
  case (2 seg segs stack tr)
  consider "seg = [] \<or> seg = ''.''" | "seg = ''..''" | "name_seg seg" by (auto simp: name_seg_def)
  then show ?case
  proof cases
    case 1
    then show ?thesis using 2(1) [OF refl 1 2(4)] 2(5-) by (auto simp: Let_def)
  next
    case 2
    then show ?thesis using "2.prems" "2.IH"(2) by (auto simp: Let_def dest: in_set_butlastD)
  next
    case 3
    then show ?thesis using "2.prems" "2.IH"(3) by (auto simp: Let_def name_seg_def)
  qed
qed auto

lemma resolve_segs_fixed:
  "(\<And>s. s \<in> set segs \<Longrightarrow> name_seg s) \<Longrightarrow>
   resolve_segs (segs @ rest) stack tr = resolve_segs rest (stack @ segs) (if segs = [] then tr else False)"
  by (induction segs arbitrary: stack tr) (auto simp: name_seg_def Let_def)

lemma normalize_path_cases:
  assumes "normalize_path raw = Inr q"
  obtains stack tr where "q = ''/'' @ join ''/'' stack @ (if tr \<and> stack \<noteq> [] then ''/'' else [])"
    and "\<And>s. s \<in> set stack \<Longrightarrow> name_seg s \<and> clean s \<and> CHR ''/'' \<notin> set s"
proof -
  let ?r = "takeWhile (\<lambda>c. c \<noteq> CHR ''?'' \<and> c \<noteq> CHR ''#'') raw"
  have nq: "CHR ''?'' \<notin> set ?r" "CHR ''#'' \<notin> set ?r" by (auto dest: set_takeWhileD)
  show ?thesis
  proof (cases "?r = []")
    case True
    then have "q = ''/''" using assms by (simp add: normalize_path_def)
    then show ?thesis using that [of "[]" False] by simp
  next
    case False
    then obtain d stack tr where d: "decode_path ?r = Inr d"
      "resolve_segs (split_on (CHR ''/'') d) [] False = (stack, tr)"
      "q = ''/'' @ join ''/'' stack @ (if tr \<and> stack \<noteq> [] then ''/'' else [])"
      using assms by (auto simp: normalize_path_def Let_def split: if_splits sum.splits prod.splits)
    have "clean d" using decode_path_clean [OF d(1) nq] .
    then have p: "clean s \<and> CHR ''/'' \<notin> set s" if "s \<in> set (split_on (CHR ''/'') d)" for s
      using that clean_split split_on_pieces by blast
    have "name_seg s \<and> clean s \<and> CHR ''/'' \<notin> set s" if "s \<in> set stack" for s
      by (rule resolve_segs_names [OF d(2) _ p that]) simp
    then show ?thesis using that d(3) by blast
  qed
qed

text \<open>The pieces of a normal form, and that normalizing it again changes nothing.\<close>

lemma normal_form_pieces:
  assumes n: "\<And>s. s \<in> set stack \<Longrightarrow> name_seg s \<and> clean s \<and> CHR ''/'' \<notin> set s"
    and q: "q = ''/'' @ join ''/'' stack @ (if tr \<and> stack \<noteq> [] then ''/'' else [])"
  shows "split_on (CHR ''/'') q = [] # stack @ (if tr \<or> stack = [] then [[]] else [])"
proof (cases "stack = []")
  case False
  let ?ps = "[] # stack @ (if tr then [[]] else [])"
  have j: "join ''/'' (ss @ [[]]) = join ''/'' ss @ ''/''" if "ss \<noteq> []" for ss
    using that
  proof (induction ss)
    case (Cons a ss)
    then show ?case by (cases "ss = []") (auto simp: join_Cons)
  qed simp
  have "q = join ''/'' ?ps" using False q by (auto simp: join_Cons j)
  moreover have "split_on (CHR ''/'') (join ''/'' ?ps) = ?ps"
    by (rule split_on_join) (use n in auto)
  ultimately show ?thesis using False by simp
qed (simp add: q)

lemma normalize_path_fixed:
  assumes n: "\<And>s. s \<in> set stack \<Longrightarrow> name_seg s \<and> clean s \<and> CHR ''/'' \<notin> set s"
    and q: "q = ''/'' @ join ''/'' stack @ (if tr \<and> stack \<noteq> [] then ''/'' else [])"
  shows "normalize_path q = Inr q"
proof -
  have c: "clean q" unfolding q
    by (intro clean_append clean_join) (auto simp: n plain_c_def intro: clean.intros)
  have "\<And>c. c \<in> set q \<Longrightarrow> c \<noteq> CHR ''?'' \<and> c \<noteq> CHR ''#''"
    using clean_chars [OF c] by (auto simp: plain_c_def)
  then have t: "takeWhile (\<lambda>c. c \<noteq> CHR ''?'' \<and> c \<noteq> CHR ''#'') q = q" by (auto simp: takeWhile_eq_all_conv)
  have "split_on (CHR ''/'') q = [] # stack @ (if tr \<or> stack = [] then [[]] else [])"
    by (rule normal_form_pieces [OF n q])
  then have "resolve_segs (split_on (CHR ''/'') q) [] False = (stack, tr \<and> stack \<noteq> [] \<or> stack = [])"
    using n resolve_segs_fixed [of stack "[]" "[]" False]
      resolve_segs_fixed [of stack "[[]]" "[]" False] by (auto simp: Let_def)
  moreover have "q \<noteq> []" "hd q = CHR ''/''" by (simp_all add: q)
  moreover have "''/'' @ join ''/'' stack @ (if (tr \<and> stack \<noteq> [] \<or> stack = []) \<and> stack \<noteq> [] then ''/'' else []) = q"
    by (auto simp: q)
  ultimately show ?thesis using t clean_decode [OF c]
    by (simp only: normalize_path_def Let_def sum.simps prod.simps if_False refl not_True_eq_False)
qed

lemma normalize_path_slash: "normalize_path raw = Inr q \<Longrightarrow> \<exists>v. q = CHR ''/'' # v"
  by (erule normalize_path_cases) auto

lemma decode_path_append:
  "decode_path a = Inr da \<Longrightarrow> decode_path (a @ b) = map_sum id (\<lambda>d. da @ d) (decode_path b)"
proof (induction a arbitrary: da rule: decode_path.induct)
  case 1
  then show ?case by (cases "decode_path b") simp_all
next
  case (2 x xs)
  show ?case
  proof (cases "x = CHR ''%''")
    case True
    then obtain h d' where h: "hex_escape xs = Some h" "h \<noteq> 0" "h \<noteq> 47" "h \<noteq> 92"
      "decode_path (drop 2 xs) = Inr d'" "da = escape_out h @ d'"
      using 2(3) by (auto split: option.splits if_splits simp: map_sum_eq_Inr)
    have l: "2 \<le> length xs" using h(1) by (auto simp: hex_escape_def split: if_splits)
    then have "hex_escape (xs @ b) = Some h" "drop 2 (xs @ b) = drop 2 xs @ b"
      using h(1) by (auto simp: hex_escape_def)
    moreover have "decode_path (drop 2 xs @ b) = map_sum id (\<lambda>d. d' @ d) (decode_path b)"
      using 2(1) [OF True h(1,2)] h(3-5) by (simp add: id_def)
    ultimately show ?thesis by (cases "decode_path b") (simp_all add: True h del: drop_append)
  next
    case False
    then obtain d' where d': "byte_of x \<noteq> 92" "32 \<le> byte_of x" "byte_of x < 127" "decode_path xs = Inr d'" "da = x # d'"
      using 2(3) by (auto split: if_splits simp: map_sum_eq_Inr)
    then have "decode_path (xs @ b) = map_sum id (\<lambda>d. d' @ d) (decode_path b)"
      using 2(2) [OF False] by (simp add: id_def)
    then show ?thesis using d'(1-3) by (cases "decode_path b") (simp_all add: False d'(4,5))
  qed
qed

section \<open>What the checks decide\<close>

lemma root_glob_matches: "path_glob_match ''/*'' (CHR ''/'' # v)"
  by (simp add: path_glob_match_def glob_match_eq gmatch_prefix_star)

lemma any_path_matches:
  assumes "any_path r" and "normalize_path raw = Inr path"
  shows "path_matches r path"
  using normalize_path_slash [OF assms(2)] assms(1)
  by (auto simp: any_path_def path_matches_def root_glob_matches split: option.splits)

lemma check_allow_iff:
  "check acl meth host raw = VAllow \<longleftrightarrow>
     acl_rules acl = [] \<or>
     (\<exists>path. normalize_path raw = Inr path \<and>
        (\<forall>r \<in> set (acl_rules acl). \<not> rule_matches DenyAct meth (to_ascii_lowercase host) path r) \<and>
        ((\<forall>r \<in> set (acl_rules acl). r_action r = DenyAct) \<or>
         (\<exists>r \<in> set (acl_rules acl). rule_matches AllowAct meth (to_ascii_lowercase host) path r)))"
proof -
  have a: "\<not> has_allow acl \<longleftrightarrow> (\<forall>r \<in> set (acl_rules acl). r_action r = DenyAct)"
    by (auto simp: has_allow_def list_ex_iff) (metis Action.exhaust)
  show ?thesis
  proof (cases "normalize_path raw")
    case (Inl e)
    then show ?thesis by (simp add: check_def is_active_def)
  next
    case (Inr path)
    let ?m = "\<lambda>act. rule_matches act meth (to_ascii_lowercase host) path"
    show ?thesis
    proof (cases "find (?m DenyAct) (acl_rules acl)")
      case None
      then have "\<forall>r \<in> set (acl_rules acl). \<not> ?m DenyAct r" by (auto simp: find_None_iff)
      then show ?thesis using Inr None
        by (auto simp only: check_def is_active_def Let_def a list_ex_iff sum.simps option.simps split: if_splits)
    next
      case (Some r)
      then have "r \<in> set (acl_rules acl)" "?m DenyAct r" by (auto simp: find_Some_iff)
      then show ?thesis using Inr Some by (auto simp: check_def is_active_def Let_def)
    qed
  qed
qed

lemma eq_ignore_trans:
  "eq_ignore_ascii_case a b \<Longrightarrow> eq_ignore_ascii_case b c \<Longrightarrow> eq_ignore_ascii_case a c"
  by (simp add: eq_ignore_ascii_case_def)

lemma literal_path_glob:
  assumes "CHR ''*'' \<notin> set p"
  shows "path_glob_match p path \<longleftrightarrow> path = p"
proof -
  have "strip_suffix ''/*'' p = None"
  proof (rule ccontr)
    assume "strip_suffix ''/*'' p \<noteq> None"
    then have "drop (length p - 2) p = ''/*''" by (auto simp: strip_suffix_def numeral_2_eq_2 split: if_splits)
    then have "CHR ''*'' \<in> set (drop (length p - 2) p)" by simp
    then show False using assms in_set_dropD by fast
  qed
  then show ?thesis using assms by (simp add: path_glob_match_def glob_match_eq gmatch_literal)
qed

text \<open>A deny rule that covers an allow rule with a literal host matches whatever that rule matches.\<close>

lemma covers_sound:
  assumes c: "covers d a" and l: "CHR ''*'' \<notin> set (r_host a)" and d: "r_action d = DenyAct"
    and m: "rule_matches AllowAct meth host path a" and p: "path = CHR ''/'' # v"
  shows "rule_matches DenyAct meth host path d"
proof -
  have h: "host = r_host a" using m l by (simp add: rule_matches_def host_matches_def glob_match_eq gmatch_literal)
  then have "host_matches d host" using c by (simp add: covers_def host_matches_def)
  moreover have "method_matches d meth" using c m
    by (auto simp: covers_def rule_matches_def method_matches_def split: option.splits intro: eq_ignore_trans)
  moreover have "path_matches d path" using c m p
    by (auto simp: covers_def rule_matches_def path_matches_def root_glob_matches literal_path_glob
        split: option.splits)
  ultimately show ?thesis using d by (simp add: rule_matches_def)
qed

lemma lint_set:
  "set (lint acl) =
     (if is_active acl \<and> \<not> has_allow acl
      then {\<lparr>severity = Warn, code = ''deny_only'', message = DenyOnly\<rparr>} else {}) \<union>
     (\<Union>i < length (acl_rules acl). set (lint_rule (acl_rules acl) i))"
  by (auto simp: lint_def Let_def)

lemma find_SomeD: "find P xs = Some x \<Longrightarrow> x \<in> set xs \<and> P x"
  by (auto simp: find_Some_iff)

lemma other_findings:
  assumes "message f = AllowNeverMatches a d"
  shows "f \<notin> set (lint_any_host r)" and "f \<notin> set (lint_metadata r)" and "f \<notin> set (lint_duplicate e r)"
  using assms by (auto simp: lint_any_host_def lint_metadata_def lint_duplicate_def)

lemma lint_shadowedD:
  assumes "f \<in> set (lint_shadowed rs r)" and "message f = AllowNeverMatches a d"
  shows "r_source r = a \<and> CHR ''*'' \<notin> set (r_host r) \<and>
         (\<exists>dr \<in> set rs. r_source dr = d \<and> r_action dr = DenyAct \<and> covers dr r)"
proof (cases "find (\<lambda>d. r_action d = DenyAct \<and> covers d r) rs")
  case None
  then have "lint_shadowed rs r = []" by (simp add: lint_shadowed_def)
  then show ?thesis using assms(1) by (metis empty_iff list.set(1))
next
  case (Some dr)
  have "CHR ''*'' \<notin> set (r_host r)"
    by (rule ccontr) (use assms(1) in \<open>simp add: lint_shadowed_def\<close>)
  moreover from this have "message f = AllowNeverMatches (r_source r) (r_source dr)"
    using assms(1) Some unfolding lint_shadowed_def by simp
  ultimately show ?thesis using find_SomeD [OF Some] assms(2) by auto
qed

lemma lint_rule_never_matches:
  assumes f: "f \<in> set (lint_rule rs i)" and m: "message f = AllowNeverMatches a d"
  shows "r_action (rs ! i) = AllowAct \<and> r_source (rs ! i) = a \<and> CHR ''*'' \<notin> set (r_host (rs ! i)) \<and>
         (\<exists>dr \<in> set rs. r_source dr = d \<and> r_action dr = DenyAct \<and> covers dr (rs ! i))"
proof -
  have act: "r_action (rs ! i) = AllowAct" using f by (simp add: lint_rule_def split: if_split_asm)
  then have "f \<in> set (lint_shadowed rs (rs ! i))" using f other_findings [OF m] by (simp add: lint_rule_def)
  then show ?thesis using lint_shadowedD [OF _ m] act by blast
qed

section \<open>Canonical hosts\<close>

lemma in_tl: "c \<in> set (tl xs) \<Longrightarrow> c \<in> set xs"
  by (cases xs) auto

lemma strip_port_subset: "c \<in> set (strip_port s) \<Longrightarrow> c \<in> set s"
  by (auto simp: strip_port_def rsplit_once_def split: if_splits option.splits
      dest: in_set_takeD dest!: in_tl set_dropWhileD)

definition authority_c :: "char \<Rightarrow> bool" where
  "authority_c b \<longleftrightarrow> \<not> (b = CHR ''@'' \<or> b = CHR ''/'' \<or> byte_of b = 92 \<or> is_space b \<or> is_control b)"

lemma lower_authority: "authority_c b \<Longrightarrow> authority_c (lower_c b)"
  by (auto simp: authority_c_def is_space_def is_control_def byte_lower is_upper_c_def is_lower_c_def
      lower_keeps_char)

lemma canon_host_shape:
  assumes "canon_host s = Inr h"
  shows "h \<noteq> []" and "last h \<noteq> CHR ''.''" and "to_ascii_lowercase h = h" and "\<forall>b \<in> set h. authority_c b"
proof -
  from assms obtain m where m: "h = to_ascii_lowercase (trim_end_matches (CHR ''.'') m)" "h \<noteq> []"
    and sub: "set m \<subseteq> set (trim s)" and ok: "\<forall>b \<in> set (trim s). authority_c b"
  proof -
    have ok: "\<forall>b \<in> set (trim s). authority_c b"
      using assms by (auto simp: canon_host_def Let_def list_ex_iff authority_c_def split: if_splits)
    show ?thesis
    proof (cases "hd (trim s) = CHR ''[''")
      case True
      let ?m = "CHR ''['' # takeWhile (\<lambda>b. b \<noteq> CHR '']'') (tl (trim s)) @ '']''"
      have r: "CHR '']'' \<in> set (tl (trim s))" "trim s \<noteq> []" "h = to_ascii_lowercase (trim_end_matches (CHR ''.'') ?m)" "h \<noteq> []"
        using assms True by (auto simp: canon_host_def Let_def split: if_splits)
      have "set ?m \<subseteq> set (trim s)" using r(1,2) True
        by (cases "trim s") (auto dest: set_takeWhileD)
      then show ?thesis using that [of ?m] r ok by blast
    next
      case False
      have "h = to_ascii_lowercase (trim_end_matches (CHR ''.'') (strip_port (trim s)))" "h \<noteq> []"
        using assms False by (auto simp: canon_host_def Let_def split: if_splits)
      then show ?thesis using that [of "strip_port (trim s)"] strip_port_subset ok by blast
    qed
  qed
  show "h \<noteq> []" by (rule m(2))
  show "last h \<noteq> CHR ''.''" using m last_trim_end_matches [of "CHR ''.''" m]
    by (auto simp: last_map intro!: lower_not_dot)
  show "to_ascii_lowercase h = h" by (simp add: m(1) comp_def)
  show "\<forall>b \<in> set h. authority_c b" using m(1) sub ok by (auto dest!: in_trim intro!: lower_authority)
qed

section \<open>Properties\<close>

text \<open>
  \<^verbatim>\<open>glob_match\<close>, the iterative matcher with one saved star, returns for every pattern and text and
  decides exactly whether the text is an instance of the pattern, with every star standing for some
  run of characters.
\<close>

theorem glob_match_exact: "glob_match p t \<longleftrightarrow> gmatch p t"
  by (rule glob_match_eq)

text \<open>
  C18. A path that \<^verbatim>\<open>normalize_path\<close> accepts comes out canonical: it is absolute, its segments are
  names (never empty, dot or dot-dot) with at most one trailing slash, and normalizing the result
  again gives the same path, so the upstream and the rules see the same string.
\<close>

theorem normalize_path_canonical:
  assumes "normalize_path raw = Inr q"
  shows "(\<exists>names tl. split_on (CHR ''/'') q = [] # names @ tl \<and> tl \<in> {[], [[]]} \<and>
            (\<forall>s \<in> set names. s \<noteq> [] \<and> s \<noteq> ''.'' \<and> s \<noteq> ''..'')) \<and>
         normalize_path q = Inr q"
proof -
  obtain stack tr where st: "q = ''/'' @ join ''/'' stack @ (if tr \<and> stack \<noteq> [] then ''/'' else [])"
    "\<And>s. s \<in> set stack \<Longrightarrow> name_seg s \<and> clean s \<and> CHR ''/'' \<notin> set s"
    using normalize_path_cases [OF assms] by blast
  show ?thesis using normal_form_pieces [OF st(2,1)] normalize_path_fixed [OF st(2,1)] st(2)
    by (auto simp: name_seg_def)
qed

theorem normalize_path_canonical_witness:
  "normalize_path ''/a/./%62//../c%2d/?x'' = Inr ''/a/c-/'' \<and> normalize_path ''/a/c-/'' = Inr ''/a/c-/''"
proof -
  have n: "normalize_path ''/a/./%62//../c%2d/?x'' = Inr ''/a/c-/''" by code_simp
  show ?thesis using n normalize_path_canonical [OF n] by simp
qed

text \<open>
  C19. Percent-encoding an unreserved byte does not get a request past the rules: in a path whose
  beginning \<open>a\<close> decodes, writing the byte as an escape and writing it as itself give the same verdict
  for every rule set, method and host.
\<close>

theorem acl_escape_evasion:
  assumes "decode_path a = Inr da" and "hd a = CHR ''/''" and "a \<noteq> []"
    and "CHR ''?'' \<notin> set a" and "CHR ''#'' \<notin> set a"
    and "is_unreserved c" and "hex_escape [x, y] = Some (of_char c)"
    and "x \<noteq> CHR ''?''" and "x \<noteq> CHR ''#''" and "y \<noteq> CHR ''?''" and "y \<noteq> CHR ''#''"
  shows "check acl meth host (a @ CHR ''%'' # x # y # b) = check acl meth host (a @ c # b)"
proof -
  let ?tw = "takeWhile (\<lambda>c. c \<noteq> CHR ''?'' \<and> c \<noteq> CHR ''#'')"
  note p = is_unreserved_plain [OF assms(6)]
  have c: "byte_of c \<noteq> 0" "byte_of c \<noteq> 47" "byte_of c \<noteq> 92" "c \<noteq> CHR ''%''" "\<not> byte_of c < 32"
    "byte_of c \<noteq> 127" "\<not> 128 \<le> byte_of c" "c \<noteq> CHR ''?''" "c \<noteq> CHR ''#''"
    using p byte_neq [of c "CHR ''/''"] of_char_eq_iff [of c "CHR ''/''", where ?'a = nat] by (auto simp: plain_c_def)
  have h: "hex_escape (x # y # s) = Some (of_char c)" for s using assms(7) by (simp add: hex_escape_def)
  have "(@) [c] = (#) c" by auto
  then have "decode_path (CHR ''%'' # x # y # s) = decode_path (c # s)" for s
    using c h [of s] assms(6) by (simp add: escape_out_def)
  then have "decode_path (a @ CHR ''%'' # x # y # s) = decode_path (a @ c # s)" for s
    using decode_path_append [OF assms(1)] by metis
  moreover have "?tw (a @ t) = a @ ?tw t" for t using assms(4,5) by (intro takeWhile_append2) auto
  ultimately have "normalize_path (a @ CHR ''%'' # x # y # b) = normalize_path (a @ c # b)"
    using assms c(8,9) by (simp add: normalize_path_def Let_def)
  then show ?thesis by (simp add: check_def)
qed

theorem acl_escape_evasion_witness:
  "check \<lparr>acl_rules = [\<lparr>r_action = DenyAct, r_method = None, r_host = ''*'', r_path = Some ''/admin/*'', r_source = []\<rparr>]\<rparr>
     ''GET'' ''h'' ''/%61dmin'' =
   check \<lparr>acl_rules = [\<lparr>r_action = DenyAct, r_method = None, r_host = ''*'', r_path = Some ''/admin/*'', r_source = []\<rparr>]\<rparr>
     ''GET'' ''h'' ''/admin''"
proof -
  have "decode_path ''/'' = Inr ''/''" "is_unreserved (CHR ''a'')" "hex_escape ''61'' = Some (of_char (CHR ''a''))"
    by code_simp+
  then show ?thesis
    using acl_escape_evasion [of "''/''" "''/''" "CHR ''a''" "CHR ''6''" "CHR ''1''"
        "\<lparr>acl_rules = [\<lparr>r_action = DenyAct, r_method = None, r_host = ''*'', r_path = Some ''/admin/*'', r_source = []\<rparr>]\<rparr>"
        "''GET''" "''h''" "''dmin''"] by simp
qed

text \<open>
  C3. \<^verbatim>\<open>check\<close> lets a request through exactly when there are no rules, or its path normalizes, no deny
  rule matches it, and either the set has only deny rules or an allow rule matches it. The verdict
  depends on the set of rules only: neither their order nor repetitions change it, so a deny rule
  wins wherever it stands.
\<close>

theorem check_decides:
  "(check acl meth host raw = VAllow \<longleftrightarrow>
     acl_rules acl = [] \<or>
     (\<exists>path. normalize_path raw = Inr path \<and>
        (\<forall>r \<in> set (acl_rules acl). \<not> rule_matches DenyAct meth (to_ascii_lowercase host) path r) \<and>
        ((\<forall>r \<in> set (acl_rules acl). r_action r = DenyAct) \<or>
         (\<exists>r \<in> set (acl_rules acl). rule_matches AllowAct meth (to_ascii_lowercase host) path r)))) \<and>
   (set (acl_rules acl') = set (acl_rules acl) \<longrightarrow>
      is_allow (check acl' meth host raw) = is_allow (check acl meth host raw))"
proof -
  have "acl_rules acl' = [] \<longleftrightarrow> acl_rules acl = []" if "set (acl_rules acl') = set (acl_rules acl)"
    using that by (metis set_empty)
  then show ?thesis unfolding is_allow_def check_allow_iff [of acl'] check_allow_iff [of acl] by simp
qed

definition acl_example :: HttpAcl where
  "acl_example = \<lparr>acl_rules =
     [\<lparr>r_action = AllowAct, r_method = Some ''GET'', r_host = ''docs.example'', r_path = None, r_source = ''allow GET docs.example''\<rparr>,
      \<lparr>r_action = DenyAct, r_method = None, r_host = ''*'', r_path = Some ''/admin/*'', r_source = ''deny * */admin/*''\<rparr>]\<rparr>"

theorem check_decides_witness:
  "check acl_example ''get'' ''Docs.Example'' ''/a/../b'' = VAllow \<and>
   is_allow (check \<lparr>acl_rules = rev (acl_rules acl_example)\<rparr> ''get'' ''Docs.Example'' ''/a/../b'')"
proof -
  have "check acl_example ''get'' ''Docs.Example'' ''/a/../b'' = VAllow" by code_simp
  moreover have "set (acl_rules \<lparr>acl_rules = rev (acl_rules acl_example)\<rparr>) = set (acl_rules acl_example)" by simp
  ultimately show ?thesis
    using check_decides [of acl_example "''get''" "''Docs.Example''" "''/a/../b''" "\<lparr>acl_rules = rev (acl_rules acl_example)\<rparr>"]
    by (simp add: is_allow_def)
qed

text \<open>
  The check before an intercepted tunnel is sound: when \<^verbatim>\<open>check_intercepted_connect\<close> refuses a host,
  \<^verbatim>\<open>check\<close> would have refused every request to it, whatever its method and path.
\<close>

theorem intercept_refusal_sound:
  assumes "check_intercepted_connect acl host \<noteq> VAllow"
  shows "check acl meth host raw \<noteq> VAllow"
proof
  let ?h = "to_ascii_lowercase host"
  assume c: "check acl meth host raw = VAllow"
  have act: "acl_rules acl \<noteq> []" using assms by (auto simp: check_intercepted_connect_def is_active_def)
  then obtain path where p: "normalize_path raw = Inr path"
    "\<forall>r \<in> set (acl_rules acl). \<not> rule_matches DenyAct meth ?h path r"
    "(\<forall>r \<in> set (acl_rules acl). r_action r = DenyAct) \<or>
     (\<exists>r \<in> set (acl_rules acl). rule_matches AllowAct meth ?h path r)"
    using c unfolding check_allow_iff by blast
  let ?P = "\<lambda>r. r_action r = DenyAct \<and> r_method r = None \<and> any_path r \<and> host_matches r ?h"
  show False
  proof (cases "find ?P (acl_rules acl)")
    case (Some r)
    then have r: "r \<in> set (acl_rules acl)" "?P r" using find_SomeD by fast+
    then have "rule_matches DenyAct meth ?h path r"
      using any_path_matches [OF _ p(1)] by (simp add: rule_matches_def method_matches_def)
    then show False using p(2) r by blast
  next
    case None
    then have "has_allow acl" "\<not> list_ex (\<lambda>r. r_action r = AllowAct \<and> host_matches r ?h) (acl_rules acl)"
      using assms act unfolding check_intercepted_connect_def is_active_def Let_def by (auto split: if_split_asm)
    then show False using p(3) by (auto simp: has_allow_def list_ex_iff rule_matches_def)
  qed
qed

theorem intercept_refusal_sound_witness:
  "check_intercepted_connect acl_example ''other.example'' \<noteq> VAllow \<and>
   check acl_example ''POST'' ''other.example'' ''/x'' \<noteq> VAllow"
proof -
  have "check_intercepted_connect acl_example ''other.example'' \<noteq> VAllow" by code_simp
  then show ?thesis using intercept_refusal_sound [of acl_example "''other.example''" "''POST''" "''/x''"] by simp
qed



text \<open>
  The restriction to rules without the method \<^verbatim>\<open>CONNECT\<close> is needed: a rule for \<^verbatim>\<open>CONNECT\<close> opens the tunnel
  although every plain request to the same host is refused.
\<close>

lemma tunnel_connect_rule_gap:
  "check_connect \<lparr>acl_rules = [\<lparr>r_action = AllowAct, r_method = Some ''CONNECT'', r_host = ''h'', r_path = None, r_source = []\<rparr>]\<rparr> ''h'' = VAllow \<and>
   \<not> is_allow (check \<lparr>acl_rules = [\<lparr>r_action = AllowAct, r_method = Some ''CONNECT'', r_host = ''h'', r_path = None, r_source = []\<rparr>]\<rparr> ''GET'' ''h'' ''/'')"
  by code_simp

text \<open>
  A lint warning that an allow rule can never match is true: every request that rule matches is
  refused, because the deny rule the warning names matches it too.
\<close>

theorem lint_never_matches_sound:
  assumes "f \<in> set (lint acl)" and "message f = AllowNeverMatches src dsrc"
  shows "\<exists>r \<in> set (acl_rules acl). r_action r = AllowAct \<and> r_source r = src \<and>
           (\<forall>meth host raw path. normalize_path raw = Inr path \<longrightarrow>
              rule_matches AllowAct meth (to_ascii_lowercase host) path r \<longrightarrow>
              \<not> is_allow (check acl meth host raw))"
proof -
  have "message f \<noteq> DenyOnly" using assms(2) by simp
  then obtain i where i: "i < length (acl_rules acl)" "f \<in> set (lint_rule (acl_rules acl) i)"
    using assms(1) unfolding lint_set by (auto split: if_split_asm)
  let ?r = "acl_rules acl ! i"
  obtain dr where r: "r_action ?r = AllowAct" "r_source ?r = src" "CHR ''*'' \<notin> set (r_host ?r)"
    and dr: "dr \<in> set (acl_rules acl)" "r_action dr = DenyAct" "covers dr ?r"
    using lint_rule_never_matches [OF i(2) assms(2)] by blast
  have "\<not> is_allow (check acl meth host raw)"
    if n: "normalize_path raw = Inr path" and m: "rule_matches AllowAct meth (to_ascii_lowercase host) path ?r"
    for meth host raw path
  proof -
    obtain v where v: "path = CHR ''/'' # v" using normalize_path_slash [OF n] by blast
    have "rule_matches DenyAct meth (to_ascii_lowercase host) path dr"
      by (rule covers_sound [OF dr(3) r(3) dr(2) m v])
    moreover have "acl_rules acl \<noteq> []" using dr(1) by auto
    ultimately show ?thesis using dr(1) n unfolding is_allow_def check_allow_iff by auto
  qed
  then show ?thesis using r i(1) nth_mem [of i "acl_rules acl"] by blast
qed

definition shadowed_example :: HttpAcl where
  "shadowed_example = \<lparr>acl_rules =
     [\<lparr>r_action = AllowAct, r_method = Some ''GET'', r_host = ''h'', r_path = Some ''/admin/x'', r_source = ''a''\<rparr>,
      \<lparr>r_action = DenyAct, r_method = None, r_host = ''*'', r_path = Some ''/admin/*'', r_source = ''d''\<rparr>]\<rparr>"

theorem lint_never_matches_sound_witness:
  "\<exists>r \<in> set (acl_rules shadowed_example). r_action r = AllowAct \<and> r_source r = ''a'' \<and>
     (\<forall>meth host raw path. normalize_path raw = Inr path \<longrightarrow>
        rule_matches AllowAct meth (to_ascii_lowercase host) path r \<longrightarrow>
        \<not> is_allow (check shadowed_example meth host raw))"
proof (rule lint_never_matches_sound)
  show "\<lparr>severity = Warn, code = ''allow_never_matches'', message = AllowNeverMatches ''a'' ''d''\<rparr> \<in> set (lint shadowed_example)"
    by code_simp
qed simp



text \<open>
  A port followed by a dot survives: the trailing dot is removed after the port has been looked for,
  so the result is not a fixed point and a deny rule for the host does not match it.
\<close>

lemma canon_host_keeps_dotted_port:
  "canon_host ''h.example:80.'' = Inr ''h.example:80'' \<and> canon_host ''h.example:80'' = Inr ''h.example'' \<and>
   is_allow (check \<lparr>acl_rules = [\<lparr>r_action = DenyAct, r_method = None, r_host = ''h.example'', r_path = None, r_source = []\<rparr>]\<rparr>
     ''GET'' ''h.example:80'' ''/'')"
  by code_simp

text \<open>\<^verbatim>\<open>u8::from_str_radix\<close> takes a plus sign, so this malformed escape is accepted.\<close>

lemma plus_escape_accepted: "normalize_path ''/a%+e'' = Inr ''/a%0E''"
  by code_simp

end
