(* ===== verification/Rust_Net.thy ===== *)
theory Rust_Net
  imports Rust_Text
begin

text \<open>
  The address types of the Rust standard library (\<^verbatim>\<open>std::net\<close>): an address is its number, and the
  parser follows the standard library's, including what it refuses (leading zeros in an IPv4
  octet, an IPv4 part before \<^verbatim>\<open>::\<close>, text left over).
\<close>

unbundle bit_operations_syntax

section \<open>Addresses\<close>

datatype IpAddr = V4 "32 word" | V6 "128 word"

definition v4_octet :: "nat \<Rightarrow> 32 word \<Rightarrow> nat" where
  "v4_octet i a = unat (drop_bit (8 * (3 - i)) a) mod 256"

definition v6_segment0 :: "128 word \<Rightarrow> nat" where
  "v6_segment0 a = unat (drop_bit 112 a)"

definition v4_is_loopback :: "32 word \<Rightarrow> bool" where
  "v4_is_loopback a \<longleftrightarrow> v4_octet 0 a = 127"

definition v4_is_private :: "32 word \<Rightarrow> bool" where
  "v4_is_private a \<longleftrightarrow>
     v4_octet 0 a = 10 \<or>
     v4_octet 0 a = 172 \<and> 16 \<le> v4_octet 1 a \<and> v4_octet 1 a \<le> 31 \<or>
     v4_octet 0 a = 192 \<and> v4_octet 1 a = 168"

definition v4_is_link_local :: "32 word \<Rightarrow> bool" where
  "v4_is_link_local a \<longleftrightarrow> v4_octet 0 a = 169 \<and> v4_octet 1 a = 254"

definition v4_is_multicast :: "32 word \<Rightarrow> bool" where
  "v4_is_multicast a \<longleftrightarrow> 224 \<le> v4_octet 0 a \<and> v4_octet 0 a \<le> 239"

definition v6_is_multicast :: "128 word \<Rightarrow> bool" where
  "v6_is_multicast a \<longleftrightarrow> v6_segment0 a div 256 = 255"

definition v6_is_unique_local :: "128 word \<Rightarrow> bool" where
  "v6_is_unique_local a \<longleftrightarrow> v6_segment0 a div 512 = 0xfc00 div 512"

definition v6_is_unicast_link_local :: "128 word \<Rightarrow> bool" where
  "v6_is_unicast_link_local a \<longleftrightarrow> v6_segment0 a div 64 = 0xfe80 div 64"

definition to_ipv4_mapped :: "128 word \<Rightarrow> 32 word option" where
  "to_ipv4_mapped a = (if drop_bit 32 a = 0xffff then Some (ucast a) else None)"

section \<open>Parsing\<close>

text \<open>A reader takes the text and gives the value with the text after it.\<close>

definition read_number :: "nat \<Rightarrow> nat \<Rightarrow> bool \<Rightarrow> nat \<Rightarrow> string \<Rightarrow> (nat \<times> string) option" where
  "read_number radix max_digits zero_prefix bound s =
     (let ds = takeWhile (\<lambda>c. case digit_val c of None \<Rightarrow> False | Some d \<Rightarrow> d < radix) s in
      if ds = [] \<or> max_digits < length ds \<or> \<not> zero_prefix \<and> hd ds = CHR ''0'' \<and> 1 < length ds then None
      else map_option (\<lambda>n. (n, drop (length ds) s)) (radix_val radix bound 0 ds))"

definition read_separator :: "char \<Rightarrow> nat \<Rightarrow> (string \<Rightarrow> ('a \<times> string) option) \<Rightarrow> string \<Rightarrow> ('a \<times> string) option" where
  "read_separator c i rd s =
     (if i = 0 then rd s else case s of [] \<Rightarrow> None | x # xs \<Rightarrow> if x = c then rd xs else None)"

primrec read_octets :: "nat \<Rightarrow> nat \<Rightarrow> string \<Rightarrow> (nat list \<times> string) option" where
  "read_octets 0 i s = Some ([], s)"
| "read_octets (Suc n) i s =
     (case read_separator CHR ''.'' i (read_number 10 3 False 256) s of
        None \<Rightarrow> None
      | Some (b, r) \<Rightarrow> map_option (\<lambda>(bs, r'). (b # bs, r')) (read_octets n (i + 1) r))"

definition be_number :: "nat \<Rightarrow> nat list \<Rightarrow> nat" where
  "be_number radix ds = foldl (\<lambda>acc d. acc * radix + d) 0 ds"

definition read_ipv4_addr :: "string \<Rightarrow> (nat list \<times> string) option" where
  "read_ipv4_addr s = read_octets 4 0 s"

primrec read_groups :: "nat \<Rightarrow> nat \<Rightarrow> string \<Rightarrow> nat list \<times> bool \<times> string" where
  "read_groups 0 i s = ([], False, s)"
| "read_groups (Suc n) i s =
     (case (if 0 < n then read_separator CHR '':'' i read_ipv4_addr s else None) of
        Some (bs, r) \<Rightarrow> ([be_number 256 (take 2 bs), be_number 256 (drop 2 bs)], True, r)
      | None \<Rightarrow>
          (case read_separator CHR '':'' i (read_number 16 4 True 65536) s of
             None \<Rightarrow> ([], False, s)
           | Some (g, r) \<Rightarrow> (case read_groups n (i + 1) r of (gs, v4, r') \<Rightarrow> (g # gs, v4, r'))))"

definition read_ipv6_addr :: "string \<Rightarrow> (nat list \<times> string) option" where
  "read_ipv6_addr s =
     (case read_groups 8 0 s of
        (head, v4, r) \<Rightarrow>
          if length head = 8 then Some (head, r)
          else if v4 then None
          else
            (case strip_prefix ''::'' r of
               None \<Rightarrow> None
             | Some r' \<Rightarrow>
                 (case read_groups (8 - (length head + 1)) 0 r' of
                    (tail, _, r'') \<Rightarrow> Some (head @ replicate (8 - length head - length tail) 0 @ tail, r''))))"

definition parse_ip :: "string \<Rightarrow> IpAddr option" where
  "parse_ip s =
     (case (case read_ipv4_addr s of
              Some (bs, r) \<Rightarrow> Some (V4 (of_nat (be_number 256 bs)), r)
            | None \<Rightarrow> map_option (\<lambda>(gs, r). (V6 (of_nat (be_number 65536 gs)), r)) (read_ipv6_addr s)) of
        Some (a, []) \<Rightarrow> Some a
      | _ \<Rightarrow> None)"

section \<open>Printing and reading back\<close>

definition v4_string :: "32 word \<Rightarrow> string" where
  "v4_string a = join ''.'' (map (\<lambda>i. dec_string (v4_octet i a)) [0, 1, 2, 3])"

lemma v4_octet_less [simp]: "v4_octet i a < 256"
  by (simp add: v4_octet_def)

lemma v4_octet_div: "v4_octet i a = unat a div 2 ^ (8 * (3 - i)) mod 256"
  by (simp only: v4_octet_def unat_drop_bit_eq) (simp only: drop_bit_eq_div)

lemma base256_digits:
  "256 * x + d = (n :: nat) \<Longrightarrow> 256 * y + c = x \<Longrightarrow> 256 * z + b = y \<Longrightarrow> ((z * 256 + b) * 256 + c) * 256 + d = n"
  by auto

lemma v4_octets_number:
  "((v4_octet 0 a * 256 + v4_octet 1 a) * 256 + v4_octet 2 a) * 256 + v4_octet 3 a = unat a"
proof -
  define n where "n = unat a"
  have "n < 4294967296" using unsigned_less [of a] by (simp add: n_def)
  then have o: "v4_octet 0 a = n div 16777216" "v4_octet 1 a = n div 65536 mod 256"
      "v4_octet 2 a = n div 256 mod 256" "v4_octet 3 a = n mod 256"
    by (simp_all add: v4_octet_div flip: n_def)
  have d: "n div 256 div 256 = n div 65536" "n div 65536 div 256 = n div 16777216"
    by (simp_all flip: div_mult2_eq)
  show ?thesis
    using mult_div_mod_eq [of 256 n] mult_div_mod_eq [of 256 "n div 256"] mult_div_mod_eq [of 256 "n div 65536"]
    unfolding o d n_def [symmetric] by (rule base256_digits)
qed

lemma dec_string_zero: "hd (dec_string n) = CHR ''0'' \<Longrightarrow> dec_string n = ''0''"
proof (induction n rule: dec_string.induct)
  case (1 n)
  show ?case
  proof (cases "n < 10")
    case True
    then have d: "dec_string n = [digit_char n]" by (subst dec_string.simps) simp
    with "1.prems" show ?thesis by simp
  next
    case False
    then have d: "dec_string n = dec_string (n div 10) @ [digit_char (n mod 10)]" by (subst dec_string.simps) simp
    obtain x xs where x: "dec_string (n div 10) = x # xs" using dec_string_head by blast
    then have "dec_string (n div 10) = ''0''" using d 1 False by simp
    then have "radix_val 10 (Suc (n div 10)) 0 ''0'' = Some (n div 10)" using radix_val_dec_string [of "n div 10"] by simp
    then have "n div 10 = 0" by (simp add: digit_val_def is_digit_c_def split: if_splits)
    with False show ?thesis by simp
  qed
qed

lemma read_number_dec:
  assumes "n < 256" and "r = [] \<or> (\<exists>c cs. r = c # cs \<and> digit_val c = None)"
  shows "read_number 10 3 False 256 (dec_string n @ r) = Some (n, r)"
proof -
  let ?d = "\<lambda>c. case digit_val c of None \<Rightarrow> False | Some d \<Rightarrow> d < (10 :: nat)"
  have all: "\<forall>c \<in> set (dec_string n). ?d c"
    using dec_string_digits by (fastforce simp: digit_val_def is_digit_c_def)
  have "takeWhile ?d r = []" using assms(2) by auto
  then have t: "takeWhile ?d (dec_string n @ r) = dec_string n" using all by (simp add: takeWhile_append2)
  have "length (dec_string n) \<le> 3" using length_dec_string [of n 2] assms(1) by simp
  moreover have "dec_string n \<noteq> []" using dec_string_head [of n] by auto
  moreover have "\<not> (hd (dec_string n) = CHR ''0'' \<and> 1 < length (dec_string n))" using dec_string_zero [of n] by auto
  ultimately show ?thesis
    using radix_val_dec_string [OF assms(1)] by (simp only: read_number_def t Let_def) auto
qed

text \<open>Every IPv4 address is read back from its dotted form.\<close>

lemma parse_ip_v4_string: "parse_ip (v4_string a) = Some (V4 a)"
proof -
  let ?b = "\<lambda>i. v4_octet i a"
  have dot: "digit_val CHR ''.'' = None" by (simp add: digit_val_def is_digit_c_def is_lower_c_def is_upper_c_def)
  have n: "read_number 10 3 False 256 (dec_string (?b i) @ CHR ''.'' # r) = Some (?b i, CHR ''.'' # r)"
      "read_number 10 3 False 256 (dec_string (?b i)) = Some (?b i, [])" for i r
    using read_number_dec [of "?b i" "CHR ''.'' # r"] read_number_dec [of "?b i" "[]"] dot by simp_all
  have four: "4 = Suc (Suc (Suc (Suc 0)))" by simp
  have "read_ipv4_addr (v4_string a) = Some ([?b 0, ?b 1, ?b 2, ?b 3], [])"
    by (simp add: read_ipv4_addr_def v4_string_def read_separator_def n four)
  moreover have "of_nat (be_number 256 [?b 0, ?b 1, ?b 2, ?b 3]) = a"
    using v4_octets_number [of a] by (simp add: be_number_def)
  ultimately show ?thesis by (simp add: parse_ip_def)
qed

lemma read_number_Nil [simp]: "read_number r m z b [] = None"
  by (simp add: read_number_def)

lemma parse_ip_Nil: "parse_ip [] = None"
proof -
  have v4: "read_ipv4_addr [] = None"
    unfolding read_ipv4_addr_def numeral_nat by (simp add: read_separator_def)
  have "read_groups (Suc n) 0 [] = ([], False, [])" for n using v4 by (simp add: read_separator_def)
  from this [of 7] have "read_ipv6_addr [] = None" by (simp add: read_ipv6_addr_def strip_prefix_def)
  then show ?thesis using v4 by (simp add: parse_ip_def)
qed

end
