(* ===== verification/Grants.thy ===== *)
theory Grants
  imports Rust_Net
begin

text \<open>
  The credential broker (\<^verbatim>\<open>fluxvm-core/src/grants.rs\<close> and its entry point in
  \<^verbatim>\<open>fluxvm-scheduler/src/grants.rs\<close>): per-sandbox grants of a secret for some destination hosts.
  A time is a number of nanoseconds, the new grant's UUID is an argument, and every operation
  holds the store's lock from beginning to end, so a history is a sequence of operations.
\<close>

section \<open>Data\<close>

type_synonym instant = int

definition seconds :: "int \<Rightarrow> int" where
  "seconds n = n * 1000000000"

definition DEFAULT_GRANT_TTL_SECS :: int where "DEFAULT_GRANT_TTL_SECS = 3600"
definition MAX_GRANT_TTL_SECS :: int where "MAX_GRANT_TTL_SECS = 24 * 3600"
definition MAX_GRANTS_PER_SANDBOX :: nat where "MAX_GRANTS_PER_SANDBOX = 32"

datatype Secret = Secret (expose: string)

record GrantRequest =
  rq_secret_ref :: string
  rq_value :: "Secret option"
  rq_hosts :: "string list"
  rq_ttl_seconds :: "int option"
  rq_expires_at :: "instant option"

record GrantInfo =
  gi_id :: string
  gi_sandbox_id :: string
  gi_secret_ref :: string
  gi_hosts :: "string list"
  gi_created_at :: instant
  gi_expires_at :: instant
  gi_bound :: bool

record Grant =
  g_info :: GrantInfo
  g_value :: Secret

record Injection =
  inj_sandbox_id :: string
  inj_grant_id :: string
  inj_secret_ref :: string
  inj_authorization :: Secret

text \<open>The messages of \<^verbatim>\<open>GrantError::Invalid\<close> as data.\<close>

datatype GrantInvalid =
    BadSecretRef | EmptySecret | NoHostGiven | BadHost string | BadTtl | ExpiryInPast | LifetimeTooLong

datatype GrantError = Invalid GrantInvalid | TooMany

record GrantStore =
  st_grants :: "string \<rightharpoonup> Grant list"
  st_sources :: "IpAddr \<rightharpoonup> string"

definition grant_store_new :: GrantStore where
  "grant_store_new = \<lparr>st_grants = Map.empty, st_sources = Map.empty\<rparr>"

section \<open>Hosts and secret names\<close>

definition ends_with :: "string \<Rightarrow> string \<Rightarrow> bool" where
  "ends_with s p \<longleftrightarrow> strip_suffix p s \<noteq> None"

definition grant_host_matches :: "string \<Rightarrow> string \<Rightarrow> bool" where
  "grant_host_matches pattern host =
     (let p = to_ascii_lowercase (trim_start_matches CHR ''.'' (trim pattern));
          h = to_ascii_lowercase (trim_end_matches CHR ''.'' (trim host))
      in p \<noteq> [] \<and> (h = p \<or> ends_with h (CHR ''.'' # p)))"

definition secret_env_name :: "string \<Rightarrow> string" where
  "secret_env_name secret_ref =
     ''FLUXVM_SECRET_'' @ map (\<lambda>c. if is_alphanumeric c then upper_c c else CHR ''_'') secret_ref"

definition bad_host_char :: "char \<Rightarrow> bool" where
  "bad_host_char c \<longleftrightarrow> is_space c \<or> c \<in> set ''*/:@?''"

definition normalize_host :: "string \<Rightarrow> GrantError + string" where
  "normalize_host h0 =
     (let h = to_ascii_lowercase (trim_start_matches CHR ''.'' (trim h0)) in
      if h = [] \<or> list_ex bad_host_char h then Inl (Invalid (BadHost h)) else Inr h)"

fun normalize_hosts :: "string list \<Rightarrow> GrantError + string list" where
  "normalize_hosts [] = Inr []"
| "normalize_hosts (h # hs) =
     (case normalize_host h of
        Inl e \<Rightarrow> Inl e
      | Inr p \<Rightarrow> (case normalize_hosts hs of Inl e \<Rightarrow> Inl e | Inr ps \<Rightarrow> Inr (p # ps)))"

section \<open>Operations of the store\<close>

definition grant_expiry :: "GrantRequest \<Rightarrow> instant \<Rightarrow> GrantError + instant" where
  "grant_expiry req now =
     (case (rq_expires_at req, rq_ttl_seconds req) of
        (Some t, _) \<Rightarrow> Inr t
      | (None, Some ttl) \<Rightarrow>
          if ttl \<le> 0 \<or> MAX_GRANT_TTL_SECS < ttl then Inl (Invalid BadTtl) else Inr (now + seconds ttl)
      | (None, None) \<Rightarrow> Inr (now + seconds DEFAULT_GRANT_TTL_SECS))"

text \<open>What \<^verbatim>\<open>add\<close> checks before it takes the lock: the grant's hosts and expiry.\<close>

definition vet_grant :: "GrantRequest \<Rightarrow> Secret \<Rightarrow> instant \<Rightarrow> GrantError + (string list \<times> instant)" where
  "vet_grant req val now =
     (let secret_ref = trim (rq_secret_ref req) in
      if secret_ref = [] \<or> 128 < length secret_ref then Inl (Invalid BadSecretRef)
      else if expose val = [] then Inl (Invalid EmptySecret)
      else if rq_hosts req = [] then Inl (Invalid NoHostGiven)
      else
        (case normalize_hosts (rq_hosts req) of
           Inl e \<Rightarrow> Inl e
         | Inr hosts \<Rightarrow>
             (case grant_expiry req now of
                Inl e \<Rightarrow> Inl e
              | Inr expires_at \<Rightarrow>
                  if expires_at \<le> now then Inl (Invalid ExpiryInPast)
                  else if now + seconds MAX_GRANT_TTL_SECS < expires_at then Inl (Invalid LifetimeTooLong)
                  else Inr (hosts, expires_at))))"

definition live :: "instant \<Rightarrow> Grant \<Rightarrow> bool" where
  "live now g \<longleftrightarrow> now < gi_expires_at (g_info g)"

definition grants_of :: "GrantStore \<Rightarrow> string \<Rightarrow> Grant list" where
  "grants_of st sandbox_id = (case st_grants st sandbox_id of None \<Rightarrow> [] | Some gs \<Rightarrow> gs)"

definition grant_add ::
  "string \<Rightarrow> string \<Rightarrow> GrantRequest \<Rightarrow> Secret \<Rightarrow> IpAddr option \<Rightarrow> instant \<Rightarrow> GrantStore
     \<Rightarrow> (GrantError + GrantInfo) \<times> GrantStore" where
  "grant_add uuid sandbox_id req val source_ip now st =
     (case vet_grant req val now of
        Inl e \<Rightarrow> (Inl e, st)
      | Inr (hosts, expires_at) \<Rightarrow>
          (let kept = filter (live now) (grants_of st sandbox_id) in
           if MAX_GRANTS_PER_SANDBOX \<le> length kept
           then (Inl TooMany, st\<lparr>st_grants := (st_grants st)(sandbox_id \<mapsto> kept)\<rparr>)
           else
             (let info = \<lparr>gi_id = uuid, gi_sandbox_id = sandbox_id, gi_secret_ref = trim (rq_secret_ref req),
                          gi_hosts = hosts, gi_created_at = now, gi_expires_at = expires_at,
                          gi_bound = (source_ip \<noteq> None)\<rparr>
              in (Inr info,
                  \<lparr>st_grants = (st_grants st)(sandbox_id \<mapsto> kept @ [\<lparr>g_info = info, g_value = val\<rparr>]),
                   st_sources = (case source_ip of None \<Rightarrow> st_sources st
                                 | Some ip \<Rightarrow> (st_sources st)(ip \<mapsto> sandbox_id))\<rparr>))))"

definition grant_remove :: "string \<Rightarrow> string \<Rightarrow> GrantStore \<Rightarrow> bool \<times> GrantStore" where
  "grant_remove sandbox_id grant_id st =
     (case st_grants st sandbox_id of
        None \<Rightarrow> (False, st)
      | Some gs \<Rightarrow>
          (let kept = filter (\<lambda>g. gi_id (g_info g) \<noteq> grant_id) gs
           in (length kept \<noteq> length gs, st\<lparr>st_grants := (st_grants st)(sandbox_id \<mapsto> kept)\<rparr>)))"

definition remove_sandbox :: "string \<Rightarrow> GrantStore \<Rightarrow> GrantStore" where
  "remove_sandbox sandbox_id st =
     \<lparr>st_grants = (st_grants st)(sandbox_id := None),
      st_sources = (\<lambda>ip. if st_sources st ip = Some sandbox_id then None else st_sources st ip)\<rparr>"

definition grant_list :: "string \<Rightarrow> instant \<Rightarrow> GrantStore \<Rightarrow> GrantInfo list" where
  "grant_list sandbox_id now st = map g_info (filter (live now) (grants_of st sandbox_id))"

definition injection_of :: "Grant \<Rightarrow> Injection" where
  "injection_of g =
     \<lparr>inj_sandbox_id = gi_sandbox_id (g_info g), inj_grant_id = gi_id (g_info g),
      inj_secret_ref = gi_secret_ref (g_info g), inj_authorization = g_value g\<rparr>"

definition grant_resolve :: "IpAddr \<Rightarrow> string \<Rightarrow> instant \<Rightarrow> GrantStore \<Rightarrow> Injection option" where
  "grant_resolve peer host now st =
     (case st_sources st peer of
        None \<Rightarrow> None
      | Some sandbox \<Rightarrow>
          (case st_grants st sandbox of
             None \<Rightarrow> None
           | Some gs \<Rightarrow>
               map_option injection_of
                 (find (\<lambda>g. list_ex (\<lambda>p. grant_host_matches p host) (gi_hosts (g_info g)))
                   (filter (live now) gs))))"

section \<open>The scheduler's entry points\<close>

text \<open>
  \<^verbatim>\<open>resolve_secret\<close> with the environment as a function, and \<^verbatim>\<open>add_grant\<close> and \<^verbatim>\<open>revoke_grant\<close> for a
  sandbox that exists, with its recorded guest address.
\<close>

datatype SchedError = SecretNotFound string string | CreatingGrant GrantError

definition resolve_secret :: "GrantRequest \<Rightarrow> (string \<Rightarrow> string option) \<Rightarrow> SchedError + Secret" where
  "resolve_secret req env =
     (case rq_value req of
        Some v \<Rightarrow> Inr v
      | None \<Rightarrow>
          (let name = secret_env_name (trim (rq_secret_ref req)) in
           case env name of
             Some v \<Rightarrow> if v \<noteq> [] then Inr (Secret v) else Inl (SecretNotFound (rq_secret_ref req) name)
           | None \<Rightarrow> Inl (SecretNotFound (rq_secret_ref req) name)))"

definition add_grant ::
  "(string \<Rightarrow> string option) \<Rightarrow> string option \<Rightarrow> string \<Rightarrow> string \<Rightarrow> GrantRequest \<Rightarrow> instant \<Rightarrow> GrantStore
     \<Rightarrow> (SchedError + GrantInfo) \<times> GrantStore" where
  "add_grant env guest_ip uuid sandbox_id req now st =
     (case resolve_secret req env of
        Inl e \<Rightarrow> (Inl e, st)
      | Inr val \<Rightarrow>
          (case grant_add uuid sandbox_id req val (Option.bind guest_ip parse_ip) now st of
             (Inl e, st') \<Rightarrow> (Inl (CreatingGrant e), st')
           | (Inr info, st') \<Rightarrow> (Inr info, st')))"

definition revoke_grant :: "string \<Rightarrow> string option \<Rightarrow> instant \<Rightarrow> GrantStore \<Rightarrow> bool \<times> GrantStore" where
  "revoke_grant sandbox_id grant_id now st =
     (case grant_id of
        Some g \<Rightarrow> grant_remove sandbox_id g st
      | None \<Rightarrow> (grant_list sandbox_id now st \<noteq> [], remove_sandbox sandbox_id st))"

section \<open>Histories\<close>

datatype GrantEvent =
    GAdd string string GrantRequest Secret "IpAddr option" instant
  | GRemove string string
  | GRemoveSandbox string

fun grant_step :: "GrantEvent \<Rightarrow> GrantStore \<Rightarrow> GrantStore" where
  "grant_step (GAdd uuid sb req val ip now) st = snd (grant_add uuid sb req val ip now st)"
| "grant_step (GRemove sb gid) st = snd (grant_remove sb gid st)"
| "grant_step (GRemoveSandbox sb) st = remove_sandbox sb st"

abbreviation grant_run :: "GrantEvent list \<Rightarrow> GrantStore" where
  "grant_run es \<equiv> fold grant_step es grant_store_new"

fun revokes :: "GrantEvent \<Rightarrow> string \<Rightarrow> string \<Rightarrow> bool" where
  "revokes (GRemove sb gid) sb' gid' \<longleftrightarrow> sb = sb' \<and> gid = gid'"
| "revokes (GRemoveSandbox sb) sb' gid' \<longleftrightarrow> sb = sb'"
| "revokes (GAdd _ _ _ _ _ _) sb' gid' \<longleftrightarrow> False"

text \<open>The grant was issued to the sandbox at some point of the history and not revoked since.\<close>

definition issued :: "GrantEvent list \<Rightarrow> string \<Rightarrow> Grant \<Rightarrow> bool" where
  "issued es sb g \<longleftrightarrow>
     (\<exists>es1 uuid req val ip t es2. es = es1 @ GAdd uuid sb req val ip t # es2 \<and>
        fst (grant_add uuid sb req val ip t (grant_run es1)) = Inr (g_info g) \<and> g_value g = val \<and>
        (\<forall>e \<in> set es2. \<not> revokes e sb (gi_id (g_info g))))"

text \<open>A grant of the sandbox was issued for this guest address, and the sandbox was not removed since.\<close>

definition claimed :: "GrantEvent list \<Rightarrow> IpAddr \<Rightarrow> string \<Rightarrow> bool" where
  "claimed es ip sb \<longleftrightarrow>
     (\<exists>es1 uuid req val t es2. es = es1 @ GAdd uuid sb req val (Some ip) t # es2 \<and>
        \<not> is_err (fst (grant_add uuid sb req val (Some ip) t (grant_run es1))) \<and>
        GRemoveSandbox sb \<notin> set es2)"

lemma ends_withD: "ends_with s p \<Longrightarrow> \<exists>u. s = u @ p"
  by (auto simp: ends_with_def strip_suffix_def split: if_splits) (metis append_take_drop_id)

section \<open>What the checks of a new grant promise\<close>

lemma vet_grant_Inr:
  assumes "vet_grant req val now = Inr (hosts, ex)"
  shows "now < ex \<and> ex \<le> now + seconds MAX_GRANT_TTL_SECS \<and> normalize_hosts (rq_hosts req) = Inr hosts \<and>
         expose val \<noteq> [] \<and> trim (rq_secret_ref req) \<noteq> []"
  using assms by (auto simp: vet_grant_def Let_def split: if_splits sum.splits)

lemma grant_add_Inr:
  assumes "grant_add uuid sb req val ip now st = (Inr info, st')"
  obtains hosts ex kept where "vet_grant req val now = Inr (hosts, ex)"
    and "kept = filter (live now) (grants_of st sb)" and "length kept < MAX_GRANTS_PER_SANDBOX"
    and "info = \<lparr>gi_id = uuid, gi_sandbox_id = sb, gi_secret_ref = trim (rq_secret_ref req),
                 gi_hosts = hosts, gi_created_at = now, gi_expires_at = ex, gi_bound = (ip \<noteq> None)\<rparr>"
    and "st_grants st' = (st_grants st)(sb \<mapsto> kept @ [\<lparr>g_info = info, g_value = val\<rparr>])"
    and "st_sources st' = (case ip of None \<Rightarrow> st_sources st | Some a \<Rightarrow> (st_sources st)(a \<mapsto> sb))"
  using assms by (auto simp: grant_add_def Let_def split: if_splits sum.splits)

lemma grant_add_Inl:
  assumes "grant_add uuid sb req val ip now st = (Inl e, st')"
  shows "st_sources st' = st_sources st \<and>
    (st' = st \<or> st_grants st' = (st_grants st)(sb \<mapsto> filter (live now) (grants_of st sb)))"
  using assms by (auto simp: grant_add_def Let_def split: if_splits sum.splits)

lemma in_grants_of: "st_grants st sb = Some gs \<Longrightarrow> g \<in> set gs \<Longrightarrow> g \<in> set (grants_of st sb)"
  by (simp add: grants_of_def)

section \<open>Every stored grant has its history\<close>

lemma issued_snoc: "issued es sb g \<Longrightarrow> \<not> revokes e sb (gi_id (g_info g)) \<Longrightarrow> issued (es @ [e]) sb g"
  unfolding issued_def by (elim exE conjE) (rule exI, rule exI, rule exI, rule exI, rule exI, rule exI, rule exI, auto)

lemma issued_now:
  assumes "fst (grant_add uuid sb req val ip t (grant_run es)) = Inr (g_info g)" and "g_value g = val"
  shows "issued (es @ [GAdd uuid sb req val ip t]) sb g"
  unfolding issued_def using assms by (intro exI [of _ es] exI conjI) (auto intro: refl)

lemma add_grants:
  assumes "g \<in> set (grants_of (snd (grant_add uuid sb req val ip t st)) sb')"
  shows "g \<in> set (grants_of st sb') \<or>
    sb' = sb \<and> fst (grant_add uuid sb req val ip t st) = Inr (g_info g) \<and> g_value g = val"
proof (cases "grant_add uuid sb req val ip t st")
  case (Pair r st')
  show ?thesis
  proof (cases r)
    case (Inl e)
    then show ?thesis using assms Pair grant_add_Inl [of uuid sb req val ip t st e st']
      by (auto simp: grants_of_def split: if_splits)
  next
    case (Inr info)
    then show ?thesis using assms Pair
      by (auto elim!: grant_add_Inr simp: grants_of_def split: if_splits)
  qed
qed

lemma grants_issued: "g \<in> set (grants_of (grant_run es) sb) \<Longrightarrow> issued es sb g"
proof (induction es rule: rev_induct)
  case Nil
  then show ?case by (simp add: grants_of_def grant_store_new_def)
next
  case (snoc e es)
  show ?case
  proof (cases e)
    case (GAdd uuid sb' req val ip t)
    then show ?thesis using snoc add_grants [of g uuid sb' req val ip t "grant_run es" sb]
      by (auto intro: issued_snoc issued_now)
  next
    case (GRemove sb' gid)
    then have "g \<in> set (grants_of (grant_run es) sb) \<and> \<not> revokes e sb (gi_id (g_info g))" using snoc.prems
      by (auto simp: grants_of_def grant_remove_def Let_def split: option.splits if_splits)
    then show ?thesis using snoc.IH issued_snoc by blast
  next
    case (GRemoveSandbox sb')
    then have "g \<in> set (grants_of (grant_run es) sb) \<and> \<not> revokes e sb (gi_id (g_info g))" using snoc.prems
      by (auto simp: grants_of_def remove_sandbox_def split: option.splits if_splits)
    then show ?thesis using snoc.IH issued_snoc by blast
  qed
qed

lemma claimed_snoc: "claimed es ip sb \<Longrightarrow> e \<noteq> GRemoveSandbox sb \<Longrightarrow> claimed (es @ [e]) ip sb"
  unfolding claimed_def by (elim exE conjE) (rule exI, rule exI, rule exI, rule exI, rule exI, rule exI, auto)

lemma claimed_now:
  assumes "\<not> is_err (fst (grant_add uuid sb req val (Some ip) t (grant_run es)))"
  shows "claimed (es @ [GAdd uuid sb req val (Some ip) t]) ip sb"
  unfolding claimed_def using assms by (intro exI [of _ es] exI conjI) (auto intro: refl)

lemma sources_claimed: "st_sources (grant_run es) ip = Some sb \<Longrightarrow> claimed es ip sb"
proof (induction es rule: rev_induct)
  case Nil
  then show ?case by (simp add: grant_store_new_def)
next
  case (snoc e es)
  show ?case
  proof (cases e)
    case (GAdd uuid sb' req val src t)
    obtain r st' where a: "grant_add uuid sb' req val src t (grant_run es) = (r, st')" by fastforce
    show ?thesis
    proof (cases "st_sources (grant_run es) ip = Some sb")
      case True
      then show ?thesis using snoc.IH GAdd by (auto intro: claimed_snoc)
    next
      case False
      then obtain info where r: "r = Inr info" "src = Some ip" "sb' = sb"
        using snoc.prems GAdd a by (cases r; cases src)
          (auto dest!: grant_add_Inl elim!: grant_add_Inr split: if_splits)
      then show ?thesis using a GAdd claimed_now [of uuid sb req val ip t es] by simp
    qed
  next
    case (GRemove sb' gid)
    then have "st_sources (grant_run es) ip = Some sb" using snoc.prems
      by (auto simp: grant_remove_def Let_def split: option.splits)
    then show ?thesis using snoc.IH GRemove by (auto intro: claimed_snoc)
  next
    case (GRemoveSandbox sb')
    then have "st_sources (grant_run es) ip = Some sb \<and> e \<noteq> GRemoveSandbox sb" using snoc.prems
      by (auto simp: remove_sandbox_def split: if_splits)
    then show ?thesis using snoc.IH by (auto intro: claimed_snoc)
  qed
qed

section \<open>Bounds on what a sandbox holds\<close>

definition bucket_fits :: "string \<Rightarrow> Grant list \<Rightarrow> bool" where
  "bucket_fits sb gs \<longleftrightarrow> length gs \<le> MAX_GRANTS_PER_SANDBOX \<and>
     (\<forall>g \<in> set gs. gi_sandbox_id (g_info g) = sb \<and> gi_created_at (g_info g) < gi_expires_at (g_info g) \<and>
        gi_expires_at (g_info g) \<le> gi_created_at (g_info g) + seconds MAX_GRANT_TTL_SECS)"

definition store_ok :: "GrantStore \<Rightarrow> bool" where
  "store_ok st \<longleftrightarrow> (\<forall>sb. bucket_fits sb (grants_of st sb))"

lemma grants_of_update:
  "grants_of (st\<lparr>st_grants := (st_grants st)(sb := x)\<rparr>) sb' =
    (if sb' = sb then (case x of None \<Rightarrow> [] | Some gs \<Rightarrow> gs) else grants_of st sb')"
  "grants_of \<lparr>st_grants = (st_grants st)(sb := x), st_sources = src\<rparr> sb' =
    (if sb' = sb then (case x of None \<Rightarrow> [] | Some gs \<Rightarrow> gs) else grants_of st sb')"
  by (simp_all add: grants_of_def)

lemma fits_filter: "bucket_fits sb gs \<Longrightarrow> bucket_fits sb (filter P gs)"
  by (auto simp: bucket_fits_def intro: order_trans [OF length_filter_le])

lemma store_ok_step: "store_ok st \<Longrightarrow> store_ok (grant_step e st)"
proof (cases e)
  case (GAdd uuid sb req val ip t)
  assume ok: "store_ok st"
  then have f: "bucket_fits sb (filter (live t) (grants_of st sb))" by (simp add: store_ok_def fits_filter)
  show ?thesis
  proof (cases "vet_grant req val t")
    case (Inl e')
    then show ?thesis using ok GAdd by (simp add: grant_add_def)
  next
    case (Inr p)
    obtain hosts ex where p: "p = (hosts, ex)" by (cases p)
    note v = vet_grant_Inr [OF Inr [unfolded p]]
    show ?thesis using ok f v unfolding GAdd store_ok_def
      by (auto simp: grant_add_def Inr p Let_def grants_of_update bucket_fits_def split: option.splits)
  qed
next
  case (GRemove sb gid)
  assume ok: "store_ok st"
  then show ?thesis unfolding GRemove store_ok_def
    by (auto simp: grant_remove_def Let_def grants_of_update split: option.splits)
       (metis fits_filter grants_of_def option.simps(5))
next
  case (GRemoveSandbox sb)
  assume "store_ok st"
  then show ?thesis unfolding GRemoveSandbox store_ok_def
    by (auto simp: remove_sandbox_def grants_of_update bucket_fits_def)
qed

interpretation gst: step_system grant_step store_ok
  by unfold_locales (rule store_ok_step)

lemma store_ok_run: "store_ok (grant_run es)"
  by (rule gst.invar_run) (simp add: store_ok_def bucket_fits_def grants_of_def grant_store_new_def)

section \<open>Properties\<close>


text \<open>
  A grant that is issued works at once: traffic from the sandbox's address to a host it lists is
  given a credential of this very sandbox until the grant expires, whatever the store held before.
\<close>

theorem grant_usable:
  assumes "grant_add uuid sb req val (Some ip) t (grant_run es) = (Inr info, st)"
    and "now < gi_expires_at info" and "p \<in> set (gi_hosts info)" and "grant_host_matches p host"
  shows "\<exists>cred. grant_resolve ip host now st = Some cred \<and> inj_sandbox_id cred = sb"
proof -
  have st: "st = grant_run (es @ [GAdd uuid sb req val (Some ip) t])" using assms(1) by simp
  then have ok: "store_ok st" using store_ok_run by blast
  from assms(1) obtain gs where gs: "st_grants st sb = Some gs" "\<lparr>g_info = info, g_value = val\<rparr> \<in> set gs"
    and src: "st_sources st ip = Some sb"
    by (auto elim!: grant_add_Inr)
  let ?P = "\<lambda>g. list_ex (\<lambda>p. grant_host_matches p host) (gi_hosts (g_info g))"
  have "find ?P (filter (live now) gs) \<noteq> None"
    using gs(2) assms(2-4)
    by (auto simp: find_None_iff list_ex_iff live_def intro!: exI [of _ "\<lparr>g_info = info, g_value = val\<rparr>"])
  then obtain g where g: "find ?P (filter (live now) gs) = Some g" by blast
  then have "g \<in> set (filter (live now) gs)" by (metis find_Some_iff nth_mem)
  then have "g \<in> set gs" by simp
  then have "gi_sandbox_id (g_info g) = sb" using ok gs(1) by (auto simp: store_ok_def bucket_fits_def grants_of_def split: option.splits)
  then show ?thesis using g gs src by (simp add: grant_resolve_def injection_of_def)
qed

text \<open>
  A host pattern with a trailing dot is accepted into a grant but matches no host: the dot is
  removed from the host of the traffic and not from the pattern.
\<close>

lemma dotted_pattern_never_matches:
  "normalize_host ''api.example.'' = Inr ''api.example.'' \<and> \<not> grant_host_matches ''api.example.'' host"
proof -
  define h where "h = to_ascii_lowercase (trim_end_matches CHR ''.'' (trim host))"
  have n: "normalize_host ''api.example.'' = Inr ''api.example.''" by code_simp
  have q: "to_ascii_lowercase (trim_start_matches CHR ''.'' (trim ''api.example.'')) = ''api.example.''" by code_simp
  have "last h \<noteq> CHR ''.''" if "h \<noteq> []"
    using that last_trim_end_matches [of "CHR ''.''" "trim host"] by (auto simp: h_def last_map intro!: lower_not_dot)
  then have "h \<noteq> u @ ''api.example.''" for u by auto
  then have "h \<noteq> ''api.example.''" "\<not> ends_with h (CHR ''.'' # ''api.example.'')"
    using ends_withD [of h "CHR ''.'' # ''api.example.''"] by (fastforce, metis append.assoc append_Cons append_Nil)
  then show ?thesis using n q by (simp add: grant_host_matches_def h_def)
qed

text \<open>One sandbox with one grant, as the scheduler makes it from the host's environment.\<close>

definition grant_example :: GrantRequest where
  "grant_example = \<lparr>rq_secret_ref = ''gh-token'', rq_value = None, rq_hosts = [''.GitHub.com''],
     rq_ttl_seconds = Some 60, rq_expires_at = None\<rparr>"

abbreviation grant_example_history :: "GrantEvent list" where
  "grant_example_history \<equiv> [GAdd ''g1'' ''sb'' grant_example (Secret ''Bearer x'') (Some (V4 7)) 0]"

lemma grant_example_scheduler:
  "secret_env_name ''gh-token'' = ''FLUXVM_SECRET_GH_TOKEN'' \<and>
   snd (add_grant [''FLUXVM_SECRET_GH_TOKEN'' \<mapsto> ''Bearer x''] (Some ''0.0.0.7'') ''g1'' ''sb'' grant_example 0 grant_store_new)
     = grant_run grant_example_history"
proof -
  have p: "parse_ip ''0.0.0.7'' = Some (V4 7)" 
  proof -
    have "v4_string 7 = ''0.0.0.7''" by code_simp
    then show ?thesis using parse_ip_v4_string [of 7] by simp
  qed
  have e: "secret_env_name ''gh-token'' = ''FLUXVM_SECRET_GH_TOKEN''" by code_simp
  have t: "trim ''gh-token'' = ''gh-token''" by code_simp
  show ?thesis
    by (simp add: add_grant_def resolve_secret_def grant_example_def e t p Let_def split: prod.splits sum.splits)
qed

lemma grant_example_steps:
  "normalize_hosts [''.GitHub.com''] = Inr [''github.com'']" "trim ''gh-token'' = ''gh-token''"
  "grant_host_matches ''github.com'' ''API.github.com.''"
  by code_simp+

lemma grant_example_vet: "vet_grant grant_example (Secret ''Bearer x'') 0 = Inr ([''github.com''], 60000000000)"
  by (simp add: vet_grant_def grant_example_def grant_example_steps grant_expiry_def MAX_GRANT_TTL_SECS_def seconds_def
      del: normalize_hosts.simps)

definition grant_example_info :: GrantInfo where
  "grant_example_info = \<lparr>gi_id = ''g1'', gi_sandbox_id = ''sb'', gi_secret_ref = ''gh-token'', gi_hosts = [''github.com''],
     gi_created_at = 0, gi_expires_at = 60000000000, gi_bound = True\<rparr>"

lemma grant_example_add:
  "grant_add ''g1'' ''sb'' grant_example (Secret ''Bearer x'') (Some (V4 7)) 0 grant_store_new =
    (Inr grant_example_info,
     \<lparr>st_grants = [''sb'' \<mapsto> [\<lparr>g_info = grant_example_info, g_value = Secret ''Bearer x''\<rparr>]], st_sources = [V4 7 \<mapsto> ''sb'']\<rparr>)"
  by (simp add: grant_add_def grant_example_vet MAX_GRANTS_PER_SANDBOX_def grants_of_def grant_store_new_def
      grant_example_info_def Let_def) (simp add: grant_example_def grant_example_steps)


theorem grant_usable_witness:
  "\<exists>cred. grant_resolve (V4 7) ''API.github.com.'' 59999999999 (grant_run grant_example_history) = Some cred \<and>
     inj_sandbox_id cred = ''sb''"
proof -
  have a: "grant_add ''g1'' ''sb'' grant_example (Secret ''Bearer x'') (Some (V4 7)) 0 (grant_run []) =
      (Inr grant_example_info, grant_run grant_example_history)"
    using grant_example_add by simp
  show ?thesis
    by (rule grant_usable [OF a, where p = "''github.com''"]) (simp_all add: grant_example_info_def grant_example_steps)
qed

end
