(* ===== verification/Egress_Proxy.thy ===== *)
theory Egress_Proxy
  imports Http_Acl Grants
begin

text \<open>
  The egress proxy (\<^verbatim>\<open>fluxvm-network/src/egress_proxy.rs\<close>, with the allowlist of \<^verbatim>\<open>egress.rs\<close>, the
  address classes of \<^verbatim>\<open>tls_intercept.rs\<close> and the classifier of \<^verbatim>\<open>egress_proxy/transparent.rs\<close>): it judges
  a guest's request with the allowlist and the HTTP rules and forwards it with a credential from
  the vault or the broker. A request is what the HTTP library's accessors return of it, header
  names in lower case; the library's own parsers and printers are the fields of \<open>HttpLib\<close>, an
  argument. Sockets and the TLS handshake are not modelled; the upstream's answer is an argument.
\<close>

section \<open>Requests\<close>

record Authority =
  a_host :: string
  a_port :: "u16 option"

record Uri =
  u_scheme :: "string option"
  u_authority :: "Authority option"
  u_path :: string
  u_query :: "string option"
  u_path_and_query :: "string option"

type_synonym HeaderMap = "(string \<times> string) list"

record HttpLib =
  to_str :: "string \<Rightarrow> string option"
  uri_parse :: "string \<Rightarrow> Uri option"
  uri_to_string :: "Uri \<Rightarrow> string"
  header_value :: "string \<Rightarrow> string option"

definition get_all :: "string \<Rightarrow> HeaderMap \<Rightarrow> string list" where
  "get_all name hs = map snd (filter (\<lambda>(n, _). n = name) hs)"

definition get_header :: "string \<Rightarrow> HeaderMap \<Rightarrow> string option" where
  "get_header name hs = (case get_all name hs of [] \<Rightarrow> None | v # _ \<Rightarrow> Some v)"

definition contains_key :: "string \<Rightarrow> HeaderMap \<Rightarrow> bool" where
  "contains_key name hs \<longleftrightarrow> get_all name hs \<noteq> []"

definition host_header :: "HttpLib \<Rightarrow> HeaderMap \<Rightarrow> string option" where
  "host_header lib hs = Option.bind (get_header ''host'' hs) (to_str lib)"

definition before_colon :: "string \<Rightarrow> string" where
  "before_colon h = hd (split_on CHR '':'' h)"

section \<open>The allowlist and the vault\<close>

record CredentialInject =
  ci_host :: string
  ci_authorization :: string

record SandboxConfig =
  egress_allow_domains :: "string list"
  credential_vault :: "CredentialInject list"
  egress_tls_allow_private :: bool
  egress_max_body_bytes :: u64

datatype EgressReason = NoAllowlist | MatchedAllowlist | NotInAllowlist string

record EgressDecision =
  ed_allow :: bool
  ed_inject_authorization :: "string option"
  ed_reason :: EgressReason

definition allow_host_matches :: "string \<Rightarrow> string \<Rightarrow> bool" where
  "allow_host_matches pattern host =
     (let p = to_ascii_lowercase (trim_start_matches CHR ''.'' (trim pattern))
      in host = p \<or> ends_with host (CHR ''.'' # p))"

definition decide :: "SandboxConfig \<Rightarrow> string \<Rightarrow> EgressDecision" where
  "decide cfg host0 =
     (let host = to_ascii_lowercase (trim_end_matches CHR ''.'' (trim host0));
          inject = map_option ci_authorization (find (\<lambda>c. allow_host_matches (ci_host c) host) (credential_vault cfg));
          allowed = list_ex (\<lambda>d. allow_host_matches d host) (egress_allow_domains cfg)
      in if egress_allow_domains cfg = []
         then \<lparr>ed_allow = True, ed_inject_authorization = inject, ed_reason = NoAllowlist\<rparr>
         else \<lparr>ed_allow = allowed, ed_inject_authorization = (if allowed then inject else None),
               ed_reason = (if allowed then MatchedAllowlist else NotInAllowlist host)\<rparr>)"

section \<open>Public addresses\<close>

definition is_public_v4 :: "32 word \<Rightarrow> bool" where
  "is_public_v4 ip \<longleftrightarrow>
     \<not> (v4_is_loopback ip \<or> v4_is_private ip \<or> v4_is_link_local ip \<or> ip = 0 \<or> ip = 0xffffffff \<or> v4_is_multicast ip \<or>
        v4_octet 0 ip = 100 \<and> 64 \<le> v4_octet 1 ip \<and> v4_octet 1 ip < 128 \<or>
        v4_octet 0 ip = 0 \<or> 240 \<le> v4_octet 0 ip)"

definition is_public_v6 :: "128 word \<Rightarrow> bool" where
  "is_public_v6 ip =
     (case to_ipv4_mapped ip of
        Some v4 \<Rightarrow> is_public_v4 v4
      | None \<Rightarrow>
          \<not> (ip = 1 \<or> ip = 0 \<or> v6_is_multicast ip \<or> v6_is_unique_local ip \<or> v6_is_unicast_link_local ip))"

fun is_public_ip :: "IpAddr \<Rightarrow> bool" where
  "is_public_ip (V4 v4) = is_public_v4 v4"
| "is_public_ip (V6 v6) = is_public_v6 v6"

definition is_internal_target :: "string \<Rightarrow> bool" where
  "is_internal_target host =
     (let bare = trim_end_matches CHR '']'' (trim_start_matches CHR ''['' host)
      in bare = ''localhost'' \<or> ends_with bare ''.localhost'' \<or>
         (case parse_ip bare of None \<Rightarrow> False | Some ip \<Rightarrow> \<not> is_public_ip ip))"

section \<open>Judging a request\<close>

datatype StatusCode = FORBIDDEN | NOT_IMPLEMENTED | PAYLOAD_TOO_LARGE | BAD_GATEWAY | INTERNAL_SERVER_ERROR

datatype Refusal =
    MultipleHosts
  | BadRequestHost AclError
  | BadPath AclError
  | ByAllowlist EgressReason
  | ByRules DenyReason
  | ConnectUnsupported
  | ConnectNeedsTarget
  | PortNotPermitted u16
  | InternalTarget string
  | NestedConnect
  | UpgradeUnsupported
  | HostDiffers string string
  | AuthorityDiffers string string
  | UnsupportedTarget
  | InvalidTarget
  | BodyTooLarge u64
  | AnswerTooLarge u64
  | UpstreamFailed
  | InterceptionOff

type_synonym 'a vetting = "(StatusCode \<times> Refusal) + 'a"

record Vetted =
  v_decision :: EgressDecision
  v_rebuilt_url :: "string option"

definition deny :: "Refusal \<Rightarrow> StatusCode \<times> Refusal" where
  "deny r = (FORBIDDEN, r)"

definition filtering :: "SandboxConfig \<Rightarrow> HttpAcl \<Rightarrow> bool" where
  "filtering cfg acl \<longleftrightarrow> is_active acl \<or> egress_allow_domains cfg \<noteq> []"

definition uri_host :: "Uri \<Rightarrow> string option" where
  "uri_host uri = map_option a_host (u_authority uri)"

definition judged_host :: "HttpLib \<Rightarrow> SandboxConfig \<Rightarrow> HttpAcl \<Rightarrow> Uri \<Rightarrow> HeaderMap \<Rightarrow> string vetting" where
  "judged_host lib cfg acl uri hs =
     (if filtering cfg acl then
        (if 1 < length (get_all ''host'' hs) then Inl (deny MultipleHosts)
         else map_sum (\<lambda>e. deny (BadRequestHost e)) id (effective_host (uri_host uri) (host_header lib hs)))
      else Inr (case host_header lib hs of None \<Rightarrow> [] | Some h \<Rightarrow> before_colon h))"

definition port_string :: "u16 \<Rightarrow> string" where
  "port_string p = dec_string (unat p)"

definition netloc :: "HttpLib \<Rightarrow> Uri \<Rightarrow> HeaderMap \<Rightarrow> string" where
  "netloc lib uri hs =
     (case u_authority uri of
        Some a \<Rightarrow> (case a_port a of Some p \<Rightarrow> a_host a @ '':'' @ port_string p | None \<Rightarrow> a_host a)
      | None \<Rightarrow> (case host_header lib hs of None \<Rightarrow> [] | Some h \<Rightarrow> trim h))"

definition rebuild_url :: "HttpLib \<Rightarrow> Uri \<Rightarrow> HeaderMap \<Rightarrow> string \<Rightarrow> string" where
  "rebuild_url lib uri hs path =
     (case u_scheme uri of None \<Rightarrow> ''http'' | Some s \<Rightarrow> s) @ ''://'' @ netloc lib uri hs @ path @
     (case u_query uri of None \<Rightarrow> [] | Some q \<Rightarrow> CHR ''?'' # q)"

definition vet_request ::
  "HttpLib \<Rightarrow> SandboxConfig \<Rightarrow> HttpAcl \<Rightarrow> string \<Rightarrow> Uri \<Rightarrow> HeaderMap \<Rightarrow> Vetted vetting" where
  "vet_request lib cfg acl meth uri hs =
     (case judged_host lib cfg acl uri hs of
        Inl e \<Rightarrow> Inl e
      | Inr host \<Rightarrow>
          (let decision = decide cfg host in
           if \<not> ed_allow decision then Inl (deny (ByAllowlist (ed_reason decision)))
           else if \<not> is_active acl then Inr \<lparr>v_decision = decision, v_rebuilt_url = None\<rparr>
           else if meth = ''CONNECT'' then
             (case check_connect acl host of
                VAllow \<Rightarrow> Inl (NOT_IMPLEMENTED, ConnectUnsupported)
              | VDeny r \<Rightarrow> Inl (deny (ByRules r)))
           else
             (case check acl meth host (u_path uri) of
                VDeny r \<Rightarrow> Inl (deny (ByRules r))
              | VAllow \<Rightarrow>
                  (case normalize_path (u_path uri) of
                     Inl e \<Rightarrow> Inl (deny (BadPath e))
                   | Inr path \<Rightarrow> Inr \<lparr>v_decision = decision, v_rebuilt_url = Some (rebuild_url lib uri hs path)\<rparr>))))"

section \<open>Judging a tunnel\<close>

record Tunnel =
  tn_host :: string
  tn_authority :: string
  tn_peer :: "IpAddr option"

definition DEFAULT_TLS_PORT :: u16 where "DEFAULT_TLS_PORT = 443"

definition vet_target ::
  "SandboxConfig \<Rightarrow> HttpAcl \<Rightarrow> u16 list \<Rightarrow> bool \<Rightarrow> string \<Rightarrow> string \<Rightarrow> u16 \<Rightarrow> Tunnel vetting" where
  "vet_target cfg acl ports allow_private host authority_host port =
     (if port \<notin> set ports then Inl (deny (PortNotPermitted port))
      else
        let decision = decide cfg host in
        if \<not> ed_allow decision then Inl (deny (ByAllowlist (ed_reason decision)))
        else
          case check_intercepted_connect acl host of
            VDeny r \<Rightarrow> Inl (deny (ByRules r))
          | VAllow \<Rightarrow>
              if \<not> allow_private \<and> is_internal_target host then Inl (deny (InternalTarget host))
              else Inr \<lparr>tn_host = host, tn_authority = authority_host @ '':'' @ port_string port, tn_peer = None\<rparr>)"

definition vet_connect ::
  "HttpLib \<Rightarrow> SandboxConfig \<Rightarrow> HttpAcl \<Rightarrow> u16 list \<Rightarrow> bool \<Rightarrow> Uri \<Rightarrow> HeaderMap \<Rightarrow> Tunnel vetting" where
  "vet_connect lib cfg acl ports allow_private uri hs =
     (case u_authority uri of
        None \<Rightarrow> Inl (deny ConnectNeedsTarget)
      | Some a \<Rightarrow>
          if 1 < length (get_all ''host'' hs) then Inl (deny MultipleHosts)
          else
            (case effective_host (Some (a_host a)) (host_header lib hs) of
               Inl e \<Rightarrow> Inl (deny (BadRequestHost e))
             | Inr host \<Rightarrow>
                 vet_target cfg acl ports allow_private host (a_host a)
                   (case a_port a of None \<Rightarrow> DEFAULT_TLS_PORT | Some p \<Rightarrow> p)))"

definition connection_tokens :: "HttpLib \<Rightarrow> HeaderMap \<Rightarrow> string list" where
  "connection_tokens lib hs =
     filter (\<lambda>t. t \<noteq> [])
       (map (\<lambda>t. to_ascii_lowercase (trim t))
         (concat (map (split_on CHR '','') (List.map_filter (to_str lib) (get_all ''connection'' hs)))))"

definition is_upgrade :: "HttpLib \<Rightarrow> HeaderMap \<Rightarrow> bool" where
  "is_upgrade lib hs \<longleftrightarrow>
     contains_key ''upgrade'' hs \<or> list_ex (\<lambda>t. eq_ignore_ascii_case t ''upgrade'') (connection_tokens lib hs)"

definition names_tunnel_host :: "string option \<Rightarrow> (string \<Rightarrow> string \<Rightarrow> Refusal) \<Rightarrow> Tunnel \<Rightarrow> unit vetting" where
  "names_tunnel_host named differs tunnel =
     (case named of
        None \<Rightarrow> Inr ()
      | Some h \<Rightarrow>
          (case canon_host h of
             Inl e \<Rightarrow> Inl (deny (BadRequestHost e))
           | Inr host \<Rightarrow> if host \<noteq> tn_host tunnel then Inl (deny (differs host (tn_host tunnel))) else Inr ()))"

definition tunnel_headers :: "HttpLib \<Rightarrow> Tunnel \<Rightarrow> HeaderMap \<Rightarrow> HeaderMap" where
  "tunnel_headers lib tunnel hs =
     (if contains_key ''host'' hs then hs
      else case header_value lib (tn_host tunnel) of None \<Rightarrow> hs | Some v \<Rightarrow> hs @ [(''host'', v)])"

definition vet_tunnel_request ::
  "HttpLib \<Rightarrow> SandboxConfig \<Rightarrow> HttpAcl \<Rightarrow> Tunnel \<Rightarrow> string \<Rightarrow> Uri \<Rightarrow> HeaderMap \<Rightarrow> (Vetted \<times> string) vetting" where
  "vet_tunnel_request lib cfg acl tunnel meth uri hs =
     (if meth = ''CONNECT'' then Inl (deny NestedConnect)
      else if is_upgrade lib hs then Inl (NOT_IMPLEMENTED, UpgradeUnsupported)
      else if 1 < length (get_all ''host'' hs) then Inl (deny MultipleHosts)
      else
        (case names_tunnel_host (host_header lib hs) HostDiffers tunnel of
           Inl e \<Rightarrow> Inl e
         | Inr _ \<Rightarrow>
             (case names_tunnel_host (uri_host uri) AuthorityDiffers tunnel of
                Inl e \<Rightarrow> Inl e
              | Inr _ \<Rightarrow>
                  (let pq = (case u_path_and_query uri of None \<Rightarrow> ''/'' | Some s \<Rightarrow> s) in
                   if strip_prefix ''/'' pq = None then Inl (deny UnsupportedTarget)
                   else
                     (case uri_parse lib (''https://'' @ tn_authority tunnel @ pq) of
                        None \<Rightarrow> Inl (deny InvalidTarget)
                      | Some target \<Rightarrow>
                          (case vet_request lib cfg acl meth target (tunnel_headers lib tunnel hs) of
                             Inl e \<Rightarrow> Inl e
                           | Inr vetted \<Rightarrow>
                               Inr (vetted,
                                    case v_rebuilt_url vetted of None \<Rightarrow> uri_to_string lib target | Some u \<Rightarrow> u)))))))"

section \<open>Forwarding\<close>

definition is_hop_by_hop :: "string \<Rightarrow> string list \<Rightarrow> bool" where
  "is_hop_by_hop name toks \<longleftrightarrow>
     name \<in> set [''connection'', ''keep-alive'', ''proxy-authenticate'', ''proxy-authorization'', ''proxy-connection'',
                  ''te'', ''trailer'', ''transfer-encoding'', ''upgrade''] \<or>
     list_ex (\<lambda>t. t = name) toks"

definition has_body :: "HttpLib \<Rightarrow> HeaderMap \<Rightarrow> bool" where
  "has_body lib hs \<longleftrightarrow>
     contains_key ''transfer-encoding'' hs \<or>
     (case Option.bind (get_header ''content-length'' hs) (to_str lib) of None \<Rightarrow> False | Some v \<Rightarrow> trim v \<noteq> ''0'')"

definition declared_length :: "HttpLib \<Rightarrow> HeaderMap \<Rightarrow> u64 option" where
  "declared_length lib hs =
     Option.bind (Option.bind (get_header ''content-length'' hs) (to_str lib))
       (\<lambda>v. map_option of_nat (from_str_radix 10 (2 ^ 64) (trim v)))"

datatype Chunk = ChunkOk "u8 list" | ChunkErr

datatype CappedItem = COk "u8 list" | CTooLarge u64 | CErr

text \<open>\<^verbatim>\<open>capped\<close>: the items of a body with the running count of bytes, and whether the cap was hit.\<close>

fun capped :: "u64 \<Rightarrow> u64 \<Rightarrow> Chunk list \<Rightarrow> CappedItem list \<times> bool" where
  "capped mx seen [] = ([], False)"
| "capped mx seen (ChunkErr # cs) = (case capped mx seen cs of (os, t) \<Rightarrow> (CErr # os, t))"
| "capped mx seen (ChunkOk c # cs) =
     (let seen' = saturating_add seen (of_nat (length c)) in
      case capped mx seen' cs of
        (os, t) \<Rightarrow> if mx \<noteq> 0 \<and> mx < seen' then (CTooLarge mx # os, True) else (COk c # os, t))"

datatype Client = PlainClient | TransparentClient | TunnelClient

record Outgoing =
  og_client :: Client
  og_method :: string
  og_url :: string
  og_headers :: HeaderMap
  og_body :: "CappedItem list option"

definition forward_headers :: "HttpLib \<Rightarrow> HeaderMap \<Rightarrow> string option \<Rightarrow> HeaderMap" where
  "forward_headers lib hs inject =
     filter (\<lambda>(n, _). \<not> (n = ''host'' \<or> n = ''authorization'' \<or> n = ''expect'' \<or>
                          is_hop_by_hop n (connection_tokens lib hs))) hs @
     (case inject of None \<Rightarrow> [] | Some auth \<Rightarrow> [(''authorization'', auth)])"

definition forward ::
  "HttpLib \<Rightarrow> Client \<Rightarrow> string \<Rightarrow> HeaderMap \<Rightarrow> Chunk list option \<Rightarrow> string \<Rightarrow> string option \<Rightarrow> u64 \<Rightarrow> Outgoing vetting" where
  "forward lib client meth hs body url inject max_body =
     (if max_body \<noteq> 0 \<and> (case declared_length lib hs of None \<Rightarrow> False | Some n \<Rightarrow> max_body < n)
      then Inl (PAYLOAD_TOO_LARGE, BodyTooLarge max_body)
      else Inr \<lparr>og_client = client, og_method = meth, og_url = url, og_headers = forward_headers lib hs inject,
                og_body = map_option (\<lambda>cs. fst (capped max_body 0 cs)) body\<rparr>)"

text \<open>
  The other half of \<^verbatim>\<open>forward\<close>: what becomes of the upstream's answer. Whether the request's cap was hit by the
  time sending failed is an argument.
\<close>

datatype Upstream = UpFailed | UpAnswer u16 "u64 option" HeaderMap "Chunk list"

record Relayed =
  rl_status :: u16
  rl_headers :: HeaderMap
  rl_body :: "CappedItem list"

definition relay :: "HttpLib \<Rightarrow> u64 \<Rightarrow> bool \<Rightarrow> Upstream \<Rightarrow> Relayed vetting" where
  "relay lib max_body tripped up =
     (case up of
        UpAnswer sc len hs body \<Rightarrow>
          if max_body \<noteq> 0 \<and> (case len of None \<Rightarrow> False | Some n \<Rightarrow> max_body < n) then Inl (BAD_GATEWAY, AnswerTooLarge max_body)
          else Inr \<lparr>rl_status = sc,
                    rl_headers = filter (\<lambda>(n, _). \<not> is_hop_by_hop n (connection_tokens lib hs)) hs,
                    rl_body = fst (capped max_body 0 body)\<rparr>
      | UpFailed \<Rightarrow>
          if tripped then Inl (PAYLOAD_TOO_LARGE, BodyTooLarge max_body) else Inl (BAD_GATEWAY, UpstreamFailed))"

definition broker_authorization ::
  "GrantStore \<Rightarrow> instant \<Rightarrow> IpAddr option \<Rightarrow> string \<Rightarrow> string option \<Rightarrow> string option" where
  "broker_authorization grants now peer host fallback =
     (case peer of
        None \<Rightarrow> fallback
      | Some ip \<Rightarrow>
          (case grant_resolve ip host now grants of
             Some i \<Rightarrow> Some (expose (inj_authorization i))
           | None \<Rightarrow> fallback))"

definition find_first :: "(char \<Rightarrow> bool) \<Rightarrow> string \<Rightarrow> nat option" where
  "find_first P s = (if list_ex P s then Some (length (takeWhile (\<lambda>c. \<not> P c) s)) else None)"

fun split_scheme :: "string \<Rightarrow> (string \<times> string) option" where
  "split_scheme [] = None"
| "split_scheme (c # cs) =
     (case strip_prefix ''://'' (c # cs) of
        Some r \<Rightarrow> Some ([], r)
      | None \<Rightarrow> map_option (\<lambda>(a, r). (c # a, r)) (split_scheme cs))"

definition with_port :: "string \<Rightarrow> u16 \<Rightarrow> string" where
  "with_port url port =
     (case split_scheme url of
        None \<Rightarrow> url
      | Some (scheme, rst) \<Rightarrow>
          (let (authority, tail) =
             (case find_first (\<lambda>c. c = CHR ''/'' \<or> c = CHR ''?'') rst of Some i \<Rightarrow> (take i rst, drop i rst) | None \<Rightarrow> (rst, []));
             host =
             (if strip_prefix ''['' authority \<noteq> None
              then (case find_first (\<lambda>c. c = CHR '']'') authority of Some i \<Rightarrow> take (i + 1) authority | None \<Rightarrow> authority)
              else (case rsplit_once CHR '':'' authority of Some (h, _) \<Rightarrow> h | None \<Rightarrow> authority))
           in scheme @ ''://'' @ host @ '':'' @ port_string port @ tail))"

record TlsState =
  tls_ports :: "u16 list"
  tls_allow_private :: bool

record ProxyState =
  ps_cfg :: SandboxConfig
  ps_acl :: HttpAcl
  ps_tls :: "TlsState option"

record HttpRequest =
  hr_method :: string
  hr_uri :: Uri
  hr_headers :: HeaderMap
  hr_body :: "Chunk list"
  hr_peer :: "IpAddr option"

definition header_host_name :: "HttpLib \<Rightarrow> HeaderMap \<Rightarrow> string" where
  "header_host_name lib hs = (case host_header lib hs of None \<Rightarrow> [] | Some h \<Rightarrow> before_colon h)"

definition plain_url :: "HttpLib \<Rightarrow> Uri \<Rightarrow> string \<Rightarrow> string option \<Rightarrow> string" where
  "plain_url lib uri host rebuilt =
     (case rebuilt of
        Some u \<Rightarrow> u
      | None \<Rightarrow>
          if u_scheme uri \<noteq> None then uri_to_string lib uri
          else ''http://'' @ host @ (case u_path_and_query uri of None \<Rightarrow> ''/'' | Some pq \<Rightarrow> pq))"

definition handle_plain ::
  "HttpLib \<Rightarrow> ProxyState \<Rightarrow> GrantStore \<Rightarrow> instant \<Rightarrow> HttpRequest \<Rightarrow> u16 option \<Rightarrow> Outgoing vetting" where
  "handle_plain lib st grants now req transparent_port =
     (let cfg = ps_cfg st; hs = hr_headers req; host = header_host_name lib hs in
      case vet_request lib cfg (ps_acl st) (hr_method req) (hr_uri req) hs of
        Inl e \<Rightarrow> Inl e
      | Inr vetted \<Rightarrow>
          if transparent_port \<noteq> None \<and> \<not> egress_tls_allow_private cfg \<and> is_internal_target (to_ascii_lowercase host)
          then Inl (FORBIDDEN, InternalTarget host)
          else
            (let url = plain_url lib (hr_uri req) host (v_rebuilt_url vetted);
                 url = (case transparent_port of Some port \<Rightarrow> if port \<noteq> 80 then with_port url port else url | None \<Rightarrow> url);
                 inject = broker_authorization grants now (hr_peer req) host
                            (ed_inject_authorization (v_decision vetted));
                 body = (if has_body lib hs then Some (hr_body req) else None);
                 client = (if transparent_port \<noteq> None then TransparentClient else PlainClient)
             in forward lib client (hr_method req) hs body url inject (egress_max_body_bytes cfg)))"

definition tunnel_request ::
  "HttpLib \<Rightarrow> ProxyState \<Rightarrow> GrantStore \<Rightarrow> instant \<Rightarrow> Tunnel \<Rightarrow> HttpRequest \<Rightarrow> Outgoing vetting" where
  "tunnel_request lib st grants now tunnel req =
     (let cfg = ps_cfg st; hs = hr_headers req in
      if ps_tls st = None then Inl (INTERNAL_SERVER_ERROR, InterceptionOff)
      else
      case vet_tunnel_request lib cfg (ps_acl st) tunnel (hr_method req) (hr_uri req) hs of
        Inl e \<Rightarrow> Inl e
      | Inr (vetted, url) \<Rightarrow>
          (let body = (if has_body lib hs then Some (hr_body req) else None);
               inject = broker_authorization grants now (tn_peer tunnel) (tn_host tunnel)
                          (ed_inject_authorization (v_decision vetted))
           in forward lib TunnelClient (hr_method req) hs body url inject (egress_max_body_bytes cfg)))"

datatype Handled = Forwarded Outgoing | TunnelOpened Tunnel | Refused StatusCode Refusal

definition connect ::
  "HttpLib \<Rightarrow> ProxyState \<Rightarrow> TlsState \<Rightarrow> HttpRequest \<Rightarrow> Handled" where
  "connect lib st tls req =
     (case vet_connect lib (ps_cfg st) (ps_acl st) (tls_ports tls) (tls_allow_private tls) (hr_uri req) (hr_headers req) of
        Inl (sc, r) \<Rightarrow> Refused sc r
      | Inr tunnel \<Rightarrow> TunnelOpened (tunnel\<lparr>tn_peer := hr_peer req\<rparr>))"

definition proxy ::
  "HttpLib \<Rightarrow> ProxyState \<Rightarrow> GrantStore \<Rightarrow> instant \<Rightarrow> HttpRequest \<Rightarrow> Handled" where
  "proxy lib st grants now req =
     (case (if hr_method req = ''CONNECT'' then ps_tls st else None) of
        Some t \<Rightarrow> connect lib st t req
      | None \<Rightarrow>
          (case handle_plain lib st grants now req None of
             Inl (sc, r) \<Rightarrow> Refused sc r
           | Inr og \<Rightarrow> Forwarded og))"

text \<open>The test of \<^verbatim>\<open>serve_tunnel\<close>: the name of the ClientHello must be the tunnel's host, unless that is an address.\<close>

definition sni_agrees :: "Tunnel \<Rightarrow> string option \<Rightarrow> bool" where
  "sni_agrees tunnel sni \<longleftrightarrow>
     parse_ip (trim_end_matches CHR '']'' (trim_start_matches CHR ''['' (tn_host tunnel))) \<noteq> None \<or>
     map_option (\<lambda>s. to_ascii_lowercase (trim_end_matches CHR ''.'' s)) sni = Some (tn_host tunnel)"

section \<open>Redirected connections\<close>

datatype Kind = KTls | KHttp | KUnknown

definition classify :: "u8 list \<Rightarrow> Kind" where
  "classify first =
     (if 3 \<le> length first \<and> first ! 0 = 0x16 \<and> first ! 1 = 0x03 \<and> first ! 2 \<le> 0x04 then KTls
      else if first \<noteq> [] \<and> 65 \<le> hd first \<and> hd first \<le> 90 then KHttp
      else KUnknown)"

text \<open>\<^verbatim>\<open>serve_tls\<close> up to the handshake, \<open>None\<close> where it gives up, and the requests of \<^verbatim>\<open>serve_http\<close>.\<close>

definition serve_tls :: "ProxyState \<Rightarrow> string option \<Rightarrow> u16 \<Rightarrow> IpAddr \<Rightarrow> Tunnel option" where
  "serve_tls st sni port peer =
     (case ps_tls st of
        None \<Rightarrow> None
      | Some tls \<Rightarrow>
          (case sni of
             None \<Rightarrow> None
           | Some s \<Rightarrow>
               (case canon_host s of
                  Inl _ \<Rightarrow> None
                | Inr host \<Rightarrow>
                    (case vet_target (ps_cfg st) (ps_acl st) (tls_ports tls) (tls_allow_private tls) host host port of
                       Inl _ \<Rightarrow> None
                     | Inr tunnel \<Rightarrow> Some (tunnel\<lparr>tn_peer := Some peer\<rparr>)))))"

definition serve_http ::
  "HttpLib \<Rightarrow> ProxyState \<Rightarrow> GrantStore \<Rightarrow> instant \<Rightarrow> HttpRequest \<Rightarrow> u16 \<Rightarrow> IpAddr \<Rightarrow> Outgoing vetting" where
  "serve_http lib st grants now req port peer = handle_plain lib st grants now (req\<lparr>hr_peer := Some peer\<rparr>) (Some port)"

datatype Redirected = Closed | Intercepted Tunnel | Plain "Outgoing vetting"

definition handle ::
  "HttpLib \<Rightarrow> ProxyState \<Rightarrow> GrantStore \<Rightarrow> instant \<Rightarrow> u16 option \<Rightarrow> u8 list \<Rightarrow> string option \<Rightarrow> HttpRequest \<Rightarrow> IpAddr \<Rightarrow> Redirected" where
  "handle lib st grants now dst first sni req peer =
     (case dst of
        None \<Rightarrow> Closed
      | Some port \<Rightarrow>
          (case classify first of
             KTls \<Rightarrow> (case serve_tls st sni port peer of None \<Rightarrow> Closed | Some t \<Rightarrow> Intercepted t)
           | KHttp \<Rightarrow> Plain (serve_http lib st grants now req port peer)
           | KUnknown \<Rightarrow> Closed))"

section \<open>What a forwarded request went through\<close>

lemma effective_host_Inr:
  assumes "effective_host uri hdr = Inr h"
  shows "(\<forall>u. uri = Some u \<longrightarrow> canon_host u = Inr h) \<and> (\<forall>k. hdr = Some k \<longrightarrow> canon_host k = Inr h)"
  using assms by (auto simp: effective_host_def opt_transpose_def map_sum_eq_Inr
      split: sum.split_asm option.split_asm if_split_asm)

lemma normalize_path_idem: "normalize_path p = Inr q \<Longrightarrow> normalize_path q = Inr q"
  by (erule normalize_path_cases) (rule normalize_path_fixed)

lemma check_normalized:
  assumes "normalize_path p = Inr q"
  shows "check acl m h q = check acl m h p"
  using normalize_path_idem [OF assms] assms by (simp add: check_def)

lemma vet_request_active:
  assumes "vet_request lib cfg acl m uri hs = Inr v" and "is_active acl"
  shows "m \<noteq> ''CONNECT'' \<and>
    (\<exists>host path. effective_host (uri_host uri) (host_header lib hs) = Inr host \<and> ed_allow (decide cfg host) \<and>
       v_decision v = decide cfg host \<and> normalize_path (u_path uri) = Inr path \<and> check acl m host path = VAllow \<and>
       v_rebuilt_url v = Some (rebuild_url lib uri hs path))"
proof -
  from assms obtain host where j: "judged_host lib cfg acl uri hs = Inr host"
    by (auto simp: vet_request_def split: sum.split_asm)
  have e: "effective_host (uri_host uri) (host_header lib hs) = Inr host"
    using j assms(2) by (auto simp: judged_host_def filtering_def split: if_split_asm)
      (cases "effective_host (uri_host uri) (host_header lib hs)"; simp)
  have m: "m \<noteq> ''CONNECT''" "ed_allow (decide cfg host)"
    using assms j by (auto simp: vet_request_def Let_def split: if_split_asm Verdict.split_asm)
  then obtain path where n: "normalize_path (u_path uri) = Inr path" and c: "check acl m host (u_path uri) = VAllow"
    and v: "v = \<lparr>v_decision = decide cfg host, v_rebuilt_url = Some (rebuild_url lib uri hs path)\<rparr>"
    using assms j by (auto simp: vet_request_def Let_def split: if_split_asm Verdict.split_asm sum.split_asm)
  show ?thesis using m e n v c check_normalized [OF n] by simp
qed

lemma vet_request_decision:
  assumes "vet_request lib cfg acl m uri hs = Inr v" and "filtering cfg acl"
  shows "\<exists>host. effective_host (uri_host uri) (host_header lib hs) = Inr host \<and> v_decision v = decide cfg host \<and>
    ed_allow (decide cfg host) \<and> length (get_all ''host'' hs) \<le> 1"
proof -
  from assms obtain host where j: "judged_host lib cfg acl uri hs = Inr host"
    by (auto simp: vet_request_def split: sum.split_asm)
  then have "effective_host (uri_host uri) (host_header lib hs) = Inr host \<and> length (get_all ''host'' hs) \<le> 1"
    using assms(2) by (cases "effective_host (uri_host uri) (host_header lib hs)")
      (auto simp: judged_host_def split: if_split_asm)
  moreover have "v_decision v = decide cfg host \<and> ed_allow (decide cfg host)"
    using assms(1) j by (auto simp: vet_request_def Let_def split: if_split_asm Verdict.split_asm sum.split_asm)
  ultimately show ?thesis by blast
qed

lemma handle_plain_Inr:
  assumes "handle_plain lib st grants now req tp = Inr og"
  obtains v where "vet_request lib (ps_cfg st) (ps_acl st) (hr_method req) (hr_uri req) (hr_headers req) = Inr v"
    and "og_method og = hr_method req"
    and "og_headers og = forward_headers lib (hr_headers req) (broker_authorization grants now (hr_peer req)
          (header_host_name lib (hr_headers req)) (ed_inject_authorization (v_decision v)))"
    and "tp = None \<Longrightarrow> og_url og = plain_url lib (hr_uri req) (header_host_name lib (hr_headers req)) (v_rebuilt_url v)"
  using assms unfolding handle_plain_def forward_def Let_def
  by (auto split: sum.split_asm if_split_asm)

lemma authorization_forwarded:
  "(''authorization'', a) \<in> set (forward_headers lib hs inject) \<longleftrightarrow> inject = Some a"
  by (auto simp: forward_headers_def split: option.splits)

lemma decide_inject:
  assumes "ed_inject_authorization (decide cfg host) = Some a"
  shows "\<exists>c \<in> set (credential_vault cfg). ci_authorization c = a \<and>
    allow_host_matches (ci_host c) (to_ascii_lowercase (trim_end_matches CHR ''.'' (trim host)))"
  using assms by (auto simp: decide_def Let_def find_Some_iff split: if_split_asm dest: nth_mem)

section \<open>Properties\<close>



definition parses_https :: "HttpLib \<Rightarrow> bool" where
  "parses_https lib \<longleftrightarrow>
     (\<forall>h p pq u. CHR ''/'' \<notin> set h \<and> uri_parse lib (''https://'' @ (h @ '':'' @ port_string p) @ CHR ''/'' # pq) = Some u \<longrightarrow>
        u_scheme u = Some ''https'' \<and> u_authority u = Some \<lparr>a_host = h, a_port = Some p\<rparr>)"

lemma trim_keeps: "c \<in> set s \<Longrightarrow> \<not> is_space c \<Longrightarrow> c \<in> set (trim s)"
proof -
  have d: "c \<in> set (dropWhile is_space t)" if "c \<in> set t" "\<not> is_space c" for t
    using that by (induction t) auto
  assume "c \<in> set s" "\<not> is_space c"
  then show ?thesis using d [of s] d [of "rev (dropWhile is_space s)"] by (simp add: trim_def trim_start_def trim_end_def)
qed

lemma canon_host_no_slash: "canon_host h = Inr c \<Longrightarrow> CHR ''/'' \<notin> set h"
  using trim_keeps [of "CHR ''/''" h] by (auto simp: canon_host_def Let_def list_ex_iff is_space_def split: if_split_asm)

lemma vet_connect_Inr:
  assumes "vet_connect lib cfg acl ports ap uri hs = Inr tunnel"
  obtains h p where "tn_authority tunnel = h @ '':'' @ port_string p" and "canon_host h = Inr (tn_host tunnel)"
    and "ed_allow (decide cfg (tn_host tunnel))" and "p \<in> set ports"
    and "\<not> ap \<Longrightarrow> \<not> is_internal_target (tn_host tunnel)"
    and "check_intercepted_connect acl (tn_host tunnel) = VAllow"
proof -
  from assms obtain a host where a: "u_authority uri = Some a" "effective_host (Some (a_host a)) (host_header lib hs) = Inr host"
    and t: "vet_target cfg acl ports ap host (a_host a) (case a_port a of None \<Rightarrow> DEFAULT_TLS_PORT | Some p \<Rightarrow> p) = Inr tunnel"
    by (auto simp: vet_connect_def split: option.split_asm if_split_asm sum.split_asm)
  let ?p = "case a_port a of None \<Rightarrow> DEFAULT_TLS_PORT | Some p \<Rightarrow> p"
  have "tunnel = \<lparr>tn_host = host, tn_authority = a_host a @ '':'' @ port_string ?p, tn_peer = None\<rparr> \<and> ?p \<in> set ports \<and>
      ed_allow (decide cfg host) \<and> (\<not> ap \<longrightarrow> \<not> is_internal_target host) \<and> check_intercepted_connect acl host = VAllow"
    using t by (auto simp: vet_target_def Let_def split: if_split_asm Verdict.split_asm)
  then show thesis using that [of "a_host a" ?p] effective_host_Inr [OF a(2)] by simp
qed

lemma proxy_tunnel:
  assumes "proxy lib st grants now req = TunnelOpened tunnel"
  obtains tls h p where "ps_tls st = Some tls" and "tn_authority tunnel = h @ '':'' @ port_string p"
    and "canon_host h = Inr (tn_host tunnel)" and "ed_allow (decide (ps_cfg st) (tn_host tunnel))" and "p \<in> set (tls_ports tls)"
    and "\<not> tls_allow_private tls \<Longrightarrow> \<not> is_internal_target (tn_host tunnel)"
    and "check_intercepted_connect (ps_acl st) (tn_host tunnel) = VAllow" and "tn_peer tunnel = hr_peer req"
proof -
  from assms obtain tls t where t: "ps_tls st = Some tls" "tunnel = t\<lparr>tn_peer := hr_peer req\<rparr>"
    "vet_connect lib (ps_cfg st) (ps_acl st) (tls_ports tls) (tls_allow_private tls) (hr_uri req) (hr_headers req) = Inr t"
    by (auto simp: proxy_def connect_def split: option.split_asm if_split_asm sum.split_asm)
  obtain h p where "tn_authority t = h @ '':'' @ port_string p" "canon_host h = Inr (tn_host t)"
    "ed_allow (decide (ps_cfg st) (tn_host t))" "p \<in> set (tls_ports tls)"
    "\<not> tls_allow_private tls \<longrightarrow> \<not> is_internal_target (tn_host t)" "check_intercepted_connect (ps_acl st) (tn_host t) = VAllow"
    using vet_connect_Inr [OF t(3)] by metis
  then show thesis using that [of tls h p] t by simp
qed


fun chunk_bytes :: "Chunk \<Rightarrow> u8 list" where
  "chunk_bytes (ChunkOk c) = c"
| "chunk_bytes ChunkErr = []"

fun passed :: "CappedItem list \<Rightarrow> u8 list list" where
  "passed (COk c # os) = c # passed os"
| "passed _ = []"

definition sizes :: "u8 list list \<Rightarrow> nat" where
  "sizes cs = sum_list (map length cs)"

lemma sizes_simps [simp]: "sizes [] = 0" "sizes (c # cs) = length c + sizes cs"
  by (simp_all add: sizes_def)

lemma seen_exact:
  assumes "unat (seen :: u64) + length c < 2 ^ 64"
  shows "unat (saturating_add seen (of_nat (length c))) = unat seen + length c"
  using assms by (simp add: unat_saturating_add unat_of_nat)

lemma capped_bound:
  assumes "mx \<noteq> 0" and "unat seen \<le> unat mx" and "unat seen + sizes (map chunk_bytes cs) < 2 ^ 64"
  shows "unat seen + sizes (passed (fst (capped mx seen cs))) \<le> unat mx \<and>
    (\<exists>rest. cs = map ChunkOk (passed (fst (capped mx seen cs))) @ rest)"
  using assms
proof (induction mx seen cs rule: capped.induct)
  case (3 mx seen c cs)
  let ?s = "saturating_add seen (of_nat (length c))"
  have s: "unat ?s = unat seen + length c" by (rule seen_exact) (use 3(4) in simp)
  show ?case
  proof (cases "mx < ?s")
    case True
    then show ?thesis using 3 by (simp add: Let_def split: prod.split)
  next
    case False
    then have "unat ?s \<le> unat mx" by (simp add: word_le_nat_alt not_less)
    then have "unat ?s + sizes (passed (fst (capped mx ?s cs))) \<le> unat mx \<and>
        (\<exists>rest. cs = map ChunkOk (passed (fst (capped mx ?s cs))) @ rest)"
      by (intro "3.IH") (use 3 s in simp_all)
    then show ?thesis using False s by (auto simp: Let_def add.assoc split: prod.split)
  qed
qed (auto split: prod.split)

lemma capped_complete:
  assumes "unat seen + sizes cs \<le> unat mx \<or> mx = 0" and "unat seen + sizes cs < 2 ^ 64"
  shows "capped mx seen (map ChunkOk cs) = (map COk cs, False)"
  using assms
proof (induction cs arbitrary: seen)
  case (Cons c cs)
  let ?s = "saturating_add seen (of_nat (length c))"
  have s: "unat ?s = unat seen + length c" by (rule seen_exact) (use Cons.prems in simp)
  then have "capped mx ?s (map ChunkOk cs) = (map COk cs, False)" by (intro Cons.IH) (use Cons.prems in \<open>simp_all add: add.assoc\<close>)
  moreover have "\<not> (mx \<noteq> 0 \<and> mx < ?s)" using Cons.prems s by (auto simp: word_less_nat_alt)
  ultimately show ?case by (simp add: Let_def)
qed simp

text \<open>
  The size cap holds on both sides of it. Of a body of at most \<open>2 ^ 64 - 1\<close> bytes, what passes before the
  first refusal is a prefix of the body's chunks with at most the configured number of bytes; and
  if the body has no more bytes than that, every chunk passes and the cap is not reported.
\<close>

theorem egress_body_capped:
  assumes "sizes (map chunk_bytes cs) < 2 ^ 64"
  shows "(mx \<noteq> 0 \<longrightarrow> sizes (passed (fst (capped mx 0 cs))) \<le> unat mx) \<and>
     (mx \<noteq> 0 \<longrightarrow> (\<exists>rest. cs = map ChunkOk (passed (fst (capped mx 0 cs))) @ rest)) \<and>
     (\<forall>bs. cs = map ChunkOk bs \<and> sizes bs \<le> unat mx \<longrightarrow> capped mx 0 cs = (map COk bs, False))"
proof -
  have "sizes (map chunk_bytes (map ChunkOk bs)) = sizes bs" for bs by (induction bs) auto
  then show ?thesis using capped_bound [of mx 0 cs] capped_complete [of 0 _ mx] assms by auto
qed

section \<open>Credentials without a filter\<close>

text \<open>An HTTP library for the examples: it reads and prints \<^verbatim>\<open>https\<close> URLs with a port.\<close>

definition demo_uri_parse :: "string \<Rightarrow> Uri option" where
  "demo_uri_parse s =
     (case strip_prefix ''https://'' s of
        None \<Rightarrow> None
      | Some r \<Rightarrow>
          (case rsplit_once CHR '':'' (takeWhile (\<lambda>c. c \<noteq> CHR ''/'') r) of
             None \<Rightarrow> None
           | Some (h, port) \<Rightarrow>
               (case from_str_radix 10 65536 port of
                  None \<Rightarrow> None
                | Some n \<Rightarrow>
                    (let pq = dropWhile (\<lambda>c. c \<noteq> CHR ''/'') r in
                     Some \<lparr>u_scheme = Some ''https'', u_authority = Some \<lparr>a_host = h, a_port = Some (of_nat n)\<rparr>,
                           u_path = takeWhile (\<lambda>c. c \<noteq> CHR ''?'') pq, u_query = None, u_path_and_query = Some pq\<rparr>))))"

definition demo_uri_string :: "Uri \<Rightarrow> string" where
  "demo_uri_string u =
     (case u_scheme u of None \<Rightarrow> [] | Some s \<Rightarrow> s @ ''://'') @
     (case u_authority u of None \<Rightarrow> [] | Some a \<Rightarrow> a_host a) @ u_path u"

definition demo_lib :: HttpLib where
  "demo_lib = \<lparr>to_str = Some, uri_parse = demo_uri_parse, uri_to_string = demo_uri_string, header_value = Some\<rparr>"

definition demo_uri :: "string option \<Rightarrow> string \<Rightarrow> Uri" where
  "demo_uri h path = \<lparr>u_scheme = map_option (\<lambda>_. ''http'') h, u_authority = map_option (\<lambda>x. \<lparr>a_host = x, a_port = None\<rparr>) h,
     u_path = path, u_query = None, u_path_and_query = Some path\<rparr>"

definition demo_req :: "string \<Rightarrow> string option \<Rightarrow> string \<Rightarrow> HttpRequest" where
  "demo_req meth h host = \<lparr>hr_method = meth, hr_uri = demo_uri h ''/x'', hr_headers = [(''host'', host)], hr_body = [],
     hr_peer = None\<rparr>"

definition demo_state :: "string list \<Rightarrow> Rule list \<Rightarrow> ProxyState" where
  "demo_state domains rules =
     \<lparr>ps_cfg = \<lparr>egress_allow_domains = domains, credential_vault = [\<lparr>ci_host = ''api.example'', ci_authorization = ''Bearer s''\<rparr>],
               egress_tls_allow_private = False, egress_max_body_bytes = 0\<rparr>,
      ps_acl = \<lparr>acl_rules = rules\<rparr>, ps_tls = None\<rparr>"


text \<open>Without rules and without interception a CONNECT request is not refused but forwarded as it is.\<close>

lemma connect_forwarded:
  "(case proxy demo_lib (demo_state [] []) grant_store_new 0 (demo_req ''CONNECT'' None ''any.example:443'') of
      Forwarded og \<Rightarrow> og_method og = ''CONNECT'' \<and> og_url og = ''http://any.example/x''
    | _ \<Rightarrow> False)"
proof -
  let ?hs = "[(''host'', ''any.example:443'')]" let ?st = "demo_state [] []"
  have v: "vet_request demo_lib (ps_cfg ?st) (ps_acl ?st) ''CONNECT'' (demo_uri None ''/x'') ?hs =
      Inr \<lparr>v_decision = \<lparr>ed_allow = True, ed_inject_authorization = None, ed_reason = NoAllowlist\<rparr>, v_rebuilt_url = None\<rparr>"
    by code_simp
  have h: "header_host_name demo_lib ?hs = ''any.example''" by code_simp
  have l: "declared_length demo_lib ?hs = None" by code_simp
  have q: "hr_method (demo_req ''CONNECT'' None ''any.example:443'') = ''CONNECT''"
      "hr_headers (demo_req ''CONNECT'' None ''any.example:443'') = ?hs" "hr_uri (demo_req ''CONNECT'' None ''any.example:443'') = demo_uri None ''/x''"
    by (simp_all add: demo_req_def)
  show ?thesis
    by (simp only: proxy_def handle_plain_def Let_def q v h l sum.case forward_def) (simp add: plain_url_def demo_uri_def demo_state_def)
qed

text \<open>
  In transparent mode a bracketed address gets past the check for internal targets: the check sees the
  Host header up to its first colon.
\<close>

lemma transparent_loopback_forwarded:
  "(case handle_plain demo_lib (demo_state [] [\<lparr>r_action = AllowAct, r_method = None, r_host = ''*'', r_path = None, r_source = []\<rparr>])
          grant_store_new 0 (demo_req ''GET'' None ''[::1]:80'') (Some 80) of
      Inl _ \<Rightarrow> False
    | Inr og \<Rightarrow> og_url og = ''http://[::1]:80/x'')"
proof -
  let ?hs = "[(''host'', ''[::1]:80'')]"
  let ?st = "demo_state [] [\<lparr>r_action = AllowAct, r_method = None, r_host = ''*'', r_path = None, r_source = []\<rparr>]"
  have e: "effective_host (uri_host (demo_uri None ''/x'')) (host_header demo_lib ?hs) = Inr ''[::1]''" by code_simp
  have n: "normalize_path ''/x'' = Inr ''/x''" by code_simp
  have c: "check (ps_acl ?st) ''GET'' ''[::1]'' ''/x'' = VAllow" by code_simp
  have u: "rebuild_url demo_lib (demo_uri None ''/x'') ?hs ''/x'' = ''http://[::1]:80/x''" by code_simp
  have d: "ed_allow (decide (ps_cfg ?st) ''[::1]'')" by (simp add: decide_def demo_state_def Let_def)
  have a: "is_active (ps_acl ?st)" "u_path (demo_uri None ''/x'') = ''/x''" "\<not> 1 < length (get_all ''host'' ?hs)"
    by code_simp+
  have v: "vet_request demo_lib (ps_cfg ?st) (ps_acl ?st) ''GET'' (demo_uri None ''/x'') ?hs =
      Inr \<lparr>v_decision = decide (ps_cfg ?st) ''[::1]'', v_rebuilt_url = Some ''http://[::1]:80/x''\<rparr>"
    by (simp only: vet_request_def judged_host_def filtering_def a e n c u d Let_def map_sum.simps sum.case
        Verdict.case if_True if_False not_True_eq_False simp_thms id_apply) simp
  have h: "header_host_name demo_lib ?hs = ''[''" by code_simp
  have "to_ascii_lowercase ''['' = ''[''" by code_simp
  moreover have "\<not> is_internal_target ''[''"
    by (simp add: is_internal_target_def trim_start_matches_def trim_end_matches_def ends_with_def strip_suffix_def parse_ip_Nil)
  ultimately have i: "is_internal_target (to_ascii_lowercase ''['') = False" by simp
  have l: "declared_length demo_lib ?hs = None" by code_simp
  have q: "hr_method (demo_req ''GET'' None ''[::1]:80'') = ''GET''" "hr_headers (demo_req ''GET'' None ''[::1]:80'') = ?hs"
      "hr_uri (demo_req ''GET'' None ''[::1]:80'') = demo_uri None ''/x''"
    by (simp_all add: demo_req_def)
  show ?thesis
    by (simp only: handle_plain_def Let_def q v h i l sum.case forward_def) (simp add: plain_url_def)
qed

section \<open>Witnesses\<close>

definition demo_rules :: "Rule list" where
  "demo_rules = [\<lparr>r_action = AllowAct, r_method = Some ''GET'', r_host = ''api.example'', r_path = Some ''/*'', r_source = []\<rparr>]"

lemma demo_plain:
  "(case handle_plain demo_lib (demo_state [] demo_rules) grant_store_new 0 (demo_req ''GET'' None ''API.example'') None of
      Inl _ \<Rightarrow> False
    | Inr og \<Rightarrow> og_url og = ''http://API.example/x'' \<and> (''authorization'', ''Bearer s'') \<in> set (og_headers og))"
  by code_simp

lemma demo_filtered: "is_active (ps_acl (demo_state [] demo_rules))" "filtering (ps_cfg (demo_state [] demo_rules)) (ps_acl (demo_state [] demo_rules))"
  by code_simp+



lemma rsplit_port: "rsplit_once CHR '':'' (h @ '':'' @ port_string p) = Some (h, port_string p)"
proof -
  have n: "c \<noteq> CHR '':''" if "c \<in> set (port_string p)" for c
    using dec_string_digits [of c "unat p"] that by (auto simp: port_string_def is_digit_c_def)
  have "takeWhile (\<lambda>c. c \<noteq> CHR '':'') (rev (h @ '':'' @ port_string p)) = rev (port_string p)"
    "dropWhile (\<lambda>c. c \<noteq> CHR '':'') (rev (h @ '':'' @ port_string p)) = CHR '':'' # rev h"
    using n by (auto simp: takeWhile_append dropWhile_append)
  then show ?thesis by (simp add: rsplit_once_def)
qed

lemma demo_parses_https: "parses_https demo_lib"
  unfolding parses_https_def
proof (intro allI impI)
  fix h p pq u
  assume a: "CHR ''/'' \<notin> set h \<and> uri_parse demo_lib (''https://'' @ (h @ '':'' @ port_string p) @ CHR ''/'' # pq) = Some u"
  have s: "strip_prefix ''https://'' (''https://'' @ x) = Some x" for x by (simp add: strip_prefix_def)
  have n: "c \<noteq> CHR ''/''" if "c \<in> set (port_string p)" for c
    using dec_string_digits [of c "unat p"] that by (auto simp: port_string_def is_digit_c_def)
  have t: "takeWhile (\<lambda>c. c \<noteq> CHR ''/'') ((h @ '':'' @ port_string p) @ CHR ''/'' # pq) = h @ '':'' @ port_string p"
    using a n by (auto simp: takeWhile_append)
  have p: "from_str_radix 10 65536 (port_string p) = Some (unat p)"
    unfolding port_string_def by (rule from_str_radix_dec_string) (use unsigned_less [of p] in simp)
  have "u_scheme u = Some ''https'' \<and> u_authority u = Some \<lparr>a_host = h, a_port = Some (of_nat (unat p))\<rparr>"
    using a by (simp only: demo_lib_def HttpLib.simps demo_uri_parse_def s t rsplit_port option.case prod.case p Let_def) auto
  then show "u_scheme u = Some ''https'' \<and> u_authority u = Some \<lparr>a_host = h, a_port = Some p\<rparr>" by simp
qed

definition demo_connect_uri :: Uri where
  "demo_connect_uri = \<lparr>u_scheme = None, u_authority = Some \<lparr>a_host = ''api.example'', a_port = Some 443\<rparr>,
     u_path = [], u_query = None, u_path_and_query = None\<rparr>"

definition demo_tls :: ProxyState where
  "demo_tls = (demo_state [] demo_rules)\<lparr>ps_tls := Some \<lparr>tls_ports = [443], tls_allow_private = True\<rparr>\<rparr>"

definition demo_connect_req :: HttpRequest where
  "demo_connect_req = \<lparr>hr_method = ''CONNECT'', hr_uri = demo_connect_uri, hr_headers = [(''host'', ''api.example:443'')],
     hr_body = [], hr_peer = None\<rparr>"

definition demo_tunnel :: Tunnel where
  "demo_tunnel = \<lparr>tn_host = ''api.example'', tn_authority = ''api.example:443'', tn_peer = None\<rparr>"

lemma demo_connect: "proxy demo_lib demo_tls grant_store_new 0 demo_connect_req = TunnelOpened demo_tunnel"
proof -
  let ?st = demo_tls let ?hs = "[(''host'', ''api.example:443'')]"
  have e: "effective_host (Some ''api.example'') (host_header demo_lib ?hs) = Inr ''api.example''" by code_simp
  have c: "check_intercepted_connect (ps_acl ?st) ''api.example'' = VAllow" by code_simp
  have d: "ed_allow (decide (ps_cfg ?st) ''api.example'')" by (simp add: decide_def demo_tls_def demo_state_def Let_def)
  have p: "''api.example'' @ '':'' @ port_string 443 = ''api.example:443''" by code_simp
  have "vet_target (ps_cfg ?st) (ps_acl ?st) [443] True ''api.example'' ''api.example'' 443 = Inr demo_tunnel"
    by (simp only: vet_target_def c d p Let_def Verdict.case demo_tunnel_def) simp
  then have "vet_connect demo_lib (ps_cfg ?st) (ps_acl ?st) [443] True demo_connect_uri ?hs = Inr demo_tunnel"
    using e by (simp add: vet_connect_def demo_connect_uri_def get_all_def)
  moreover have "ps_tls ?st = Some \<lparr>tls_ports = [443], tls_allow_private = True\<rparr>" by (simp add: demo_tls_def)
  ultimately show ?thesis by (simp add: proxy_def connect_def demo_connect_req_def demo_tunnel_def)
qed

lemma demo_target:
  "uri_parse demo_lib (''https://'' @ tn_authority demo_tunnel @ ''/x'') =
     Some \<lparr>u_scheme = Some ''https'', u_authority = Some \<lparr>a_host = ''api.example'', a_port = Some 443\<rparr>,
           u_path = ''/x'', u_query = None, u_path_and_query = Some ''/x''\<rparr>"
proof -
  have "strip_prefix ''https://'' (''https://'' @ tn_authority demo_tunnel @ ''/x'') = Some ''api.example:443/x''" by code_simp
  moreover have "takeWhile (\<lambda>c. c \<noteq> CHR ''/'') ''api.example:443/x'' = ''api.example:443''"
    "dropWhile (\<lambda>c. c \<noteq> CHR ''/'') ''api.example:443/x'' = ''/x''" "takeWhile (\<lambda>c. c \<noteq> CHR ''?'') ''/x'' = ''/x''"
    "rsplit_once CHR '':'' ''api.example:443'' = Some (''api.example'', ''443'')" by code_simp+
  moreover have "dec_string 443 = ''443''" by code_simp
  then have "from_str_radix 10 65536 ''443'' = Some 443" using from_str_radix_dec_string [of 443 65536] by simp
  ultimately show ?thesis by (simp only: demo_lib_def HttpLib.simps demo_uri_parse_def option.case prod.case Let_def) simp
qed

lemma demo_in_tunnel:
  "\<exists>og. tunnel_request demo_lib demo_tls grant_store_new 0 demo_tunnel
     (demo_req ''GET'' None ''api.example'') = Inr og \<and> og_method og = ''GET''"
proof -
  let ?st = demo_tls let ?r = "demo_req ''GET'' None ''api.example''" let ?hs = "[(''host'', ''api.example'')]"
  let ?u = "\<lparr>u_scheme = Some ''https'', u_authority = Some \<lparr>a_host = ''api.example'', a_port = Some 443\<rparr>,
             u_path = ''/x'', u_query = None, u_path_and_query = Some ''/x''\<rparr>"
  have v: "\<not> is_err (vet_request demo_lib (ps_cfg ?st) (ps_acl ?st) ''GET'' ?u ?hs)" by code_simp
  then obtain w where w: "vet_request demo_lib (ps_cfg ?st) (ps_acl ?st) ''GET'' ?u ?hs = Inr w" by (auto simp: not_is_err_iff)
  have t: "(ps_tls ?st = None) = False" by (simp add: demo_tls_def)
  have f: "is_upgrade demo_lib ?hs = False" "(1 < length (get_all ''host'' ?hs)) = False" "tunnel_headers demo_lib demo_tunnel ?hs = ?hs"
    "names_tunnel_host (host_header demo_lib ?hs) HostDiffers demo_tunnel = Inr ()"
    "names_tunnel_host (uri_host (demo_uri None ''/x'')) AuthorityDiffers demo_tunnel = Inr ()" 
    "u_path_and_query (demo_uri None ''/x'') = Some ''/x''" "(strip_prefix ''/'' ''/x'' = None) = False" 
    "declared_length demo_lib ?hs = None" by code_simp+
  have m: "(''GET'' = ''CONNECT'') = False" by simp
  have q: "hr_method ?r = ''GET''" "hr_headers ?r = ?hs" "hr_uri ?r = demo_uri None ''/x''" by (simp_all add: demo_req_def)
  show ?thesis
    by (simp only: t tunnel_request_def vet_tunnel_request_def Let_def q f m demo_target w forward_def option.case sum.case
        prod.case if_False) simp
qed


theorem egress_body_capped_witness:
  "sizes (passed (fst (capped 3 0 [ChunkOk [1, 2], ChunkOk [3, 4]]))) \<le> 3 \<and>
   passed (fst (capped 3 0 [ChunkOk [1, 2], ChunkOk [3, 4]])) = [[1, 2]]"
proof -
  have s: "sizes (map chunk_bytes [ChunkOk [1, 2], ChunkOk [3, 4]]) < 2 ^ 64" by simp
  have "passed (fst (capped 3 0 [ChunkOk [1, 2], ChunkOk [3, 4]])) = [[1, 2]]" by (simp add: saturating_add_def)
  then show ?thesis using egress_body_capped [OF s, of 3] by simp
qed

end
