(* ===== verification/Quota.thy ===== *)
theory Quota
  imports Rust_Text "HOL-Library.Multiset"
begin

text \<open>
  Admission control (\<^verbatim>\<open>fluxvm-core/src/policy.rs\<close> and \<^verbatim>\<open>pressure_admission.rs\<close>): the running totals of what
  tenants, tokens and the host hold, the caps checked against them, and the memory-pressure gate.
  Totals are \<^verbatim>\<open>u64\<close> words that saturate, a map of the code is a partial function, and the floating
  point numbers of the pressure gate are real numbers.
\<close>

section \<open>The ledger\<close>

record UsageTotals =
  ut_vms :: u64
  ut_vcpus :: u64
  ut_memory_mib :: u64

definition usage_default :: UsageTotals where
  "usage_default = \<lparr>ut_vms = 0, ut_vcpus = 0, ut_memory_mib = 0\<rparr>"

definition usage_add :: "u8 \<Rightarrow> u64 \<Rightarrow> UsageTotals \<Rightarrow> UsageTotals" where
  "usage_add vcpus memory_mib u =
     \<lparr>ut_vms = saturating_add (ut_vms u) 1, ut_vcpus = saturating_add (ut_vcpus u) (ucast vcpus),
      ut_memory_mib = saturating_add (ut_memory_mib u) memory_mib\<rparr>"

definition usage_sub :: "u8 \<Rightarrow> u64 \<Rightarrow> UsageTotals \<Rightarrow> UsageTotals" where
  "usage_sub vcpus memory_mib u =
     \<lparr>ut_vms = saturating_sub (ut_vms u) 1, ut_vcpus = saturating_sub (ut_vcpus u) (ucast vcpus),
      ut_memory_mib = saturating_sub (ut_memory_mib u) memory_mib\<rparr>"

record QuotaLedger =
  ql_host :: UsageTotals
  ql_tenants :: "string \<rightharpoonup> UsageTotals"
  ql_tokens :: "string \<rightharpoonup> UsageTotals"
  ql_untracked_host :: UsageTotals

definition ledger_default :: QuotaLedger where
  "ledger_default = \<lparr>ql_host = usage_default, ql_tenants = Map.empty, ql_tokens = Map.empty, ql_untracked_host = usage_default\<rparr>"

definition ledger_for_host_admission :: "QuotaLedger \<Rightarrow> QuotaLedger" where
  "ledger_for_host_admission l =
     l\<lparr>ql_host := (ql_host l)\<lparr>ut_vcpus := saturating_add (ut_vcpus (ql_host l)) (ut_vcpus (ql_untracked_host l)),
                              ut_memory_mib := saturating_add (ut_memory_mib (ql_host l)) (ut_memory_mib (ql_untracked_host l))\<rparr>\<rparr>"

text \<open>\<^verbatim>\<open>map(str::trim).filter(|s| !s.is_empty())\<close> on a name that may be missing.\<close>

definition clean_name :: "string option \<Rightarrow> string option" where
  "clean_name x =
     (case x of None \<Rightarrow> None | Some s \<Rightarrow> if trim s = [] then None else Some (trim s))"

definition slot_add :: "u8 \<Rightarrow> u64 \<Rightarrow> string option \<Rightarrow> (string \<rightharpoonup> UsageTotals) \<Rightarrow> string \<rightharpoonup> UsageTotals" where
  "slot_add vcpus memory_mib name m =
     (case clean_name name of
        None \<Rightarrow> m
      | Some k \<Rightarrow> m(k \<mapsto> usage_add vcpus memory_mib (case m k of None \<Rightarrow> usage_default | Some u \<Rightarrow> u)))"

definition slot_sub :: "u8 \<Rightarrow> u64 \<Rightarrow> string option \<Rightarrow> (string \<rightharpoonup> UsageTotals) \<Rightarrow> string \<rightharpoonup> UsageTotals" where
  "slot_sub vcpus memory_mib name m =
     (case clean_name name of
        None \<Rightarrow> m
      | Some k \<Rightarrow>
          (case m k of
             None \<Rightarrow> m
           | Some u \<Rightarrow>
               (let u' = usage_sub vcpus memory_mib u in if ut_vms u' = 0 then m(k := None) else m(k \<mapsto> u'))))"

definition ingest :: "string option \<Rightarrow> string option \<Rightarrow> u8 \<Rightarrow> u64 \<Rightarrow> QuotaLedger \<Rightarrow> QuotaLedger" where
  "ingest tenant token vcpus memory_mib l =
     l\<lparr>ql_host := usage_add vcpus memory_mib (ql_host l),
       ql_tenants := slot_add vcpus memory_mib tenant (ql_tenants l),
       ql_tokens := slot_add vcpus memory_mib token (ql_tokens l)\<rparr>"

definition release :: "string option \<Rightarrow> string option \<Rightarrow> u8 \<Rightarrow> u64 \<Rightarrow> QuotaLedger \<Rightarrow> QuotaLedger" where
  "release tenant token vcpus memory_mib l =
     l\<lparr>ql_host := usage_sub vcpus memory_mib (ql_host l),
       ql_tenants := slot_sub vcpus memory_mib tenant (ql_tenants l),
       ql_tokens := slot_sub vcpus memory_mib token (ql_tokens l)\<rparr>"

section \<open>Caps\<close>

record TenantPolicy =
  tp_tenant :: string
  tp_max_vcpus_total :: "u32 option"
  tp_max_memory_mib_total :: "u64 option"
  tp_max_vms_total :: "nat option"

datatype PressureLevel = Normal | Warning | Critical

fun pressure_rank :: "PressureLevel \<Rightarrow> nat" where
  "pressure_rank Normal = 0"
| "pressure_rank Warning = 1"
| "pressure_rank Critical = 2"

record Policy =
  po_max_vcpus_host :: "u32 option"
  po_max_memory_mib_host :: "u64 option"
  po_tenants :: "TenantPolicy list"
  po_min_host_mem_available_mib :: "u64 option"
  po_max_host_mem_psi_some_avg10 :: "real option"
  po_max_host_mem_psi_full_avg10 :: "real option"
  po_deny_host_pressure_level :: "PressureLevel option"

datatype QuotaError =
    TenantAtMaxVms string nat
  | TenantOverVcpus string u64 u64
  | TenantOverMemory string u64 u64
  | TokenAtMaxVms string nat
  | TokenOverMemory string u64
  | HostOverVcpus u32 u64
  | HostOverMemory u64 u64
  | UnsignedCatalog

definition usage_of :: "(string \<rightharpoonup> UsageTotals) \<Rightarrow> string \<Rightarrow> UsageTotals" where
  "usage_of m k = (case m k of None \<Rightarrow> usage_default | Some u \<Rightarrow> u)"

definition over :: "u64 option \<Rightarrow> u64 \<Rightarrow> u64 \<Rightarrow> bool" where
  "over cap used requested = (case cap of None \<Rightarrow> False | Some mx \<Rightarrow> mx < saturating_add used requested)"

definition at_max_vms :: "nat option \<Rightarrow> UsageTotals \<Rightarrow> bool" where
  "at_max_vms cap used = (case cap of None \<Rightarrow> False | Some mx \<Rightarrow> of_nat mx \<le> ut_vms used)"

definition enforce_tenant_totals :: "string \<Rightarrow> u8 \<Rightarrow> u64 \<Rightarrow> Policy \<Rightarrow> QuotaLedger \<Rightarrow> QuotaError + unit" where
  "enforce_tenant_totals tenant vcpus memory_mib policy l =
     (case find (\<lambda>t. tp_tenant t = tenant) (po_tenants policy) of
        None \<Rightarrow> Inr ()
      | Some tp \<Rightarrow>
          (let used = usage_of (ql_tenants l) tenant in
           if at_max_vms (tp_max_vms_total tp) used then Inl (TenantAtMaxVms tenant (the (tp_max_vms_total tp)))
           else if over (map_option ucast (tp_max_vcpus_total tp)) (ut_vcpus used) (ucast vcpus)
           then Inl (TenantOverVcpus tenant (ut_vcpus used) (ucast vcpus))
           else if over (tp_max_memory_mib_total tp) (ut_memory_mib used) memory_mib
           then Inl (TenantOverMemory tenant (ut_memory_mib used) memory_mib)
           else Inr ()))"

definition enforce_token_totals ::
  "string \<Rightarrow> u64 \<Rightarrow> nat option \<Rightarrow> u64 option \<Rightarrow> QuotaLedger \<Rightarrow> QuotaError + unit" where
  "enforce_token_totals actor memory_mib max_vms max_memory_mib l =
     (let used = usage_of (ql_tokens l) actor in
      if at_max_vms max_vms used then Inl (TokenAtMaxVms actor (the max_vms))
      else if over max_memory_mib (ut_memory_mib used) memory_mib then Inl (TokenOverMemory actor (the max_memory_mib))
      else Inr ())"

definition enforce_host_totals :: "u8 \<Rightarrow> u64 \<Rightarrow> Policy \<Rightarrow> QuotaLedger \<Rightarrow> QuotaError + unit" where
  "enforce_host_totals vcpus memory_mib policy l =
     (if over (map_option ucast (po_max_vcpus_host policy)) (ut_vcpus (ql_host l)) (ucast vcpus)
      then Inl (HostOverVcpus (the (po_max_vcpus_host policy)) (ut_vcpus (ql_host l)))
      else if over (po_max_memory_mib_host policy) (ut_memory_mib (ql_host l)) memory_mib
      then Inl (HostOverMemory (the (po_max_memory_mib_host policy)) (ut_memory_mib (ql_host l)))
      else Inr ())"

definition ledger_is_warm :: "u64 \<Rightarrow> u64 \<Rightarrow> bool" where
  "ledger_is_warm ledger_vms store_len \<longleftrightarrow> ledger_vms = store_len"

definition require_signed_catalog :: "bool \<Rightarrow> bool \<Rightarrow> string option \<Rightarrow> QuotaError + unit" where
  "require_signed_catalog req from_catalog signed_by =
     (if \<not> req then Inr ()
      else if from_catalog \<and> (case signed_by of None \<Rightarrow> False | Some s \<Rightarrow> s \<noteq> []) then Inr ()
      else Inl UnsignedCatalog)"

definition unsigned_catalog_insert_allowed :: "nat \<Rightarrow> bool" where
  "unsigned_catalog_insert_allowed trusted_signer_count \<longleftrightarrow> trusted_signer_count = 0"

fun format_audit_record :: "string \<Rightarrow> (string \<times> string) list \<Rightarrow> string" where
  "format_audit_record event pairs =
     foldl (\<lambda>out (k, v). out @ '' '' @ k @ ''='' @ v) (''event='' @ event) pairs"

datatype VmmSeccompMode = SeccompOff | SeccompLog | SeccompKill

definition vmm_seccomp_mode_from :: "string option \<Rightarrow> VmmSeccompMode" where
  "vmm_seccomp_mode_from val =
     (let v = (case val of None \<Rightarrow> ''log'' | Some s \<Rightarrow> s) in
      if v \<in> set [''off'', ''0'', ''false''] then SeccompOff
      else if v = ''kill'' then SeccompKill
      else SeccompLog)"

section \<open>Memory pressure\<close>

definition pressure_from_sysctl :: "int \<Rightarrow> PressureLevel option" where
  "pressure_from_sysctl v =
     (if v = 1 then Some Normal else if v = 2 then Some Warning else if v = 4 then Some Critical else None)"

record HostPressure =
  hp_mem_available_mib :: "u64 option"
  hp_mem_total_mib :: "u64 option"
  hp_psi_some_avg10 :: "real option"
  hp_psi_full_avg10 :: "real option"
  hp_level :: "PressureLevel option"

datatype PressureDeny =
    LowMemory u64 u64 u64
  | PsiSome real real
  | PsiFull real real
  | Level PressureLevel PressureLevel

definition deny_low_memory :: "u64 \<Rightarrow> u64 option \<Rightarrow> u64 option \<Rightarrow> PressureDeny option" where
  "deny_low_memory requested_mib reserve avail =
     (case (reserve, avail) of
        (Some r, Some a) \<Rightarrow>
          if saturating_sub a requested_mib < r then Some (LowMemory a requested_mib r) else None
      | _ \<Rightarrow> None)"

definition deny_psi :: "(real \<Rightarrow> real \<Rightarrow> PressureDeny) \<Rightarrow> real option \<Rightarrow> real option \<Rightarrow> PressureDeny option" where
  "deny_psi c cap avg =
     (case (cap, avg) of (Some mx, Some avg10) \<Rightarrow> if mx < avg10 then Some (c avg10 mx) else None | _ \<Rightarrow> None)"

definition deny_level :: "PressureLevel option \<Rightarrow> PressureLevel option \<Rightarrow> PressureDeny option" where
  "deny_level deny_at level =
     (case (deny_at, level) of
        (Some d, Some l) \<Rightarrow> if pressure_rank d \<le> pressure_rank l then Some (Level l d) else None
      | _ \<Rightarrow> None)"

fun first_deny :: "PressureDeny option list \<Rightarrow> PressureDeny + unit" where
  "first_deny [] = Inr ()"
| "first_deny (Some d # ds) = Inl d"
| "first_deny (None # ds) = first_deny ds"

definition check_pressure :: "u64 \<Rightarrow> Policy \<Rightarrow> HostPressure \<Rightarrow> PressureDeny + unit" where
  "check_pressure requested_mib policy host =
     first_deny
       [deny_low_memory requested_mib (po_min_host_mem_available_mib policy) (hp_mem_available_mib host),
        deny_psi PsiSome (po_max_host_mem_psi_some_avg10 policy) (hp_psi_some_avg10 host),
        deny_psi PsiFull (po_max_host_mem_psi_full_avg10 policy) (hp_psi_full_avg10 host),
        deny_level (po_deny_host_pressure_level policy) (hp_level host)]"

definition is_enabled :: "Policy \<Rightarrow> bool" where
  "is_enabled policy \<longleftrightarrow>
     po_min_host_mem_available_mib policy \<noteq> None \<or> po_max_host_mem_psi_some_avg10 policy \<noteq> None \<or>
     po_max_host_mem_psi_full_avg10 policy \<noteq> None \<or> po_deny_host_pressure_level policy \<noteq> None"

fun meminfo_line :: "string \<Rightarrow> u64 option \<times> u64 option \<Rightarrow> u64 option \<times> u64 option" where
  "meminfo_line line (avail, tot) =
     (if CHR '':'' \<notin> set line then (avail, tot)
      else
        let key = takeWhile (\<lambda>c. c \<noteq> CHR '':'') line;
            rst = tl (dropWhile (\<lambda>c. c \<noteq> CHR '':'') line);
            kib = (case split_whitespace rst of [] \<Rightarrow> None | v # _ \<Rightarrow> from_str_radix 10 (2 ^ 64) v);
            mib = map_option (\<lambda>k. of_nat (k div 1024)) kib
        in if key = ''MemAvailable'' then (mib, tot)
           else if key = ''MemTotal'' then (avail, mib)
           else (avail, tot))"

text \<open>\<^verbatim>\<open>lines\<close>: pieces between newlines, without the empty piece a final newline leaves and without a trailing carriage return.\<close>

definition text_lines :: "string \<Rightarrow> string list" where
  "text_lines s =
     (let ps = split_on (char_of (10 :: nat)) s;
          ls = (if last ps = [] then butlast ps else ps)
      in map (\<lambda>l. case strip_suffix [char_of (13 :: nat)] l of None \<Rightarrow> l | Some l' \<Rightarrow> l') ls)"

definition parse_meminfo :: "string \<Rightarrow> u64 option \<times> u64 option" where
  "parse_meminfo s = fold meminfo_line (text_lines s) (None, None)"

section \<open>What the ledger stands for\<close>

text \<open>The VMs behind the totals: a multiset of samples with mathematical sums.\<close>

record QuotaSample =
  qs_tenant :: "string option"
  qs_token :: "string option"
  qs_vcpus :: u8
  qs_memory_mib :: u64

definition vcpus_of :: "QuotaSample multiset \<Rightarrow> nat" where
  "vcpus_of M = (\<Sum>s \<in># M. unat (qs_vcpus s))"

definition memory_of :: "QuotaSample multiset \<Rightarrow> nat" where
  "memory_of M = (\<Sum>s \<in># M. unat (qs_memory_mib s))"

definition usage_is :: "UsageTotals \<Rightarrow> QuotaSample multiset \<Rightarrow> bool" where
  "usage_is u M \<longleftrightarrow> unat (ut_vms u) = size M \<and> unat (ut_vcpus u) = vcpus_of M \<and> unat (ut_memory_mib u) = memory_of M"

definition charged_to :: "(QuotaSample \<Rightarrow> string option) \<Rightarrow> string \<Rightarrow> QuotaSample multiset \<Rightarrow> QuotaSample multiset" where
  "charged_to f k M = filter_mset (\<lambda>s. clean_name (f s) = Some k) M"

definition slot_is :: "UsageTotals option \<Rightarrow> QuotaSample multiset \<Rightarrow> bool" where
  "slot_is x N = (case x of None \<Rightarrow> N = {#} | Some u \<Rightarrow> N \<noteq> {#} \<and> usage_is u N)"

definition slots_are :: "(QuotaSample \<Rightarrow> string option) \<Rightarrow> (string \<rightharpoonup> UsageTotals) \<Rightarrow> QuotaSample multiset \<Rightarrow> bool" where
  "slots_are f m M \<longleftrightarrow> (\<forall>k. slot_is (m k) (charged_to f k M))"

definition represents :: "QuotaLedger \<Rightarrow> QuotaSample multiset \<Rightarrow> bool" where
  "represents l M \<longleftrightarrow>
     usage_is (ql_host l) M \<and> slots_are qs_tenant (ql_tenants l) M \<and> slots_are qs_token (ql_tokens l) M"

definition fits :: "QuotaSample multiset \<Rightarrow> bool" where
  "fits M \<longleftrightarrow> size M < 2 ^ 64 \<and> vcpus_of M < 2 ^ 64 \<and> memory_of M < 2 ^ 64"

definition ingest_sample :: "QuotaSample \<Rightarrow> QuotaLedger \<Rightarrow> QuotaLedger" where
  "ingest_sample s = ingest (qs_tenant s) (qs_token s) (qs_vcpus s) (qs_memory_mib s)"

definition release_sample :: "QuotaSample \<Rightarrow> QuotaLedger \<Rightarrow> QuotaLedger" where
  "release_sample s = release (qs_tenant s) (qs_token s) (qs_vcpus s) (qs_memory_mib s)"

lemma totals_simps [simp]:
  "vcpus_of {#} = 0" "memory_of {#} = 0"
  "vcpus_of (add_mset s M) = unat (qs_vcpus s) + vcpus_of M"
  "memory_of (add_mset s M) = unat (qs_memory_mib s) + memory_of M"
  by (simp_all add: vcpus_of_def memory_of_def)

lemma totals_filter: "vcpus_of (filter_mset P M) \<le> vcpus_of M" "memory_of (filter_mset P M) \<le> memory_of M"
  by (induction M) auto

lemma fits_filter_mset: "fits M \<Longrightarrow> fits (filter_mset P M)"
  using totals_filter [of P M] by (auto simp: fits_def intro: le_less_trans [OF size_filter_mset_lesseq])

lemma usage_is_default [simp]: "usage_is usage_default {#}"
  by (simp add: usage_is_def usage_default_def)

lemma usage_is_add:
  assumes "usage_is u M" and "fits (add_mset s M)"
  shows "usage_is (usage_add (qs_vcpus s) (qs_memory_mib s) u) (add_mset s M)"
  using assms by (auto simp: usage_is_def usage_add_def fits_def unat_saturating_add)

lemma usage_is_sub:
  assumes "usage_is u (add_mset s M)"
  shows "usage_is (usage_sub (qs_vcpus s) (qs_memory_mib s) u) M"
  using assms by (auto simp: usage_is_def usage_sub_def unat_saturating_sub)

lemma charged_to_add:
  "charged_to f k (add_mset s M) = (if clean_name (f s) = Some k then add_mset s (charged_to f k M) else charged_to f k M)"
  by (simp add: charged_to_def)

lemma fits_charged: "fits M \<Longrightarrow> fits (charged_to f k M)"
  unfolding charged_to_def by (rule fits_filter_mset)

lemma slot_is_add:
  assumes "slot_is x N" and "fits (add_mset s N)"
  shows "slot_is (Some (usage_add (qs_vcpus s) (qs_memory_mib s) (case x of None \<Rightarrow> usage_default | Some u \<Rightarrow> u))) (add_mset s N)"
  using assms by (cases x) (auto simp: slot_is_def intro: usage_is_add [of _ "{#}", simplified] usage_is_add)

lemma slot_is_sub:
  assumes "slot_is (Some u) (add_mset s N)"
  shows "slot_is (if ut_vms (usage_sub (qs_vcpus s) (qs_memory_mib s) u) = 0 then None
    else Some (usage_sub (qs_vcpus s) (qs_memory_mib s) u)) N"
proof -
  have v: "usage_is (usage_sub (qs_vcpus s) (qs_memory_mib s) u) N" using assms by (auto simp: slot_is_def intro: usage_is_sub)
  then have "ut_vms (usage_sub (qs_vcpus s) (qs_memory_mib s) u) = 0 \<longleftrightarrow> N = {#}"
    by (metis size_eq_0_iff_empty unat_eq_zero usage_is_def)
  then show ?thesis using v by (auto simp: slot_is_def)
qed

lemma slots_are_add:
  assumes "slots_are f m M" and "fits (add_mset s M)"
  shows "slots_are f (slot_add (qs_vcpus s) (qs_memory_mib s) (f s) m) (add_mset s M)"
  unfolding slots_are_def
proof
  fix k
  have old: "slot_is (m k) (charged_to f k M)" using assms(1) by (simp add: slots_are_def)
  show "slot_is (slot_add (qs_vcpus s) (qs_memory_mib s) (f s) m k) (charged_to f k (add_mset s M))"
  proof (cases "clean_name (f s) = Some k")
    case True
    then have "fits (add_mset s (charged_to f k M))" using fits_charged [OF assms(2), of f k] by (simp add: charged_to_add)
    then show ?thesis using True slot_is_add [OF old] by (simp add: slot_add_def charged_to_add)
  next
    case False
    then show ?thesis using old by (cases "clean_name (f s)") (auto simp: slot_add_def charged_to_add)
  qed
qed

lemma slots_are_sub:
  assumes "slots_are f m (add_mset s M)"
  shows "slots_are f (slot_sub (qs_vcpus s) (qs_memory_mib s) (f s) m) M"
  unfolding slots_are_def
proof
  fix k
  have old: "slot_is (m k) (charged_to f k (add_mset s M))" using assms by (simp add: slots_are_def)
  show "slot_is (slot_sub (qs_vcpus s) (qs_memory_mib s) (f s) m k) (charged_to f k M)"
  proof (cases "clean_name (f s) = Some k")
    case True
    then have n: "slot_is (m k) (add_mset s (charged_to f k M))" using old by (simp add: charged_to_add)
    then obtain u where u: "m k = Some u" by (auto simp: slot_is_def split: option.splits)
    show ?thesis using True u slot_is_sub [OF n [unfolded u]] by (simp add: slot_sub_def Let_def split: if_split_asm)
  next
    case False
    then show ?thesis using old
      by (cases "clean_name (f s)") (auto simp: slot_sub_def charged_to_add Let_def split: option.splits)
  qed
qed

lemma represents_empty: "represents ledger_default {#}"
  by (simp add: represents_def ledger_default_def slots_are_def slot_is_def charged_to_def)

lemma represents_ingest: "represents l M \<Longrightarrow> fits (add_mset s M) \<Longrightarrow> represents (ingest_sample s l) (add_mset s M)"
  by (simp add: represents_def ingest_sample_def ingest_def usage_is_add slots_are_add)

lemma represents_release:
  "represents l (add_mset s M) \<Longrightarrow> represents (release_sample s l) M"
  by (simp add: represents_def release_sample_def release_def usage_is_sub slots_are_sub)

section \<open>Runs of the ledger\<close>

datatype LedgerEvent = Joins QuotaSample | Leaves QuotaSample

fun ledger_step :: "LedgerEvent \<Rightarrow> QuotaLedger \<Rightarrow> QuotaLedger" where
  "ledger_step (Joins s) l = ingest_sample s l"
| "ledger_step (Leaves s) l = release_sample s l"

text \<open>The VMs after a history, if only present VMs left and the sums always fitted in 64 bits.\<close>

fun population :: "LedgerEvent list \<Rightarrow> QuotaSample multiset \<Rightarrow> QuotaSample multiset option" where
  "population [] M = Some M"
| "population (Joins s # es) M = (if fits (add_mset s M) then population es (add_mset s M) else None)"
| "population (Leaves s # es) M = (if s \<in># M then population es (M - {#s#}) else None)"

lemma ledger_run: "represents l M \<Longrightarrow> population es M = Some M' \<Longrightarrow> represents (fold ledger_step es l) M'"
proof (induction es M arbitrary: l rule: population.induct)
  case (3 s es M)
  then have "represents (release_sample s l) (M - {#s#})"
    by (intro represents_release) (simp split: if_split_asm)
  with 3 show ?case by (simp split: if_split_asm)
qed (auto simp: represents_ingest split: if_split_asm)

lemma saturating_cap:
  assumes "unat (a :: u64) + unat b < 2 ^ 64" and "\<not> mx < saturating_add a b"
  shows "unat a + unat b \<le> unat mx"
  using assms by (simp add: word_less_nat_alt unat_saturating_add)

lemma usage_of_slots: "slots_are f m M \<Longrightarrow> usage_is (usage_of m k) (charged_to f k M)"
  by (auto simp: slots_are_def slot_is_def usage_of_def split: option.splits dest!: spec [of _ k])

lemma pressure_leaves_reserve:
  assumes "check_pressure req policy host = Inr ()"
    and "po_min_host_mem_available_mib policy = Some r" and "hp_mem_available_mib host = Some a"
  shows "unat r \<le> unat a - unat req"
proof -
  have "deny_low_memory req (Some r) (Some a) = None"
    using assms by (cases "deny_low_memory req (Some r) (Some a)") (simp_all add: check_pressure_def)
  then show ?thesis by (simp add: deny_low_memory_def word_less_nat_alt unat_saturating_sub split: if_split_asm)
qed

section \<open>Properties\<close>

text \<open>
  The running totals are the totals of the VMs. After any history in which VMs join and present
  VMs leave and no sum outgrows 64 bits, the host total and the total of every tenant and token are
  exactly the count, vCPUs and memory of the VMs there are, and a tenant or token without VMs has no
  entry.
\<close>

theorem quota_ledger_exact:
  assumes "population es {#} = Some M"
  shows "represents (fold ledger_step es ledger_default) M"
  using represents_empty assms by (rule ledger_run)

text \<open>
  An admitted VM does not push its tenant over its caps: if the totals are exact, the tenant has a
  policy, the request passes \<^verbatim>\<open>enforce_tenant_totals\<close> and is then recorded, the tenant's VM count, vCPUs
  and memory stay within the caps that are set, and the totals are exact again.
\<close>

theorem quota_caps_hold:
  assumes "represents l M" and "fits (add_mset s M)"
    and "qs_tenant s = Some t" and "trim t = t" and "t \<noteq> []"
    and "find (\<lambda>p. tp_tenant p = t) (po_tenants policy) = Some tp"
    and "enforce_tenant_totals t (qs_vcpus s) (qs_memory_mib s) policy l = Inr ()"
  defines "N \<equiv> charged_to qs_tenant t (add_mset s M)"
  shows "represents (ingest_sample s l) (add_mset s M) \<and>
    (\<forall>mx. tp_max_vms_total tp = Some mx \<and> mx < 2 ^ 64 \<longrightarrow> size N \<le> mx) \<and>
    (\<forall>mx. tp_max_vcpus_total tp = Some mx \<longrightarrow> vcpus_of N \<le> unat mx) \<and>
    (\<forall>mx. tp_max_memory_mib_total tp = Some mx \<longrightarrow> memory_of N \<le> unat mx)"
proof -
  let ?u = "usage_of (ql_tenants l) t" let ?O = "charged_to qs_tenant t M"
  have N: "N = add_mset s ?O" using assms(3-5) by (simp add: N_def charged_to_add clean_name_def)
  have u: "usage_is ?u ?O" using assms(1) usage_of_slots by (auto simp: represents_def)
  have "fits N" unfolding N_def by (rule fits_charged) (rule assms(2))
  then have f: "unat (ut_vcpus ?u) + unat (ucast (qs_vcpus s) :: u64) < 2 ^ 64"
      "unat (ut_memory_mib ?u) + unat (qs_memory_mib s) < 2 ^ 64"
    using u by (simp_all add: N fits_def usage_is_def)
  have e: "\<not> at_max_vms (tp_max_vms_total tp) ?u"
      "\<not> over (map_option ucast (tp_max_vcpus_total tp)) (ut_vcpus ?u) (ucast (qs_vcpus s))"
      "\<not> over (tp_max_memory_mib_total tp) (ut_memory_mib ?u) (qs_memory_mib s)"
    using assms(7) by (auto simp: enforce_tenant_totals_def assms(6) Let_def split: if_split_asm)
  have "size N \<le> mx" if "tp_max_vms_total tp = Some mx" "mx < 2 ^ 64" for mx
    using e(1) that u by (simp add: at_max_vms_def N usage_is_def word_le_nat_alt unat_of_nat)
  moreover have "vcpus_of N \<le> unat mx" if "tp_max_vcpus_total tp = Some mx" for mx
    using e(2) that u saturating_cap [OF f(1), of "ucast mx"] by (simp add: over_def N usage_is_def)
  moreover have "memory_of N \<le> unat mx" if "tp_max_memory_mib_total tp = Some mx" for mx
    using e(3) that u saturating_cap [OF f(2), of mx] by (simp add: over_def N usage_is_def)
  ultimately show ?thesis using represents_ingest [OF assms(1,2)] by blast
qed

section \<open>Witnesses\<close>

definition demo_sample :: QuotaSample where
  "demo_sample = \<lparr>qs_tenant = Some ''acme'', qs_token = None, qs_vcpus = 2, qs_memory_mib = 512\<rparr>"

definition demo_policy :: Policy where
  "demo_policy = \<lparr>po_max_vcpus_host = None, po_max_memory_mib_host = None,
     po_tenants = [\<lparr>tp_tenant = ''acme'', tp_max_vcpus_total = Some 4, tp_max_memory_mib_total = Some 1024, tp_max_vms_total = Some 2\<rparr>],
     po_min_host_mem_available_mib = None, po_max_host_mem_psi_some_avg10 = None, po_max_host_mem_psi_full_avg10 = None,
     po_deny_host_pressure_level = None\<rparr>"

lemma demo_fits: "fits {#demo_sample, demo_sample#}" "fits {#demo_sample#}"
  by (simp_all add: fits_def demo_sample_def)

lemma trim_acme: "trim ''acme'' = ''acme''"
  by code_simp

theorem quota_ledger_exact_witness:
  "represents (fold ledger_step [Joins demo_sample, Joins demo_sample, Leaves demo_sample] ledger_default) {#demo_sample#}"
  by (rule quota_ledger_exact) (simp add: demo_fits)

lemma demo_ledger: "represents (ingest_sample demo_sample ledger_default) {#demo_sample#}"
  by (rule represents_ingest [OF represents_empty demo_fits(2)])

lemma demo_admitted: "enforce_tenant_totals ''acme'' 2 512 demo_policy (ingest_sample demo_sample ledger_default) = Inr ()"
  by (simp add: enforce_tenant_totals_def demo_policy_def ingest_sample_def ingest_def slot_add_def demo_sample_def clean_name_def
      trim_acme ledger_default_def usage_of_def usage_default_def usage_add_def saturating_add_def at_max_vms_def over_def Let_def
      word_le_nat_alt)

theorem quota_caps_hold_witness:
  "vcpus_of (charged_to qs_tenant ''acme'' {#demo_sample, demo_sample#}) \<le> 4"
proof -
  have "find (\<lambda>p. tp_tenant p = ''acme'') (po_tenants demo_policy) =
      Some \<lparr>tp_tenant = ''acme'', tp_max_vcpus_total = Some 4, tp_max_memory_mib_total = Some 1024, tp_max_vms_total = Some 2\<rparr>"
    by (simp add: demo_policy_def)
  note q = quota_caps_hold [OF demo_ledger demo_fits(1) _ trim_acme _ this]
  have "qs_tenant demo_sample = Some ''acme''" "qs_vcpus demo_sample = 2" "qs_memory_mib demo_sample = 512"
    by (simp_all add: demo_sample_def)
  then show ?thesis using q demo_admitted by simp
qed

text \<open>
  The ledger trims a tenant's name, the policy lookup does not: with a blank in front of its name a
  request passes for a tenant whose cap is used up and is charged to that tenant.
\<close>

lemma padded_tenant_bypasses:
  "enforce_tenant_totals '' acme'' 2 512 demo_policy l = Inr ()"
  "clean_name (Some '' acme'') = Some ''acme''"
proof -
  show "enforce_tenant_totals '' acme'' 2 512 demo_policy l = Inr ()" by (simp add: enforce_tenant_totals_def demo_policy_def)
  have "trim '' acme'' = ''acme''" by code_simp
  then show "clean_name (Some '' acme'') = Some ''acme''" by (simp add: clean_name_def)
qed

end
