(* ===== verification/Rust_Map.thy ===== *)
theory Rust_Map
  imports Flux_Prelude
begin

text \<open>
  Hash maps and the files they are kept in, as the stores of the daemon use them: a \<^verbatim>\<open>HashMap\<close> is a
  list of entries with distinct keys whose order means nothing, a JSON file is absent, blank, a
  value, or text that does not parse. The theory also holds the contract of a state in which
  holders have resources of their own.
\<close>

section \<open>Files and maps\<close>

datatype 'a state_file = Absent | Blank | Text 'a | Garbled

text \<open>
  The outcomes of \<^verbatim>\<open>write_durable\<close>: it replaces the file, or fails before the rename and leaves it, or fails in the
  directory sync after the rename, when the new contents are there and the caller sees an error.
\<close>

datatype Written = Durable | Untouched | Unsynced

definition hm_get :: "'k \<Rightarrow> ('k \<times> 'v) list \<Rightarrow> 'v option" where
  "hm_get k m = map_of m k"

definition hm_remove :: "'k \<Rightarrow> ('k \<times> 'v) list \<Rightarrow> ('k \<times> 'v) list" where
  "hm_remove k m = filter (\<lambda>e. fst e \<noteq> k) m"

definition hm_insert :: "'k \<Rightarrow> 'v \<Rightarrow> ('k \<times> 'v) list \<Rightarrow> ('k \<times> 'v) list" where
  "hm_insert k v m = (k, v) # hm_remove k m"

definition keyed :: "('k \<times> 'v) list \<Rightarrow> bool" where
  "keyed m \<longleftrightarrow> distinct (map fst m)"

lemma keyed_remove: "keyed m \<Longrightarrow> keyed (hm_remove k m)"
  by (simp add: keyed_def hm_remove_def distinct_map_filter)

lemma keyed_insert: "keyed m \<Longrightarrow> keyed (hm_insert k v m)"
  using keyed_remove [of m k] by (auto simp: keyed_def hm_insert_def hm_remove_def)

lemma hm_remove_none: "hm_get k m = None \<Longrightarrow> hm_remove k m = m"
  by (auto simp: hm_get_def hm_remove_def map_of_eq_None_iff intro!: filter_True)

lemma hm_get_insert: "hm_get k' (hm_insert k v m) = (if k' = k then Some v else hm_get k' m)"
  by (induction m) (auto simp: hm_get_def hm_insert_def hm_remove_def split: if_splits)

lemma hm_get_remove: "hm_get k' (hm_remove k m) = (if k' = k then None else hm_get k' m)"
  by (induction m) (auto simp: hm_get_def hm_remove_def)

section \<open>Resources with one holder\<close>

text \<open>
  A step may take resources away, and may give one holder one resource nobody has. Then no resource
  ever has two holders, whatever the order of the steps.
\<close>

locale exclusive_pool =
  fixes held :: "'s \<Rightarrow> 'k \<Rightarrow> 'r option"
    and stp :: "'e \<Rightarrow> 's \<Rightarrow> 's"
    and ok :: "'s \<Rightarrow> bool"
  assumes stp_ok: "ok s \<Longrightarrow> ok (stp e s)"
    and stp_fresh: "ok s \<Longrightarrow> \<exists>k. (\<forall>k'. k' \<noteq> k \<longrightarrow> held (stp e s) k' = held s k' \<or> held (stp e s) k' = None) \<and>
       (\<forall>r. held (stp e s) k = Some r \<longrightarrow> held s k = Some r \<or> (\<forall>k'. held s k' \<noteq> Some r))"
begin

definition exclusive :: "'s \<Rightarrow> bool" where
  "exclusive s \<longleftrightarrow> (\<forall>k k' r. held s k = Some r \<and> held s k' = Some r \<longrightarrow> k = k')"

lemma exclusive_stp:
  assumes "ok s" and "exclusive s"
  shows "exclusive (stp e s)"
proof -
  obtain k where k: "\<And>k'. k' \<noteq> k \<Longrightarrow> held (stp e s) k' = held s k' \<or> held (stp e s) k' = None"
    "\<And>r. held (stp e s) k = Some r \<Longrightarrow> held s k = Some r \<or> (\<forall>k'. held s k' \<noteq> Some r)"
    using stp_fresh [OF assms(1)] by blast
  have old: "held s k' = Some r" if "held (stp e s) k' = Some r" "k' \<noteq> k" for k' r
    using k(1) [OF that(2)] that(1) by auto
  show ?thesis unfolding exclusive_def
  proof (intro allI impI)
    fix a b r
    assume h: "held (stp e s) a = Some r \<and> held (stp e s) b = Some r"
    show "a = b"
    proof (cases "a = k \<or> b = k")
      case True
      then show ?thesis using h k(2) old assms(2) unfolding exclusive_def by metis
    next
      case False
      then show ?thesis using h old assms(2) unfolding exclusive_def by blast
    qed
  qed
qed

lemma exclusive_run: "ok s \<Longrightarrow> exclusive s \<Longrightarrow> ok (fold stp es s) \<and> exclusive (fold stp es s)"
  by (induction es arbitrary: s) (simp_all add: stp_ok exclusive_stp)

end

end
