(* ===== verification/Vm_Store.thy ===== *)
theory Vm_Store
  imports Quota Rust_Map "HOL-Library.List_Lexorder" "HOL-Library.Char_ord"
begin

text \<open>
  The VM store and the warm-pool store (\<^verbatim>\<open>fluxvm-storage/src/lib.rs\<close>). Every operation takes the file lock,
  reads the file afresh and writes it back, so a run is a sequence of operations on the disk. A
  file is what its text parses to, with its modification time; a \<^verbatim>\<open>HashMap\<close> is a list of entries with
  distinct keys, in no particular order. How far an operation gets before the process dies or a
  write fails, and the clock readings of its writes, are its \<open>Fate\<close>. A UUID is a number.
\<close>

section \<open>Records and files\<close>

text \<open>The fields of a VM record that the store looks at, and the rest as one string.\<close>

record VmRecord =
  vm_id :: nat
  vm_created_at :: int
  vm_tenant :: "string option"
  vm_created_by_token :: "string option"
  vm_vcpus :: u8
  vm_memory_mib :: u64
  vm_guest_cid :: "u32 option"
  vm_rest :: string

type_synonym VmMap = "(nat \<times> VmRecord) list"

record Disk =
  dk_vms :: "VmMap state_file"
  dk_vms_modified :: int
  dk_quota :: "QuotaLedger state_file"
  dk_quota_modified :: int

definition disk_new :: Disk where
  "disk_new = \<lparr>dk_vms = Absent, dk_vms_modified = 0, dk_quota = Absent, dk_quota_modified = 0\<rparr>"

datatype StoreError = ParsingState | IoFailed | QuotaRefused QuotaError

datatype Fate = Completes int int | StopsBeforeVms | StopsBetween int

definition read_map :: "Disk \<Rightarrow> StoreError + VmMap" where
  "read_map d =
     (case dk_vms d of Absent \<Rightarrow> Inr [] | Blank \<Rightarrow> Inr [] | Text m \<Rightarrow> Inr m | Garbled \<Rightarrow> Inl ParsingState)"

section \<open>The ledger beside the map\<close>

datatype LedgerDelta = Preserve | Ingest QuotaSample | Release QuotaSample | Replace QuotaSample QuotaSample | Rebuild

definition quota_sample :: "VmRecord \<Rightarrow> QuotaSample" where
  "quota_sample vm =
     \<lparr>qs_tenant = clean_name (vm_tenant vm), qs_token = clean_name (vm_created_by_token vm), qs_vcpus = vm_vcpus vm,
      qs_memory_mib = vm_memory_mib vm\<rparr>"

definition apply_sample :: "QuotaSample \<Rightarrow> bool \<Rightarrow> QuotaLedger \<Rightarrow> QuotaLedger" where
  "apply_sample s rel l =
     (if rel then release (qs_tenant s) (qs_token s) (qs_vcpus s) (qs_memory_mib s) l
      else ingest (qs_tenant s) (qs_token s) (qs_vcpus s) (qs_memory_mib s) l)"

definition quota_ledger_from :: "VmMap \<Rightarrow> QuotaLedger" where
  "quota_ledger_from m =
     fold (\<lambda>e. ingest (vm_tenant (snd e)) (vm_created_by_token (snd e)) (vm_vcpus (snd e)) (vm_memory_mib (snd e))) m
       ledger_default"

definition read_warm_ledger :: "Disk \<Rightarrow> u64 \<Rightarrow> QuotaLedger option" where
  "read_warm_ledger d vm_count =
     (if dk_vms d = Absent \<or> dk_quota d = Absent \<or> dk_quota_modified d < dk_vms_modified d then None
      else case dk_quota d of
             Text l \<Rightarrow> if ledger_is_warm (ut_vms (ql_host l)) vm_count then Some l else None
           | _ \<Rightarrow> None)"

definition read_untracked_host :: "Disk \<Rightarrow> UsageTotals" where
  "read_untracked_host d = (case dk_quota d of Text l \<Rightarrow> ql_untracked_host l | _ \<Rightarrow> usage_default)"

definition rebuilt_ledger :: "Disk \<Rightarrow> VmMap \<Rightarrow> QuotaLedger" where
  "rebuilt_ledger d m = (quota_ledger_from m)\<lparr>ql_untracked_host := read_untracked_host d\<rparr>"

definition load_quota_ledger :: "Disk \<Rightarrow> VmMap \<Rightarrow> QuotaLedger" where
  "load_quota_ledger d m =
     (case read_warm_ledger d (of_nat (length m)) of Some l \<Rightarrow> l | None \<Rightarrow> rebuilt_ledger d m)"

definition write_quota_ledger :: "int \<Rightarrow> QuotaLedger \<Rightarrow> Disk \<Rightarrow> Disk" where
  "write_quota_ledger t l d = d\<lparr>dk_quota := Text l, dk_quota_modified := t\<rparr>"

fun apply_delta :: "LedgerDelta \<Rightarrow> QuotaLedger \<Rightarrow> QuotaLedger" where
  "apply_delta (Ingest s) l = apply_sample s False l"
| "apply_delta (Release s) l = apply_sample s True l"
| "apply_delta (Replace from to) l = apply_sample to False (apply_sample from True l)"
| "apply_delta Preserve l = l"
| "apply_delta Rebuild l = l"

definition apply_ledger_delta :: "VmMap \<Rightarrow> u64 \<Rightarrow> LedgerDelta \<Rightarrow> int \<Rightarrow> Disk \<Rightarrow> Disk" where
  "apply_ledger_delta m len_before delta t d =
     (if delta = Preserve then (if dk_quota d = Absent then d else d\<lparr>dk_quota_modified := t\<rparr>)
      else if delta = Rebuild then write_quota_ledger t (rebuilt_ledger d m) d
      else
        (case read_warm_ledger d len_before of
           Some l \<Rightarrow> write_quota_ledger t (apply_delta delta l) d
         | None \<Rightarrow> write_quota_ledger t (rebuilt_ledger d m) d))"

section \<open>Operations of the VM store\<close>

definition with_exclusive ::
  "(VmMap \<Rightarrow> VmMap \<times> 'a \<times> LedgerDelta) \<Rightarrow> Fate \<Rightarrow> Disk \<Rightarrow> (StoreError + 'a) \<times> Disk" where
  "with_exclusive f fate d =
     (case read_map d of
        Inl e \<Rightarrow> (Inl e, d)
      | Inr m \<Rightarrow>
          (case f m of
             (m', r, delta) \<Rightarrow>
               (case fate of
                  StopsBeforeVms \<Rightarrow> (Inl IoFailed, d)
                | StopsBetween t \<Rightarrow> (Inl IoFailed, d\<lparr>dk_vms := Text m', dk_vms_modified := t\<rparr>)
                | Completes t t' \<Rightarrow>
                    (Inr r, apply_ledger_delta m' (of_nat (length m)) delta t'
                              (d\<lparr>dk_vms := Text m', dk_vms_modified := t\<rparr>)))))"

definition with_shared :: "(VmMap \<Rightarrow> 'a) \<Rightarrow> Disk \<Rightarrow> StoreError + 'a" where
  "with_shared f d = map_sum id f (read_map d)"

definition store_insert :: "VmRecord \<Rightarrow> VmMap \<Rightarrow> VmMap \<times> unit \<times> LedgerDelta" where
  "store_insert vm m = (hm_insert (vm_id vm) vm m, (), Ingest (quota_sample vm))"

text \<open>The search for a CID, which would not end if every CID were taken.\<close>

partial_function (option) free_cid :: "u32 set \<Rightarrow> u32 \<Rightarrow> u32 option" where
  "free_cid used candidate = (if candidate \<in> used then free_cid used (candidate + 1) else Some candidate)"

definition used_cids :: "VmMap \<Rightarrow> u32 set" where
  "used_cids m = set (List.map_filter (\<lambda>e. vm_guest_cid (snd e)) m)"

definition insert_with_cid ::
  "VmRecord \<Rightarrow> bool \<Rightarrow> u32 \<Rightarrow> VmMap \<Rightarrow> (VmMap \<times> VmRecord \<times> LedgerDelta) option" where
  "insert_with_cid vm needs_cid first_cid m =
     (let chosen = (if needs_cid then map_option (\<lambda>c. vm\<lparr>vm_guest_cid := Some c\<rparr>) (free_cid (used_cids m) first_cid)
                    else Some vm)
      in map_option (\<lambda>r. (hm_insert (vm_id r) r m, r, Ingest (quota_sample r))) chosen)"

definition store_update :: "VmRecord \<Rightarrow> VmMap \<Rightarrow> VmMap \<times> unit \<times> LedgerDelta" where
  "store_update vm m =
     (case hm_get (vm_id vm) m of
        None \<Rightarrow> (m, (), Preserve)
      | Some old \<Rightarrow>
          (let from = quota_sample old; to = quota_sample vm
           in (hm_insert (vm_id vm) vm m, (), if from = to then Preserve else Replace from to)))"

definition store_remove :: "nat \<Rightarrow> VmMap \<Rightarrow> VmMap \<times> VmRecord option \<times> LedgerDelta" where
  "store_remove i m =
     (hm_remove i m, hm_get i m,
      case hm_get i m of None \<Rightarrow> Preserve | Some vm \<Rightarrow> Release (quota_sample vm))"

definition store_get :: "nat \<Rightarrow> Disk \<Rightarrow> VmRecord option" where
  "store_get i d = (case with_shared (hm_get i) d of Inl _ \<Rightarrow> None | Inr r \<Rightarrow> r)"

definition store_list :: "Disk \<Rightarrow> VmRecord list" where
  "store_list d = (case with_shared (\<lambda>m. sort_key vm_created_at (map snd m)) d of Inl _ \<Rightarrow> [] | Inr r \<Rightarrow> r)"

definition quota_ledger :: "Disk \<Rightarrow> StoreError + QuotaLedger" where
  "quota_ledger d = with_shared (load_quota_ledger d) d"

definition mutate_quota :: "(QuotaLedger \<Rightarrow> QuotaError + QuotaLedger) \<Rightarrow> int option \<Rightarrow> Disk \<Rightarrow> (StoreError + unit) \<times> Disk" where
  "mutate_quota f t d =
     (case read_map d of
        Inl e \<Rightarrow> (Inl e, d)
      | Inr m \<Rightarrow>
          (case f (load_quota_ledger d m) of
             Inl e \<Rightarrow> (Inl (QuotaRefused e), d)
           | Inr l \<Rightarrow> (case t of None \<Rightarrow> (Inl IoFailed, d) | Some t \<Rightarrow> (Inr (), write_quota_ledger t l d))))"

definition reserve_untracked_host :: "u8 \<Rightarrow> u64 \<Rightarrow> Policy \<Rightarrow> QuotaLedger \<Rightarrow> QuotaError + QuotaLedger" where
  "reserve_untracked_host vcpus memory_mib policy l =
     (case enforce_host_totals vcpus memory_mib policy (ledger_for_host_admission l) of
        Inl e \<Rightarrow> Inl e
      | Inr _ \<Rightarrow>
          Inr (l\<lparr>ql_untracked_host := (ql_untracked_host l)
                  \<lparr>ut_vcpus := saturating_add (ut_vcpus (ql_untracked_host l)) (ucast vcpus),
                   ut_memory_mib := saturating_add (ut_memory_mib (ql_untracked_host l)) memory_mib\<rparr>\<rparr>))"

definition release_untracked_host :: "u8 \<Rightarrow> u64 \<Rightarrow> QuotaLedger \<Rightarrow> QuotaError + QuotaLedger" where
  "release_untracked_host vcpus memory_mib l =
     Inr (l\<lparr>ql_untracked_host := (ql_untracked_host l)
             \<lparr>ut_vcpus := saturating_sub (ut_vcpus (ql_untracked_host l)) (ucast vcpus),
              ut_memory_mib := saturating_sub (ut_memory_mib (ql_untracked_host l)) memory_mib\<rparr>\<rparr>)"

definition set_untracked_host :: "u64 \<Rightarrow> u64 \<Rightarrow> QuotaLedger \<Rightarrow> QuotaError + QuotaLedger" where
  "set_untracked_host vcpus memory_mib l =
     Inr (l\<lparr>ql_untracked_host := \<lparr>ut_vms = 0, ut_vcpus = vcpus, ut_memory_mib = memory_mib\<rparr>\<rparr>)"

section \<open>Warm pools\<close>

record PoolRecord =
  pl_name :: string
  pl_size :: nat
  pl_template :: string
  pl_members :: "nat list"
  pl_claimed_total :: u64

type_synonym PoolMap = "(string \<times> PoolRecord) list"

definition pool_insert :: "PoolRecord \<Rightarrow> PoolMap \<Rightarrow> PoolMap" where
  "pool_insert p m = hm_insert (pl_name p) p m"

definition pop_member :: "string \<Rightarrow> PoolMap \<Rightarrow> nat option \<times> PoolMap" where
  "pop_member name m =
     (case hm_get name m of
        None \<Rightarrow> (None, m)
      | Some p \<Rightarrow>
          if pl_members p = [] then (None, m)
          else (Some (last (pl_members p)), hm_insert name (p\<lparr>pl_members := butlast (pl_members p)\<rparr>) m))"

definition push_member :: "string \<Rightarrow> nat \<Rightarrow> PoolMap \<Rightarrow> bool \<times> PoolMap" where
  "push_member name member m =
     (case hm_get name m of
        None \<Rightarrow> (False, m)
      | Some p \<Rightarrow> (True, hm_insert name (p\<lparr>pl_members := pl_members p @ [member]\<rparr>) m))"

definition increment_claimed :: "string \<Rightarrow> PoolMap \<Rightarrow> PoolMap" where
  "increment_claimed name m =
     (case hm_get name m of
        None \<Rightarrow> m
      | Some p \<Rightarrow> hm_insert name (p\<lparr>pl_claimed_total := pl_claimed_total p + 1\<rparr>) m)"

definition set_size :: "string \<Rightarrow> nat \<Rightarrow> PoolMap \<Rightarrow> PoolRecord option \<times> PoolMap" where
  "set_size name sz m =
     (case hm_get name m of
        None \<Rightarrow> (None, m)
      | Some p \<Rightarrow> (let p' = p\<lparr>pl_size := sz\<rparr> in (Some p', hm_insert name p' m)))"

definition pool_remove :: "string \<Rightarrow> PoolMap \<Rightarrow> PoolRecord option \<times> PoolMap" where
  "pool_remove name m = (hm_get name m, hm_remove name m)"

text \<open>The pool file.\<close>

definition pool_read :: "PoolMap state_file \<Rightarrow> StoreError + PoolMap" where
  "pool_read f = (case f of Absent \<Rightarrow> Inr [] | Blank \<Rightarrow> Inr [] | Text m \<Rightarrow> Inr m | Garbled \<Rightarrow> Inl ParsingState)"

definition pool_exclusive ::
  "(PoolMap \<Rightarrow> 'a \<times> PoolMap) \<Rightarrow> Written \<Rightarrow> PoolMap state_file \<Rightarrow> (StoreError + 'a) \<times> PoolMap state_file" where
  "pool_exclusive op w f =
     (case pool_read f of
        Inl e \<Rightarrow> (Inl e, f)
      | Inr m \<Rightarrow>
          (case op m of
             (r, m') \<Rightarrow>
               (case w of
                  Durable \<Rightarrow> (Inr r, Text m')
                | Untouched \<Rightarrow> (Inl IoFailed, f)
                | Unsynced \<Rightarrow> (Inl IoFailed, Text m'))))"

definition pool_shared :: "(PoolMap \<Rightarrow> 'a) \<Rightarrow> PoolMap state_file \<Rightarrow> StoreError + 'a" where
  "pool_shared op f = map_sum id op (pool_read f)"

definition pool_get :: "string \<Rightarrow> PoolMap state_file \<Rightarrow> PoolRecord option" where
  "pool_get name f = (case pool_shared (hm_get name) f of Inl _ \<Rightarrow> None | Inr r \<Rightarrow> r)"

definition pool_list :: "PoolMap state_file \<Rightarrow> PoolRecord list" where
  "pool_list f = (case pool_shared (\<lambda>m. sort_key pl_name (map snd m)) f of Inl _ \<Rightarrow> [] | Inr r \<Rightarrow> r)"

section \<open>Maps and their samples\<close>

definition samples :: "VmMap \<Rightarrow> QuotaSample multiset" where
  "samples m = mset (map (\<lambda>e. quota_sample (snd e)) m)"

lemma samples_insert: "samples (hm_insert k v m) = add_mset (quota_sample v) (samples (hm_remove k m))"
  by (simp add: samples_def hm_insert_def)

lemma samples_remove:
  assumes "keyed m" and "hm_get k m = Some v"
  shows "samples m = add_mset (quota_sample v) (samples (hm_remove k m))"
  using assms
proof (induction m)
  case (Cons e m)
  show ?case
  proof (cases "fst e = k")
    case True
    then have "hm_get k m = None" using Cons.prems(1) by (auto simp: keyed_def hm_get_def map_of_eq_None_iff)
    with True Cons.prems(2) show ?thesis
      using hm_remove_none [of k m] by (cases e) (auto simp: samples_def hm_remove_def hm_get_def)
  next
    case False
    then show ?thesis using Cons by (cases e) (auto simp: samples_def hm_remove_def hm_get_def keyed_def)
  qed
qed (simp add: hm_get_def)

lemma size_samples: "size (samples m) = length m"
  by (simp add: samples_def)

section \<open>A ledger built from the map\<close>

lemma trim_idem: "trim (trim s) = trim s"
proof -
  define x where "x = dropWhile is_space s"
  have x: "x = [] \<or> \<not> is_space (hd x)" unfolding x_def using hd_dropWhile [of is_space s] by blast
  define y where "y = rev (dropWhile is_space (rev x))"
  have y: "trim s = y" by (simp add: trim_def trim_start_def trim_end_def x_def y_def)
  obtain z where z: "x = y @ z" using takeWhile_dropWhile_id [of is_space "rev x"]
    unfolding y_def by (metis rev_append rev_rev_ident)
  have "dropWhile is_space y = y"
    using x z by (cases y) auto
  moreover have "dropWhile is_space (rev y) = rev y" by (simp add: y_def dropWhile_idem)
  ultimately show ?thesis by (simp add: y) (simp add: trim_def trim_start_def trim_end_def)
qed

lemma clean_name_idem: "clean_name (clean_name x) = clean_name x"
  by (simp add: clean_name_def trim_idem split: option.splits)

lemma ingest_quota_sample:
  "ingest (vm_tenant v) (vm_created_by_token v) (vm_vcpus v) (vm_memory_mib v) = ingest_sample (quota_sample v)"
  by (rule ext) (simp add: ingest_sample_def ingest_def quota_sample_def slot_add_def clean_name_idem)

lemma fits_mono: "fits (M + N) \<Longrightarrow> fits N"
  by (auto simp: fits_def vcpus_of_def memory_of_def)

lemma represents_fold:
  "represents l M \<Longrightarrow> fits (M + samples m) \<Longrightarrow>
     represents (fold (\<lambda>e. ingest_sample (quota_sample (snd e))) m l) (M + samples m)"
proof (induction m arbitrary: l M)
  case (Cons e m)
  have "fits (add_mset (quota_sample (snd e)) M)"
    using Cons.prems(2) fits_mono [of "samples m" "add_mset (quota_sample (snd e)) M"]
    by (simp add: samples_def add.commute)
  then have "represents (ingest_sample (quota_sample (snd e)) l) (add_mset (quota_sample (snd e)) M)"
    using Cons.prems(1) by (intro represents_ingest)
  then show ?case using Cons.IH Cons.prems(2) by (fastforce simp: samples_def)
qed (simp add: samples_def)

lemma represents_untracked: "represents (l\<lparr>ql_untracked_host := u\<rparr>) M \<longleftrightarrow> represents l M"
  by (simp add: represents_def)

lemma rebuilt_exact: "fits (samples m) \<Longrightarrow> represents (rebuilt_ledger d m) (samples m)"
  using represents_fold [OF represents_empty, of m]
  by (simp add: rebuilt_ledger_def represents_untracked quota_ledger_from_def ingest_quota_sample)

section \<open>Disks whose ledger can be trusted\<close>

definition cold :: "Disk \<Rightarrow> bool" where
  "cold d \<longleftrightarrow> dk_quota_modified d < dk_vms_modified d"

text \<open>If the file's VM count is that of the map, its totals are those of the map.\<close>

definition good :: "Disk \<Rightarrow> VmMap \<Rightarrow> bool" where
  "good d m \<longleftrightarrow>
     (\<forall>l. dk_quota d = Text l \<and> ut_vms (ql_host l) = of_nat (length m) \<longrightarrow> represents l (samples m))"

definition roomy :: "VmMap \<Rightarrow> bool" where
  "roomy m \<longleftrightarrow> fits (samples m) \<and> length m + 1 < 2 ^ 64"

definition trusted :: "Disk \<Rightarrow> VmMap \<Rightarrow> bool" where
  "trusted d m \<longleftrightarrow> read_map d = Inr m \<and> keyed m \<and> roomy m \<and> (good d m \<or> cold d)"

lemma read_warm_Some:
  assumes "read_warm_ledger d n = Some l"
  shows "dk_quota d = Text l \<and> ut_vms (ql_host l) = n \<and> \<not> cold d"
  using assms by (auto simp: read_warm_ledger_def ledger_is_warm_def cold_def split: if_split_asm state_file.split_asm)

lemma load_exact:
  assumes "trusted d m"
  shows "represents (load_quota_ledger d m) (samples m)"
proof (cases "read_warm_ledger d (of_nat (length m))")
  case None
  then show ?thesis using assms by (simp add: load_quota_ledger_def trusted_def roomy_def rebuilt_exact)
next
  case (Some l)
  then show ?thesis using assms read_warm_Some [OF Some] by (auto simp: load_quota_ledger_def trusted_def good_def)
qed

lemma good_written: "represents l (samples m) \<Longrightarrow> good (write_quota_ledger t l d) m"
  by (simp add: good_def write_quota_ledger_def)

text \<open>The delta an operation reports is the change of its samples, or the count gives it away.\<close>

fun delta_fits :: "LedgerDelta \<Rightarrow> VmMap \<Rightarrow> VmMap \<Rightarrow> bool" where
  "delta_fits Preserve m m' \<longleftrightarrow> samples m' = samples m"
| "delta_fits (Ingest s) m m' \<longleftrightarrow> samples m' = add_mset s (samples m) \<or> length m' = length m"
| "delta_fits (Release s) m m' \<longleftrightarrow> samples m = add_mset s (samples m')"
| "delta_fits (Replace from to) m m' \<longleftrightarrow> (\<exists>N. samples m = add_mset from N \<and> samples m' = add_mset to N)"
| "delta_fits Rebuild m m' \<longleftrightarrow> True"

lemma apply_sample_cases: "apply_sample s False = ingest_sample s" "apply_sample s True = release_sample s"
  by (rule ext, simp add: apply_sample_def ingest_sample_def release_sample_def)+

lemma usage_add_count: "ut_vms (ql_host (ingest_sample s l)) = saturating_add (ut_vms (ql_host l)) 1"
  by (simp add: ingest_sample_def ingest_def usage_add_def)

lemma apply_delta_good:
  assumes "represents l (samples m)" and "delta_fits delta m m'" and "roomy m'" and "roomy m" and "delta \<noteq> Rebuild"
    and count: "ut_vms (ql_host (apply_delta delta l)) = of_nat (length m')"
  shows "represents (apply_delta delta l) (samples m')"
proof (cases delta)
  case (Ingest s)
  have n: "unat (ut_vms (ql_host l)) = length m"
    using assms(1) by (simp add: represents_def usage_is_def size_samples)
  then have c: "unat (ut_vms (ql_host (ingest_sample s l))) = length m + 1"
    using assms(4) by (simp add: usage_add_count unat_saturating_add roomy_def)
  have "length m' \<noteq> length m" using count c assms(3) by (auto simp: Ingest apply_sample_cases roomy_def unat_of_nat)
  then show ?thesis using assms(1-3) Ingest by (simp add: apply_sample_cases represents_ingest roomy_def)
next
  case (Replace old new)
  then obtain N where N: "samples m = add_mset old N" "samples m' = add_mset new N" using assms(2) by auto
  have "represents (release_sample old l) N" using assms(1) N by (intro represents_release) simp
  then show ?thesis using assms(3) N Replace by (simp add: apply_sample_cases represents_ingest roomy_def)
qed (use assms in \<open>auto simp: apply_sample_cases intro: represents_release\<close>)

section \<open>Runs of the store\<close>

datatype StoreOp = OInsert VmRecord | OInsertCid VmRecord bool u32 | OUpdate VmRecord | ORemove nat | ORebuild

fun op_effect :: "StoreOp \<Rightarrow> VmMap \<Rightarrow> (VmMap \<times> LedgerDelta) option" where
  "op_effect (OInsert vm) m = (case store_insert vm m of (m', _, delta) \<Rightarrow> Some (m', delta))"
| "op_effect (OInsertCid vm needs_cid first_cid) m =
     map_option (\<lambda>(m', _, delta). (m', delta)) (insert_with_cid vm needs_cid first_cid m)"
| "op_effect (OUpdate vm) m = (case store_update vm m of (m', _, delta) \<Rightarrow> Some (m', delta))"
| "op_effect (ORemove i) m = (case store_remove i m of (m', _, delta) \<Rightarrow> Some (m', delta))"
| "op_effect ORebuild m = Some (m, Rebuild)"

definition store_step :: "VmMap \<times> LedgerDelta \<Rightarrow> Fate \<Rightarrow> Disk \<Rightarrow> Disk" where
  "store_step eff fate d = snd (with_exclusive (\<lambda>_. (fst eff, (), snd eff)) fate d)"

text \<open>
  Clocks do not run backwards, a write that is not followed by its ledger write happens after the
  last ledger write, and a write that only copies the ledger forward does not follow such a failure.
\<close>

fun fate_ok :: "LedgerDelta \<Rightarrow> Fate \<Rightarrow> Disk \<Rightarrow> bool" where
  "fate_ok delta (Completes t t') d \<longleftrightarrow> dk_vms_modified d \<le> t \<and> (delta = Preserve \<longrightarrow> \<not> cold d)"
| "fate_ok delta StopsBeforeVms d \<longleftrightarrow> True"
| "fate_ok delta (StopsBetween t) d \<longleftrightarrow> dk_quota_modified d < t"

definition tracks :: "(QuotaLedger \<Rightarrow> QuotaError + QuotaLedger) \<Rightarrow> bool" where
  "tracks f \<longleftrightarrow>
     (\<exists>vcpus mem policy. f = reserve_untracked_host vcpus mem policy) \<or>
     (\<exists>vcpus mem. f = release_untracked_host vcpus mem) \<or> (\<exists>vcpus mem. f = set_untracked_host vcpus mem)"

inductive store_reach :: "Disk \<Rightarrow> bool" where
  reach_new: "store_reach disk_new"
| reach_op:
    "store_reach d \<Longrightarrow> read_map d = Inr m \<Longrightarrow> op_effect op m = Some (m', delta) \<Longrightarrow> roomy m' \<Longrightarrow> fate_ok delta fate d \<Longrightarrow>
       store_reach (store_step (m', delta) fate d)"
| reach_quota: "store_reach d \<Longrightarrow> tracks f \<Longrightarrow> store_reach (snd (mutate_quota f t d))"

lemma op_effect_keyed: "op_effect op m = Some (m', delta) \<Longrightarrow> keyed m \<Longrightarrow> keyed m'"
  by (cases op) (auto simp: store_insert_def insert_with_cid_def store_update_def store_remove_def Let_def
      intro: keyed_insert keyed_remove split: if_split_asm option.split_asm)

lemma length_insert_present: "keyed (m :: VmMap) \<Longrightarrow> hm_get k m = Some v \<Longrightarrow> length (hm_insert k v' m) = length m"
  using samples_remove [of m k v] size_samples [of m] size_samples [of "hm_remove k m"] by (simp add: hm_insert_def)

lemma insert_delta:
  assumes "keyed m"
  shows "delta_fits (Ingest (quota_sample v)) m (hm_insert k v m)"
proof (cases "hm_get k m")
  case None
  then show ?thesis by (simp add: samples_insert hm_remove_none)
next
  case (Some v')
  then show ?thesis using length_insert_present [OF assms] by simp
qed

lemma op_effect_delta: "op_effect op m = Some (m', delta) \<Longrightarrow> keyed m \<Longrightarrow> delta_fits delta m m'"
proof (cases op)
  case (OUpdate vm)
  assume e: "op_effect op m = Some (m', delta)" and k: "keyed m"
  show ?thesis
  proof (cases "hm_get (vm_id vm) m")
    case None
    then show ?thesis using e OUpdate by (simp add: store_update_def)
  next
    case (Some old)
    note s = samples_remove [OF k Some] samples_insert [of "vm_id vm" vm m]
    show ?thesis using e OUpdate Some s by (auto simp: store_update_def Let_def)
  qed
next
  case (ORemove i)
  assume e: "op_effect op m = Some (m', delta)" and k: "keyed m"
  show ?thesis using e ORemove samples_remove [OF k, of i]
    by (cases "hm_get i m") (auto simp: store_remove_def hm_remove_none)
qed (auto simp: store_insert_def insert_with_cid_def Let_def insert_delta simp del: delta_fits.simps(2) split: if_split_asm)

lemma trusted_completes:
  assumes "trusted d m" and "delta_fits delta m m'" and "keyed m'" and "roomy m'" and "fate_ok delta (Completes t t') d"
  shows "trusted (store_step (m', delta) (Completes t t') d) m'"
proof -
  let ?d = "d\<lparr>dk_vms := Text m', dk_vms_modified := t\<rparr>"
  have st: "store_step (m', delta) (Completes t t') d = apply_ledger_delta m' (of_nat (length m)) delta t' ?d"
    using assms(1) by (simp add: store_step_def with_exclusive_def trusted_def)
  have rb: "good (write_quota_ledger t' (rebuilt_ledger ?d m') ?d) m'"
    using assms(4) by (intro good_written rebuilt_exact) (simp add: roomy_def)
  have "good (apply_ledger_delta m' (of_nat (length m)) delta t' ?d) m'"
  proof (cases "delta = Preserve")
    case True
    then have s: "samples m' = samples m" "good d m" using assms(1,2,5) by (auto simp: trusted_def)
    then have "length m' = length m" by (metis size_samples)
    then show ?thesis using s True by (simp add: apply_ledger_delta_def good_def)
  next
    case False
    show ?thesis
    proof (cases "delta = Rebuild \<or> read_warm_ledger ?d (of_nat (length m)) = None")
      case True
      then show ?thesis using False rb by (auto simp: apply_ledger_delta_def)
    next
      case warm: False
      then obtain l where l: "read_warm_ledger ?d (of_nat (length m)) = Some l" by blast
      from read_warm_Some [OF l] have q: "dk_quota d = Text l" "ut_vms (ql_host l) = of_nat (length m)" "t \<le> dk_quota_modified d"
        by (simp_all add: cold_def)
      then have "good d m" using assms(1,5) by (auto simp: trusted_def cold_def)
      then have r: "represents l (samples m)" using q by (simp add: good_def)
      have "roomy m" using assms(1) by (simp add: trusted_def)
      then show ?thesis
        using apply_delta_good [OF r assms(2,4)] warm False l
        by (auto simp: apply_ledger_delta_def good_def write_quota_ledger_def)
    qed
  qed
  moreover have "read_map (apply_ledger_delta m' (of_nat (length m)) delta t' ?d) = Inr m'"
    by (auto simp: apply_ledger_delta_def write_quota_ledger_def read_map_def split: option.split)
  ultimately show ?thesis using assms(3,4) st by (simp add: trusted_def)
qed

lemma trusted_step:
  assumes "trusted d m" and "delta_fits delta m m'" and "keyed m'" and "roomy m'" and "fate_ok delta fate d"
  shows "\<exists>m''. trusted (store_step (m', delta) fate d) m''"
proof (cases fate)
  case (Completes t t')
  then show ?thesis using trusted_completes [OF assms(1-4)] assms(5) by blast
next
  case StopsBeforeVms
  then have "store_step (m', delta) fate d = d" using assms(1) by (simp add: store_step_def with_exclusive_def trusted_def)
  then show ?thesis using assms(1) by auto
next
  case (StopsBetween t)
  then have "trusted (store_step (m', delta) fate d) m'"
    using assms by (simp add: store_step_def with_exclusive_def trusted_def read_map_def cold_def)
  then show ?thesis by blast
qed

lemma tracks_represents: "tracks f \<Longrightarrow> f l = Inr l' \<Longrightarrow> represents l M \<Longrightarrow> represents l' M"
  by (auto simp: tracks_def reserve_untracked_host_def release_untracked_host_def set_untracked_host_def represents_untracked
      split: sum.split_asm)

lemma trusted_mutate:
  assumes "trusted d m" and "tracks f"
  shows "trusted (snd (mutate_quota f t d)) m"
proof (cases "f (load_quota_ledger d m)")
  case (Inl e)
  then show ?thesis using assms by (simp add: mutate_quota_def trusted_def)
next
  case (Inr l)
  then have r: "represents l (samples m)" using tracks_represents [OF assms(2)] load_exact [OF assms(1)] by blast
  show ?thesis
  proof (cases t)
    case None
    then show ?thesis using assms Inr by (simp add: mutate_quota_def trusted_def)
  next
    case (Some t')
    have "read_map (write_quota_ledger t' l d) = Inr m" using assms by (simp add: trusted_def write_quota_ledger_def read_map_def)
    moreover have "snd (mutate_quota f t d) = write_quota_ledger t' l d"
      using assms(1) Inr Some by (simp add: mutate_quota_def trusted_def)
    ultimately show ?thesis using assms(1) good_written [OF r, of t' d] by (simp add: trusted_def)
  qed
qed

lemma trusted_new: "trusted disk_new []"
  by (simp add: trusted_def disk_new_def read_map_def keyed_def roomy_def fits_def samples_def good_def)

lemma reach_trusted: "store_reach d \<Longrightarrow> \<exists>m. trusted d m"
proof (induction rule: store_reach.induct)
  case reach_new
  then show ?case using trusted_new by blast
next
  case (reach_op d m op m' delta fate)
  then have t: "trusted d m" by (auto simp: trusted_def)
  then have "keyed m" by (simp add: trusted_def)
  then show ?case using trusted_step [OF t op_effect_delta op_effect_keyed] reach_op by blast
next
  case (reach_quota d f t)
  then show ?case using trusted_mutate by blast
qed

section \<open>Properties\<close>

text \<open>
  C7. Admission sees the truth. After any sequence of inserts, updates, removals, rebuilds and host
  reservations, in which operations may fail or the process may die before or between its two file
  writes, the ledger the store hands out has exactly the totals of the VM records on disk. The
  clock must not run backwards, a write cut off before its ledger write must be later than the last
  ledger write, and no update that leaves the totals alone may come between such a cut-off and the
  next change.
\<close>

theorem store_quota_exact:
  assumes "store_reach d"
  shows "\<exists>m l. read_map d = Inr m \<and> quota_ledger d = Inr l \<and> represents l (samples m)"
proof -
  obtain m where t: "trusted d m" using reach_trusted [OF assms] by blast
  then have "read_map d = Inr m" by (simp add: trusted_def)
  then show ?thesis using load_exact [OF t] by (simp add: quota_ledger_def with_shared_def)
qed

section \<open>The free CID\<close>

lemma free_cid_skips:
  "(\<forall>j < k. c + of_nat j \<in> used) \<Longrightarrow> c + of_nat k \<notin> used \<Longrightarrow> free_cid used c = Some (c + of_nat k)"
proof (induction k arbitrary: c)
  case 0
  then show ?case by (subst free_cid.simps) simp
next
  case (Suc k)
  have "c \<in> used" using Suc.prems(1) by (auto dest: spec [of _ 0])
  moreover have "free_cid used (c + 1) = Some (c + 1 + of_nat k)"
  proof (rule Suc.IH)
    show "\<forall>j < k. c + 1 + of_nat j \<in> used" using Suc.prems(1) by (auto simp: ac_simps dest: spec [of _ "Suc _"])
    show "c + 1 + of_nat k \<notin> used" using Suc.prems(2) by (simp add: ac_simps)
  qed
  ultimately show ?case by (subst free_cid.simps) (simp add: ac_simps)
qed

lemma free_cid_exists:
  assumes "finite used" and "card used < 2 ^ 32"
  shows "\<exists>k < 2 ^ 32. (c :: u32) + of_nat k \<notin> used"
proof (rule ccontr)
  assume "\<not> ?thesis"
  then have "(\<lambda>k. c + of_nat k) ` {..< 2 ^ 32} \<subseteq> used" by auto
  then have "card ((\<lambda>k. c + of_nat k) ` {..< 2 ^ 32}) \<le> card used" using assms(1) card_mono by blast
  moreover have "inj_on (\<lambda>k. c + of_nat k) {..< 2 ^ 32}"
    by (auto simp: inj_on_def word_of_nat_eq_iff take_bit_eq_mod)
  ultimately show False using assms(2) by (simp add: card_image)
qed

lemma free_cid_found:
  assumes "finite used" and "card used < 2 ^ 32"
  shows "\<exists>k < 2 ^ 32. free_cid used c = Some (c + of_nat k) \<and> c + of_nat k \<notin> used \<and> (\<forall>j < k. c + of_nat j \<in> used)"
proof -
  define k where "k = (LEAST k. c + of_nat k \<notin> used)"
  obtain k0 where k0: "k0 < 2 ^ 32" "c + of_nat k0 \<notin> used" using free_cid_exists [OF assms] by blast
  have k: "c + of_nat k \<notin> used" unfolding k_def by (rule LeastI) (rule k0(2))
  have j: "\<forall>j < k. c + of_nat j \<in> used" unfolding k_def using not_less_Least by blast
  have "k \<le> k0" unfolding k_def by (rule Least_le) (rule k0(2))
  then show ?thesis using k0(1) k j free_cid_skips [OF j k] by (intro exI [of _ k]) simp
qed

definition cids_distinct :: "VmMap \<Rightarrow> bool" where
  "cids_distinct m \<longleftrightarrow> keyed m \<and>
     (\<forall>i j v w c. hm_get i m = Some v \<and> hm_get j m = Some w \<and> vm_guest_cid v = Some c \<and> vm_guest_cid w = Some c \<longrightarrow> i = j)"

lemma used_cids_get:
  assumes "hm_get i m = Some v" and "vm_guest_cid v = Some c"
  shows "c \<in> used_cids m"
proof -
  have "(i, v) \<in> set m" using assms(1) by (simp add: hm_get_def map_of_SomeD)
  then show ?thesis using assms(2) by (force simp: used_cids_def map_filter_def)
qed

lemma card_used_cids: "card (used_cids m) \<le> length m"
proof -
  have "length (List.map_filter (\<lambda>e. vm_guest_cid (snd e)) m) \<le> length m"
    by (simp add: map_filter_def)
  then show ?thesis using card_length order_trans unfolding used_cids_def by blast
qed

text \<open>
  Every VM that asks for one gets a vsock CID of its own. With fewer than \<open>2 ^ 32\<close> records the search ends,
  it gives the first CID from \<open>first_cid\<close> on (with wrap-around) that no stored VM uses, the record is
  stored under its id with that CID, and if the CIDs of the stored VMs were distinct before, they
  still are.
\<close>

theorem store_cid_fresh:
  assumes "length m < 2 ^ 32"
  shows "\<exists>c k m' delta. insert_with_cid vm True first_cid m = Some (m', vm\<lparr>vm_guest_cid := Some c\<rparr>, delta) \<and>
     c = first_cid + of_nat k \<and> c \<notin> used_cids m \<and> (\<forall>j < k. first_cid + of_nat j \<in> used_cids m) \<and>
     hm_get (vm_id vm) m' = Some (vm\<lparr>vm_guest_cid := Some c\<rparr>) \<and> (cids_distinct m \<longrightarrow> cids_distinct m')"
proof -
  have "card (used_cids m) < 2 ^ 32" using card_used_cids [of m] assms by linarith
  then obtain k where k: "free_cid (used_cids m) first_cid = Some (first_cid + of_nat k)"
      "first_cid + of_nat k \<notin> used_cids m" "\<forall>j < k. first_cid + of_nat j \<in> used_cids m"
    using free_cid_found [of "used_cids m" first_cid] by (auto simp: used_cids_def)
  let ?c = "first_cid + of_nat k" let ?r = "vm\<lparr>vm_guest_cid := Some ?c\<rparr>"
  have "cids_distinct (hm_insert (vm_id vm) ?r m)" if "cids_distinct m"
    using that k(2) used_cids_get [of _ m _ ?c]
    by (auto simp: cids_distinct_def keyed_insert hm_get_insert split: if_split_asm)
  then show ?thesis using k by (intro exI [of _ ?c] exI [of _ k]) (simp add: insert_with_cid_def hm_get_insert)
qed

section \<open>Pools\<close>

text \<open>
  A run of the pool store, with the members that were put into a pool, those handed to a caller, and
  those taken out of the file while the caller was told of an error.
\<close>

datatype PoolEvent = PPush string nat Written | PPop string Written | PClaim string Written | PSize string nat Written

record PoolRun =
  pr_pushed :: "nat multiset"
  pr_handed :: "nat multiset"
  pr_dropped :: "nat multiset"
  pr_file :: "PoolMap state_file"

definition pool_run_new :: "PoolMap \<Rightarrow> PoolRun" where
  "pool_run_new m = \<lparr>pr_pushed = {#}, pr_handed = {#}, pr_dropped = {#}, pr_file = Text m\<rparr>"

definition file_after :: "(PoolMap \<Rightarrow> 'a \<times> PoolMap) \<Rightarrow> Written \<Rightarrow> PoolRun \<Rightarrow> PoolMap state_file" where
  "file_after op w r = snd (pool_exclusive op w (pr_file r))"

definition effect_of :: "(PoolMap \<Rightarrow> 'a \<times> PoolMap) \<Rightarrow> Written \<Rightarrow> PoolRun \<Rightarrow> 'a option" where
  "effect_of op w r = (case pool_read (pr_file r) of Inl _ \<Rightarrow> None | Inr m \<Rightarrow> if w = Untouched then None else Some (fst (op m)))"

fun pool_step :: "PoolEvent \<Rightarrow> PoolRun \<Rightarrow> PoolRun" where
  "pool_step (PPush n x w) r =
     r\<lparr>pr_file := file_after (push_member n x) w r,
       pr_pushed := (if effect_of (push_member n x) w r = Some True then add_mset x (pr_pushed r) else pr_pushed r)\<rparr>"
| "pool_step (PPop n w) r =
     (let r' = r\<lparr>pr_file := file_after (pop_member n) w r\<rparr> in
      case effect_of (pop_member n) w r of
        Some (Some x) \<Rightarrow>
          if fst (pool_exclusive (pop_member n) w (pr_file r)) = Inr (Some x) then r'\<lparr>pr_handed := add_mset x (pr_handed r)\<rparr>
          else r'\<lparr>pr_dropped := add_mset x (pr_dropped r)\<rparr>
      | _ \<Rightarrow> r')"
| "pool_step (PClaim n w) r = r\<lparr>pr_file := file_after (\<lambda>m. ((), increment_claimed n m)) w r\<rparr>"
| "pool_step (PSize n sz w) r = r\<lparr>pr_file := file_after (set_size n sz) w r\<rparr>"

fun write_of :: "PoolEvent \<Rightarrow> Written" where
  "write_of (PPush _ _ w) = w"
| "write_of (PPop _ w) = w"
| "write_of (PClaim _ w) = w"
| "write_of (PSize _ _ w) = w"

definition ready :: "PoolMap \<Rightarrow> nat multiset" where
  "ready m = (\<Sum>e \<in># mset m. mset (pl_members (snd e)))"

lemma ready_remove:
  assumes "keyed m" and "hm_get k m = Some p"
  shows "ready m = mset (pl_members p) + ready (hm_remove k m)"
  using assms
proof (induction m)
  case (Cons e m)
  show ?case
  proof (cases "fst e = k")
    case True
    then have "hm_get k m = None" using Cons.prems(1) by (auto simp: keyed_def hm_get_def map_of_eq_None_iff)
    with True Cons.prems(2) show ?thesis
      using hm_remove_none [of k m] by (cases e) (auto simp: ready_def hm_remove_def hm_get_def)
  next
    case False
    then show ?thesis using Cons by (cases e) (auto simp: ready_def hm_remove_def hm_get_def keyed_def)
  qed
qed (simp add: hm_get_def)

lemma ready_insert: "ready (hm_insert k p m) = mset (pl_members p) + ready (hm_remove k m)"
  by (simp add: ready_def hm_insert_def)

definition balanced :: "nat multiset \<Rightarrow> PoolRun \<Rightarrow> bool" where
  "balanced M r \<longleftrightarrow> (\<exists>m. pool_read (pr_file r) = Inr m \<and> keyed m \<and> pr_handed r + pr_dropped r + ready m = M + pr_pushed r)"

lemma ready_pop: "keyed m \<Longrightarrow> ready m = (case fst (pop_member n m) of None \<Rightarrow> {#} | Some x \<Rightarrow> {#x#}) + ready (snd (pop_member n m))"
  by (cases "hm_get n m"; cases "pl_members (the (hm_get n m))" rule: rev_cases)
    (auto simp: pop_member_def ready_insert ready_remove)

lemma ready_push: "keyed m \<Longrightarrow> ready (snd (push_member n x m)) = ready m + (if fst (push_member n x m) then {#x#} else {#})"
  by (cases "hm_get n m") (auto simp: push_member_def ready_insert ready_remove)

lemma ready_claim: "keyed m \<Longrightarrow> ready (increment_claimed n m) = ready m"
  by (cases "hm_get n m") (auto simp: increment_claimed_def ready_insert ready_remove)

lemma ready_size: "keyed m \<Longrightarrow> ready (snd (set_size n sz m)) = ready m"
  by (cases "hm_get n m") (auto simp: set_size_def ready_insert ready_remove Let_def)

lemma keyed_pool_ops:
  "keyed m \<Longrightarrow> keyed (snd (pop_member n m))" "keyed m \<Longrightarrow> keyed (snd (push_member n x m))"
  "keyed m \<Longrightarrow> keyed (increment_claimed n m)" "keyed m \<Longrightarrow> keyed (snd (set_size n sz m))"
  by (auto simp: pop_member_def push_member_def increment_claimed_def set_size_def keyed_insert Let_def split: option.split)

lemma pool_read_Text [simp]: "pool_read (Text m) = Inr m"
  by (simp add: pool_read_def)

lemma file_after_read:
  "pool_read (pr_file r) = Inr m \<Longrightarrow> pool_read (file_after op w r) = Inr (if w = Untouched then m else snd (op m))"
  by (auto simp: file_after_def pool_exclusive_def split: prod.split Written.split)

lemma effect_of_read: "pool_read (pr_file r) = Inr m \<Longrightarrow> effect_of op w r = (if w = Untouched then None else Some (fst (op m)))"
  by (simp add: effect_of_def)

lemma pool_step_balance:
  assumes "balanced M r"
  shows "balanced M (pool_step e r)"
proof -
  obtain m where m: "pool_read (pr_file r) = Inr m" "keyed m" "pr_handed r + pr_dropped r + ready m = M + pr_pushed r"
    using assms by (auto simp: balanced_def)
  note here = file_after_read [OF m(1)] effect_of_read [OF m(1)] keyed_pool_ops [OF m(2)]
  show ?thesis
  proof (cases e)
    case (PPop n w)
    then show ?thesis using m ready_pop [OF m(2), of n]
      by (cases "fst (pop_member n m)") (auto simp: balanced_def Let_def here)
  next
    case (PPush n x w)
    then show ?thesis using m ready_push [OF m(2), of n x] by (auto simp: balanced_def here)
  next
    case (PClaim n w)
    then show ?thesis using m ready_claim [OF m(2), of n] by (auto simp: balanced_def here)
  next
    case (PSize n sz w)
    then show ?thesis using m ready_size [OF m(2), of n sz] by (auto simp: balanced_def here)
  qed
qed

interpretation pls: step_system pool_step "balanced M" for M
  by unfold_locales (rule pool_step_balance)

lemma pool_step_dropped: "write_of e \<noteq> Unsynced \<Longrightarrow> pr_dropped (pool_step e r) = pr_dropped r"
  by (cases e) (auto simp: Let_def effect_of_def pool_exclusive_def split: option.split sum.split_asm prod.split prod.split_asm Written.split Written.split_asm if_split_asm)

lemma pool_run_dropped: "\<forall>e \<in> set es. write_of e \<noteq> Unsynced \<Longrightarrow> pr_dropped (fold pool_step es r) = pr_dropped r"
  by (induction es arbitrary: r) (simp_all add: pool_step_dropped)

text \<open>
  C22. No pool member is handed out twice. Over any interleaving of pushes, pops, claims and resizes on
  any pools, whatever writes fail, the members handed out, the members lost in a failed directory
  sync and the members still ready are together exactly those there were and those pushed into
  existing pools; and if no sync fails after its rename, none is lost.
\<close>

theorem pool_members_conserved:
  assumes "keyed m" and "r = fold pool_step es (pool_run_new m)"
  shows "\<exists>m'. pool_read (pr_file r) = Inr m' \<and> pr_handed r + pr_dropped r + ready m' = ready m + pr_pushed r \<and>
     ((\<forall>e \<in> set es. write_of e \<noteq> Unsynced) \<longrightarrow> pr_dropped r = {#})"
proof -
  have "balanced (ready m) (pool_run_new m)" using assms(1) by (simp add: balanced_def pool_run_new_def)
  then have "balanced (ready m) r" unfolding assms(2) by (rule pls.invar_run)
  moreover have "(\<forall>e \<in> set es. write_of e \<noteq> Unsynced) \<longrightarrow> pr_dropped r = {#}"
    using pool_run_dropped [of es "pool_run_new m"] unfolding assms(2) by (simp add: pool_run_new_def)
  ultimately show ?thesis by (auto simp: balanced_def)
qed

section \<open>Gaps\<close>

definition demo_vm :: "nat \<Rightarrow> u8 \<Rightarrow> string \<Rightarrow> VmRecord" where
  "demo_vm i vcpus rst = \<lparr>vm_id = i, vm_created_at = 0, vm_tenant = None, vm_created_by_token = None, vm_vcpus = vcpus,
     vm_memory_mib = 512, vm_guest_cid = None, vm_rest = rst\<rparr>"

abbreviation run_op :: "(VmMap \<Rightarrow> VmMap \<times> 'a \<times> LedgerDelta) \<Rightarrow> Fate \<Rightarrow> Disk \<Rightarrow> Disk" where
  "run_op f fate d \<equiv> snd (with_exclusive f fate d)"

lemmas demo_store_defs = with_exclusive_def read_map_def store_insert_def store_update_def hm_get_def hm_insert_def hm_remove_def
  quota_sample_def demo_vm_def clean_name_def apply_ledger_delta_def write_quota_ledger_def read_warm_ledger_def
  disk_new_def rebuilt_ledger_def read_untracked_host_def quota_ledger_from_def ingest_def slot_add_def ledger_default_def
  usage_default_def usage_add_def saturating_add_def ledger_is_warm_def Let_def


text \<open>
  The delta path is not taken when the clock moves: the VM file has just been written, so the ledger
  file is older and every change rebuilds the ledger from all records.
\<close>

lemma delta_never_applied:
  assumes "dk_quota_modified d < t" and "read_map d = Inr m" and "delta \<noteq> Preserve"
  shows "dk_quota (store_step (m', delta) (Completes t t') d) =
    Text (rebuilt_ledger (d\<lparr>dk_vms := Text m', dk_vms_modified := t\<rparr>) m')"
  using assms by (auto simp: store_step_def with_exclusive_def apply_ledger_delta_def write_quota_ledger_def read_warm_ledger_def)

text \<open>The quota checks of \<^verbatim>\<open>VmManager::create\<close>, which read the ledger under a lock of their own.\<close>

definition create_admit :: "string option \<Rightarrow> u8 \<Rightarrow> u64 \<Rightarrow> Policy \<Rightarrow> Disk \<Rightarrow> StoreError + unit" where
  "create_admit tenant vcpus memory_mib policy d =
     (case quota_ledger d of
        Inl e \<Rightarrow> Inl e
      | Inr l \<Rightarrow>
          (case (case tenant of
                   Some t \<Rightarrow> if po_tenants policy \<noteq> [] then enforce_tenant_totals t vcpus memory_mib policy l else Inr ()
                 | None \<Rightarrow> Inr ()) of
             Inl e \<Rightarrow> Inl (QuotaRefused e)
           | Inr _ \<Rightarrow>
               map_sum QuotaRefused id (enforce_host_totals vcpus memory_mib policy (ledger_for_host_admission l))))"

definition capped_policy :: Policy where
  "capped_policy = \<lparr>po_max_vcpus_host = Some 4, po_max_memory_mib_host = None, po_tenants = [],
     po_min_host_mem_available_mib = None, po_max_host_mem_psi_some_avg10 = None, po_max_host_mem_psi_full_avg10 = None,
     po_deny_host_pressure_level = None\<rparr>"

text \<open>
  Concurrent creates overrun a cap. \<^verbatim>\<open>create\<close> checks the ledger under one lock and inserts its record
  under another: on a host capped at 4 vCPUs, two creates of 3 vCPUs that both check before either
  inserts are both admitted and the store then holds 6, while after the first insert the check
  refuses the second.
\<close>

theorem create_quota_race:
  "\<exists>d1 d2 m. create_admit None 3 512 capped_policy disk_new = Inr () \<and>
     d1 = run_op (store_insert (demo_vm 1 3 [])) (Completes 1 2) disk_new \<and>
     create_admit None 3 512 capped_policy d1 \<noteq> Inr () \<and>
     d2 = run_op (store_insert (demo_vm 2 3 [])) (Completes 3 4) d1 \<and>
     read_map d2 = Inr m \<and> vcpus_of (samples m) = 6 \<and> po_max_vcpus_host capped_policy = Some 4"
  by (simp add: demo_store_defs quota_ledger_def with_shared_def load_quota_ledger_def samples_def create_admit_def
      enforce_host_totals_def ledger_for_host_admission_def over_def capped_policy_def)

section \<open>Witnesses\<close>

theorem store_quota_exact_witness:
  "\<exists>m l d. d = store_step ([(1, demo_vm 1 2 [])], Ingest (quota_sample (demo_vm 1 2 []))) (Completes 1 2) disk_new \<and>
     read_map d = Inr m \<and> quota_ledger d = Inr l \<and> represents l (samples m)"
proof -
  have "store_reach (store_step ([(1, demo_vm 1 2 [])], Ingest (quota_sample (demo_vm 1 2 []))) (Completes 1 2) disk_new)"
  proof (rule reach_op [OF reach_new, where m = "[]" and op = "OInsert (demo_vm 1 2 [])"])
    show "roomy [(1, demo_vm 1 2 [])]" by (simp add: roomy_def fits_def samples_def quota_sample_def demo_vm_def)
  qed (simp_all add: read_map_def disk_new_def store_insert_def hm_insert_def hm_remove_def demo_vm_def)
  then show ?thesis using store_quota_exact by blast
qed

theorem store_cid_fresh_witness:
  "\<exists>m'. insert_with_cid (demo_vm 2 1 []) True 3 [(1, (demo_vm 1 1 [])\<lparr>vm_guest_cid := Some 3\<rparr>)] =
     Some (m', (demo_vm 2 1 [])\<lparr>vm_guest_cid := Some 4\<rparr>, Ingest (quota_sample (demo_vm 2 1 [])))"
proof -
  let ?m = "[(1, (demo_vm 1 1 [])\<lparr>vm_guest_cid := Some 3\<rparr>)]"
  obtain c k m' delta where i: "insert_with_cid (demo_vm 2 1 []) True 3 ?m = Some (m', (demo_vm 2 1 [])\<lparr>vm_guest_cid := Some c\<rparr>, delta)"
    and c: "c = 3 + of_nat k" "c \<notin> used_cids ?m" "\<forall>j < k. 3 + of_nat j \<in> used_cids ?m"
    using store_cid_fresh [of ?m "demo_vm 2 1 []" 3] by auto
  have u: "used_cids ?m = {3}" by (simp add: used_cids_def map_filter_def)
  have "k \<noteq> 0" using c(1,2) u by (cases k) auto
  moreover have "\<not> 1 < k" using c(3) u by (auto dest: spec [of _ 1])
  ultimately have "k = 1" by simp
  then show ?thesis using i c by (auto simp: insert_with_cid_def quota_sample_def)
qed

definition demo_pools :: PoolMap where
  "demo_pools = [(''p'', \<lparr>pl_name = ''p'', pl_size = 2, pl_template = [], pl_members = [7], pl_claimed_total = 0\<rparr>)]"

theorem pool_members_conserved_witness:
  "\<exists>r m'. r = fold pool_step [PPush ''p'' 8 Durable, PPop ''p'' Durable, PPop ''p'' Unsynced, PPop ''p'' Durable] (pool_run_new demo_pools) \<and>
     pool_read (pr_file r) = Inr m' \<and> pr_handed r + pr_dropped r + ready m' = ready demo_pools + pr_pushed r \<and>
     pr_handed r = {#8#} \<and> pr_dropped r = {#7#}"
proof -
  let ?es = "[PPush ''p'' 8 Durable, PPop ''p'' Durable, PPop ''p'' Unsynced, PPop ''p'' Durable]"
  let ?r = "fold pool_step ?es (pool_run_new demo_pools)"
  have "keyed demo_pools" by (simp add: keyed_def demo_pools_def)
  from pool_members_conserved [OF this refl, of ?es] obtain m' where
    "pool_read (pr_file ?r) = Inr m'" "pr_handed ?r + pr_dropped ?r + ready m' = ready demo_pools + pr_pushed ?r" by blast
  moreover have "pr_handed ?r = {#8#} \<and> pr_dropped ?r = {#7#}"
    by (simp add: pool_run_new_def demo_pools_def push_member_def pop_member_def hm_get_def hm_insert_def hm_remove_def
        file_after_def effect_of_def pool_exclusive_def Let_def)
  ultimately show ?thesis by blast
qed

end
