(* ===== verification/Ipam.thy ===== *)
theory Ipam
  imports Rust_Map
begin

text \<open>
  The subnet allocator of the sandbox networks (\<^verbatim>\<open>fluxvm-network/src/ipam.rs\<close>): VM ids hold \<^verbatim>\<open>/28\<close> blocks of
  \<^verbatim>\<open>169.254.0.0/16\<close>, kept in a JSON file under a lock. The key of a VM is the text of its UUID; whether the
  file can be written is an argument.
\<close>

section \<open>Data\<close>

definition POOL_SIZE :: u16 where "POOL_SIZE = 4096"
definition NEAR_EXHAUSTION_FREE_PERCENT :: u32 where "NEAR_EXHAUSTION_FREE_PERCENT = 5"

type_synonym IpamState = "(string \<times> u16) list"

record IpamStatus =
  is_capacity :: u16
  is_allocated :: u16
  is_free :: u16
  is_utilization_percent :: u8
  is_near_exhaustion :: bool

datatype IpamError = IpamParsing | IpamWriting | PoolExhausted

section \<open>Blocks\<close>

definition block_to_octets :: "u16 \<Rightarrow> u8 \<times> u8" where
  "block_to_octets block = (ucast (block div 16), ucast ((block mod 16) * 16))"

definition legacy_subnet_block :: "128 word \<Rightarrow> u8 \<times> u8" where
  "legacy_subnet_block i = block_to_octets (ucast (i mod ucast POOL_SIZE))"

lemma below_pool: "\<not> POOL_SIZE \<le> n \<Longrightarrow> unat (n + 1) = unat n + 1 \<and> unat n < 4096"
proof -
  assume "\<not> POOL_SIZE \<le> n"
  then have n: "unat n < 4096" by (simp add: word_le_nat_alt POOL_SIZE_def)
  then show ?thesis by (simp add: unat_add_no_wrap)
qed

text \<open>\<^verbatim>\<open>(0..POOL_SIZE).find(|n| !used.contains(n))\<close>\<close>

function first_free :: "u16 set \<Rightarrow> u16 \<Rightarrow> u16 option" where
  "first_free used n =
     (if POOL_SIZE \<le> n then None else if n \<notin> used then Some n else first_free used (n + 1))"
  by pat_completeness auto

termination
  by (relation "measure (\<lambda>(used, n). 4096 - unat n)") (auto dest: below_pool)

declare first_free.simps [simp del]

section \<open>Operations\<close>

definition allocate_in :: "string \<Rightarrow> IpamState \<Rightarrow> IpamError + ((u8 \<times> u8) \<times> IpamState)" where
  "allocate_in key st =
     (case hm_get key st of
        Some block \<Rightarrow> Inr (block_to_octets block, st)
      | None \<Rightarrow>
          (case first_free (set (map snd st)) 0 of
             None \<Rightarrow> Inl PoolExhausted
           | Some block \<Rightarrow> Inr (block_to_octets block, hm_insert key block st)))"

definition release_in :: "string \<Rightarrow> IpamState \<Rightarrow> IpamError + ((u8 \<times> u8) option \<times> IpamState)" where
  "release_in key st = Inr (map_option block_to_octets (hm_get key st), hm_remove key st)"

definition status_of :: "IpamState \<Rightarrow> IpamStatus" where
  "status_of st =
     (let allocated = of_nat (length st) :: u16;
          free = POOL_SIZE - allocated
      in \<lparr>is_capacity = POOL_SIZE, is_allocated = allocated, is_free = free,
          is_utilization_percent = ucast ((ucast allocated :: u32) * 100 div ucast POOL_SIZE),
          is_near_exhaustion = ((ucast free :: u32) * 100 \<le> ucast POOL_SIZE * NEAR_EXHAUSTION_FREE_PERCENT)\<rparr>)"

definition ipam_read :: "IpamState state_file \<Rightarrow> IpamError + IpamState" where
  "ipam_read f = (case f of Absent \<Rightarrow> Inr [] | Blank \<Rightarrow> Inr [] | Text st \<Rightarrow> Inr st | Garbled \<Rightarrow> Inl IpamParsing)"

definition ipam_exclusive ::
  "(IpamState \<Rightarrow> IpamError + ('a \<times> IpamState)) \<Rightarrow> bool \<Rightarrow> IpamState state_file \<Rightarrow> (IpamError + 'a) \<times> IpamState state_file" where
  "ipam_exclusive op writable f =
     (case ipam_read f of
        Inl e \<Rightarrow> (Inl e, f)
      | Inr st \<Rightarrow>
          (case op st of
             Inl e \<Rightarrow> (Inl e, f)
           | Inr (out, st') \<Rightarrow> if writable then (Inr out, Text st') else (Inl IpamWriting, f)))"

definition ipam_shared :: "(IpamState \<Rightarrow> 'a) \<Rightarrow> IpamState state_file \<Rightarrow> IpamError + 'a" where
  "ipam_shared op f = map_sum id op (ipam_read f)"

definition ipam_allocate :: "string \<Rightarrow> bool \<Rightarrow> IpamState state_file \<Rightarrow> (IpamError + (u8 \<times> u8)) \<times> IpamState state_file" where
  "ipam_allocate key = ipam_exclusive (allocate_in key)"

definition ipam_release :: "string \<Rightarrow> bool \<Rightarrow> IpamState state_file \<Rightarrow> (IpamError + (u8 \<times> u8) option) \<times> IpamState state_file" where
  "ipam_release key = ipam_exclusive (release_in key)"

definition ipam_lookup :: "string \<Rightarrow> IpamState state_file \<Rightarrow> IpamError + (u8 \<times> u8) option" where
  "ipam_lookup key = ipam_shared (\<lambda>st. map_option block_to_octets (hm_get key st))"

definition ipam_status :: "IpamState state_file \<Rightarrow> IpamError + IpamStatus" where
  "ipam_status = ipam_shared status_of"

section \<open>The first free block\<close>

lemma next_above: "unat n \<le> unat c \<Longrightarrow> c \<noteq> n \<Longrightarrow> Suc (unat n) \<le> unat c"
  by (metis Suc_leI le_neq_implies_less word_unat_eq_iff)

lemma first_free_Some:
  "first_free used n = Some b \<Longrightarrow> b \<notin> used \<and> unat b < 4096 \<and> unat n \<le> unat b \<and> (\<forall>c. unat n \<le> unat c \<and> unat c < unat b \<longrightarrow> c \<in> used)"
proof (induction used n rule: first_free.induct)
  case (1 used n)
  show ?case
  proof (cases "POOL_SIZE \<le> n \<or> n \<notin> used")
    case True
    then show ?thesis using 1(2) below_pool [of n] by (subst (asm) first_free.simps) (auto split: if_split_asm)
  next
    case False
    then have "first_free used (n + 1) = Some b" using 1(2) by (subst (asm) first_free.simps) simp
    then have ih: "b \<notin> used \<and> unat b < 4096 \<and> unat (n + 1) \<le> unat b \<and> (\<forall>c. unat (n + 1) \<le> unat c \<and> unat c < unat b \<longrightarrow> c \<in> used)"
      using 1(1) False by blast
    have "c \<in> used" if "unat n \<le> unat c" "unat c < unat b" for c
      using ih that False below_pool [of n] next_above [OF that(1)] by (cases "c = n") auto
    then show ?thesis using ih False below_pool [of n] by auto
  qed
qed

lemma first_free_None: "first_free used n = None \<Longrightarrow> unat n \<le> unat c \<Longrightarrow> unat c < 4096 \<Longrightarrow> c \<in> used"
proof (induction used n rule: first_free.induct)
  case (1 used n)
  show ?case
  proof (cases "POOL_SIZE \<le> n")
    case True
    then show ?thesis using 1(3,4) by (simp add: word_le_nat_alt POOL_SIZE_def)
  next
    case False
    then have n: "n \<in> used" "first_free used (n + 1) = None"
      using 1(2) by (subst (asm) first_free.simps, simp split: if_split_asm)+
    show ?thesis using 1(1) [OF False] n 1(3,4) below_pool [OF False] next_above [OF 1(3)] by (cases "c = n") auto
  qed
qed

section \<open>Runs\<close>

datatype IpamEvent = IAlloc string bool | IRelease string bool

fun ipam_step :: "IpamEvent \<Rightarrow> IpamState state_file \<Rightarrow> IpamState state_file" where
  "ipam_step (IAlloc key w) f = snd (ipam_allocate key w f)"
| "ipam_step (IRelease key w) f = snd (ipam_release key w f)"

definition block_of :: "IpamState state_file \<Rightarrow> string \<Rightarrow> u16 option" where
  "block_of f key = (case ipam_read f of Inl _ \<Rightarrow> None | Inr st \<Rightarrow> hm_get key st)"

definition ipam_ok :: "IpamState state_file \<Rightarrow> bool" where
  "ipam_ok f \<longleftrightarrow>
     (\<exists>st. ipam_read f = Inr st \<and> keyed st \<and> distinct (map snd st) \<and> (\<forall>b \<in> set (map snd st). unat b < 4096))"

lemma ipam_read_Text [simp]: "ipam_read (Text st) = Inr st"
  by (simp add: ipam_read_def)

lemma hm_remove_set: "set (map snd (hm_remove k m)) \<subseteq> set (map snd m)"
  by (auto simp: hm_remove_def)

lemma hm_remove_distinct: "distinct (map snd m) \<Longrightarrow> distinct (map snd (hm_remove k m))"
  by (simp add: hm_remove_def distinct_map_filter)

lemma hm_get_in: "hm_get k m = Some v \<Longrightarrow> v \<in> set (map snd m)"
  by (force simp: hm_get_def dest: map_of_SomeD)

lemma allocate_in_Inr:
  assumes "allocate_in key st = Inr (out, st')"
  obtains b where "out = block_to_octets b" and "hm_get key st = Some b" and "st' = st"
  | b where "out = block_to_octets b" and "hm_get key st = None" and "first_free (set (map snd st)) 0 = Some b"
      and "st' = hm_insert key b st"
  using assms by (auto simp: allocate_in_def split: option.split_asm)

lemma ipam_ok_step: "ipam_ok f \<Longrightarrow> ipam_ok (ipam_step e f)"
proof -
  assume "ipam_ok f"
  then obtain st where st: "ipam_read f = Inr st" "keyed st" "distinct (map snd st)" "\<forall>b \<in> set (map snd st). unat b < 4096"
    by (auto simp: ipam_ok_def)
  have f: "ipam_ok f" using st by (auto simp: ipam_ok_def)
  show ?thesis
  proof (cases e)
    case (IAlloc key w)
    show ?thesis
    proof (cases "allocate_in key st")
      case (Inl er)
      then show ?thesis using IAlloc st f by (simp add: ipam_allocate_def ipam_exclusive_def)
    next
      case (Inr p)
      obtain out st' where p: "p = (out, st')" by (cases p)
      have "keyed st' \<and> distinct (map snd st') \<and> (\<forall>b \<in> set (map snd st'). unat b < 4096)"
      proof (rule allocate_in_Inr [OF Inr [unfolded p]])
        fix b assume "st' = st"
        then show ?thesis using st by simp
      next
        fix b assume b: "first_free (set (map snd st)) 0 = Some b" "st' = hm_insert key b st"
        note n = first_free_Some [OF b(1)]
        have r: "set (map snd (hm_remove key st)) \<subseteq> set (map snd st)" by (rule hm_remove_set)
        have k: "keyed st'" unfolding b(2) by (rule keyed_insert) (rule st(2))
        have "b \<notin> snd ` set (hm_remove key st)" using n r by auto
        then have d: "distinct (map snd st')" using b st hm_remove_distinct [of st key] by (simp add: hm_insert_def)
        have "set (map snd st') \<subseteq> insert b (set (map snd st))" using b r by (auto simp: hm_insert_def)
        then have "\<forall>c \<in> set (map snd st'). unat c < 4096" using n st(4) by blast
        then show ?thesis using k d by blast
      qed
      then show ?thesis using IAlloc st f Inr p by (auto simp: ipam_allocate_def ipam_exclusive_def ipam_ok_def)
    qed
  next
    case (IRelease key w)
    have "keyed (hm_remove key st)" "distinct (map snd (hm_remove key st))"
      using st by (auto intro: keyed_remove hm_remove_distinct)
    moreover have "\<forall>b \<in> set (map snd (hm_remove key st)). unat b < 4096" using st(4) hm_remove_set [of key st] by blast
    ultimately show ?thesis using IRelease st f by (simp add: ipam_release_def release_in_def ipam_exclusive_def ipam_ok_def)
  qed
qed

lemma ipam_step_fresh:
  assumes "ipam_ok f"
  shows "\<exists>k. (\<forall>k'. k' \<noteq> k \<longrightarrow> block_of (ipam_step e f) k' = block_of f k' \<or> block_of (ipam_step e f) k' = None) \<and>
     (\<forall>b. block_of (ipam_step e f) k = Some b \<longrightarrow> block_of f k = Some b \<or> (\<forall>k'. block_of f k' \<noteq> Some b))"
proof -
  obtain st where st: "ipam_read f = Inr st" using assms by (auto simp: ipam_ok_def)
  have same: ?thesis if "ipam_step e f = f" using that by simp
  show ?thesis
  proof (cases e)
    case (IRelease key w)
    then show ?thesis using st
      by (intro exI [of _ key]) (auto simp: ipam_release_def release_in_def ipam_exclusive_def block_of_def hm_get_remove)
  next
    case (IAlloc key w)
    show ?thesis
    proof (cases "\<exists>out st'. allocate_in key st = Inr (out, st') \<and> st' \<noteq> st \<and> w")
      case False
      then have "ipam_step e f = f \<or> ipam_step e f = Text st" using IAlloc st
        by (cases "allocate_in key st") (auto simp: ipam_allocate_def ipam_exclusive_def)
      then show ?thesis using same st by (auto simp: block_of_def)
    next
      case True
      then obtain out st' where a: "allocate_in key st = Inr (out, st')" "st' \<noteq> st" w by blast
      then obtain b where b: "first_free (set (map snd st)) 0 = Some b" "st' = hm_insert key b st"
        by (auto elim: allocate_in_Inr)
      have "ipam_step e f = Text st'" using IAlloc st a by (simp add: ipam_allocate_def ipam_exclusive_def)
      moreover have "block_of f k' \<noteq> Some b" for k'
        using first_free_Some [OF b(1)] hm_get_in [of k' st b] st by (auto simp: block_of_def)
      ultimately show ?thesis using b st by (intro exI [of _ key]) (auto simp: block_of_def hm_get_insert)
    qed
  qed
qed

interpretation ipm: exclusive_pool block_of ipam_step ipam_ok
  by unfold_locales (rule ipam_ok_step, assumption, rule ipam_step_fresh, assumption)

section \<open>Properties\<close>

text \<open>The addresses of a block: the last two octets of \<^verbatim>\<open>169.254.x.y\<close> as one number.\<close>

definition subnet :: "u8 \<times> u8 \<Rightarrow> nat set" where
  "subnet oct = {unat (fst oct) * 256 + unat (snd oct) ..< unat (fst oct) * 256 + unat (snd oct) + 16}"

lemma subnet_block:
  assumes "unat b < 4096"
  shows "subnet (block_to_octets b) = {16 * unat b ..< 16 * unat b + 16}"
proof -
  have m: "unat (b mod 16) < 16" by (simp add: unat_mod)
  have "unat ((b mod 16) * 16) = unat (b mod 16) * 16" using m by (subst unat_mult_no_wrap) auto
  then have lo: "unat (snd (block_to_octets b)) = (unat b mod 16) * 16"
    using m by (simp add: block_to_octets_def unsigned_ucast_eq take_bit_eq_mod unat_mod)
  have hi: "unat (fst (block_to_octets b)) = unat b div 16"
    using assms by (simp add: block_to_octets_def unsigned_ucast_eq take_bit_eq_mod unat_div less_mult_imp_div_less)
  have "unat b div 16 * 256 + unat b mod 16 * 16 = 16 * unat b"
  proof -
    have "q * 256 + r * 16 = 16 * n" if "q * 16 + r = n" for q r n :: nat using that by simp
    then show ?thesis using div_mult_mod_eq [of "unat b" 16] by blast
  qed
  then show ?thesis by (simp only: subnet_def lo hi)
qed

lemma pool_card: "card {b :: u16. unat b < 4096} = 4096"
proof -
  have "{b :: u16. unat b < 4096} = of_nat ` {..< 4096}"
  proof (intro set_eqI iffI)
    fix b :: u16
    assume "b \<in> {b. unat b < 4096}"
    then show "b \<in> of_nat ` {..< 4096}" by (intro image_eqI [of _ _ "unat b"]) auto
  next
    fix b :: u16
    assume "b \<in> of_nat ` {..< 4096}"
    then show "b \<in> {b. unat b < 4096}" by (auto simp: unat_of_nat)
  qed
  moreover have "inj_on (of_nat :: nat \<Rightarrow> u16) {..< 4096}"
    by (rule inj_on_inverseI [where g = unat]) (simp add: unat_of_nat)
  ultimately show ?thesis by (simp add: card_image)
qed

text \<open>
  C8. Two sandboxes never share an address. Over every history of allocations and releases, also when
  the file cannot be written, the blocks two different VMs hold have disjoint ranges of sixteen
  addresses, and every range lies within the pool.
\<close>

theorem ipam_subnets_disjoint:
  assumes "ipam_lookup k (fold ipam_step es Absent) = Inr (Some o1)" and "ipam_lookup k' (fold ipam_step es Absent) = Inr (Some o2)"
    and "k \<noteq> k'"
  shows "subnet o1 \<inter> subnet o2 = {} \<and> subnet o1 \<subseteq> {..< 2 ^ 16} \<and> card (subnet o1) = 16"
proof -
  let ?f = "fold ipam_step es Absent"
  have "ipam_ok Absent" by (simp add: ipam_ok_def ipam_read_def keyed_def)
  moreover have "ipm.exclusive Absent" by (simp add: ipm.exclusive_def block_of_def ipam_read_def hm_get_def)
  ultimately have ok: "ipam_ok ?f" "ipm.exclusive ?f" using ipm.exclusive_run by blast+
  then obtain st where st: "ipam_read ?f = Inr st" "\<forall>b \<in> set (map snd st). unat b < 4096" by (auto simp: ipam_ok_def)
  obtain b c where b: "hm_get k st = Some b" "o1 = block_to_octets b" and c: "hm_get k' st = Some c" "o2 = block_to_octets c"
    using assms(1,2) st(1) by (auto simp: ipam_lookup_def ipam_shared_def)
  have "b \<noteq> c" using ok(2) assms(3) st(1) b(1) c(1) unfolding ipm.exclusive_def by (auto simp: block_of_def)
  then have n: "unat b \<noteq> unat c" "unat b < 4096" "unat c < 4096"
    using st(2) hm_get_in [OF b(1)] hm_get_in [OF c(1)] by (auto simp: word_unat_eq_iff)
  then show ?thesis using subnet_block [of b] subnet_block [of c] b(2) c(2) by auto
qed

theorem ipam_subnets_disjoint_witness:
  "subnet (0, 0) \<inter> subnet (0, 16) = {} \<and> subnet (0, 0) \<subseteq> {..< 2 ^ 16} \<and> card (subnet (0, 0)) = 16"
proof -
  let ?es = "[IAlloc ''a'' True, IAlloc ''b'' True, IRelease ''a'' True, IAlloc ''c'' True]"
  have "ipam_lookup ''c'' (fold ipam_step ?es Absent) = Inr (Some (0, 0))" by code_simp
  moreover have "ipam_lookup ''b'' (fold ipam_step ?es Absent) = Inr (Some (0, 16))" by code_simp
  ultimately show ?thesis using ipam_subnets_disjoint [of "''c''" ?es _ "''b''"] by simp
qed

text \<open>
  Allocation fails only when the pool is used up. On a well-formed store, asking for a block gives
  back the block a VM already holds, and otherwise the lowest free one unless all 4096 are held; a
  block that has been given out is found by \<^verbatim>\<open>lookup\<close>; and when the file cannot be written or the pool is
  exhausted the file stays as it was.
\<close>

theorem ipam_allocate_total:
  assumes "ipam_ok f" and "ipam_read f = Inr st"
  shows "((\<exists>o1 f'. ipam_allocate k True f = (Inr o1, f') \<and> ipam_lookup k f' = Inr (Some o1) \<and>
            (hm_get k st \<noteq> None \<longrightarrow> ipam_read f' = Inr st) \<and>
            (hm_get k st = None \<longrightarrow> (\<exists>b. o1 = block_to_octets b \<and> b \<notin> set (map snd st) \<and>
               (\<forall>c. unat c < unat b \<longrightarrow> c \<in> set (map snd st))))) \<or>
         ipam_allocate k True f = (Inl PoolExhausted, f) \<and> length st = 4096) \<and> snd (ipam_allocate k False f) = f"
proof (rule conjI)
  show "snd (ipam_allocate k False f) = f"
    by (auto simp: ipam_allocate_def ipam_exclusive_def split: sum.split)
  show "(\<exists>o1 f'. ipam_allocate k True f = (Inr o1, f') \<and> ipam_lookup k f' = Inr (Some o1) \<and>
            (hm_get k st \<noteq> None \<longrightarrow> ipam_read f' = Inr st) \<and>
            (hm_get k st = None \<longrightarrow> (\<exists>b. o1 = block_to_octets b \<and> b \<notin> set (map snd st) \<and>
               (\<forall>c. unat c < unat b \<longrightarrow> c \<in> set (map snd st))))) \<or>
         ipam_allocate k True f = (Inl PoolExhausted, f) \<and> length st = 4096"
  proof (cases "hm_get k st")
    case (Some b)
    then show ?thesis using assms(2)
      by (simp add: ipam_allocate_def ipam_exclusive_def allocate_in_def ipam_lookup_def ipam_shared_def)
  next
    case None
    show ?thesis
    proof (cases "first_free (set (map snd st)) 0")
      case (Some b)
      then show ?thesis using None assms(2) first_free_Some [OF Some]
        by (auto simp: ipam_allocate_def ipam_exclusive_def allocate_in_def ipam_lookup_def ipam_shared_def hm_get_insert)
    next
      case full: None
      have d: "distinct (map snd st)" "\<forall>b \<in> set (map snd st). unat b < 4096" using assms by (auto simp: ipam_ok_def)
      have "set (map snd st) = {b. unat b < 4096}" using d(2) first_free_None [OF full] by auto
      then have "length st = 4096" using distinct_card [OF d(1)] pool_card by simp
      then show ?thesis using full None assms(2) by (simp add: ipam_allocate_def ipam_exclusive_def allocate_in_def)
    qed
  qed
qed

theorem ipam_allocate_total_witness:
  "\<exists>o1 f'. ipam_allocate ''b'' True (Text [(''a'', 0)]) = (Inr o1, f') \<and> ipam_lookup ''b'' f' = Inr (Some o1) \<and>
     (\<exists>b. o1 = block_to_octets b \<and> b \<notin> {0} \<and> (\<forall>c :: u16. unat c < unat b \<longrightarrow> c \<in> {0}))"
proof -
  have "ipam_ok (Text [(''a'', 0)])" by (simp add: ipam_ok_def keyed_def)
  from ipam_allocate_total [OF this, of _ "''b''"] show ?thesis by (simp add: hm_get_def)
qed

end
