(* ===== verification/Pci.thy ===== *)
theory Pci
  imports Bus
begin

unbundle bit_operations_syntax

text \<open>
  The PCI configuration window and the MSI-X table (\<^verbatim>\<open>fluxvm-hypervisor/src/pci.rs\<close>): one virtio-net
  function at \<^verbatim>\<open>00:01.0\<close> whose 4 KiB of configuration space are a list of bytes. The mutexes make each
  access one step.
\<close>

section \<open>Constants and bytes\<close>

definition MMIO_WINDOW :: u64 where "MMIO_WINDOW = 0xFEB00000"
definition IOAPIC_ADDR :: u64 where "IOAPIC_ADDR = 0xfec00000"
definition PCI_MMCONFIG_SIZE :: u64 where "PCI_MMCONFIG_SIZE = 0x10000000"
definition PCI_MMCONFIG_START :: u64 where "PCI_MMCONFIG_START = IOAPIC_ADDR - PCI_MMCONFIG_SIZE"
definition VENDOR_REDHAT :: u16 where "VENDOR_REDHAT = 0x1af4"
definition DEVICE_VIRTIO_NET :: u16 where "DEVICE_VIRTIO_NET = 0x1041"
definition BAR0_SIZE :: u32 where "BAR0_SIZE = 0x1000"
definition CAP_COMMON_CFG :: nat where "CAP_COMMON_CFG = 0x40"
definition CAP_NOTIFY_CFG :: nat where "CAP_NOTIFY_CFG = 0x50"
definition CAP_ISR_CFG :: nat where "CAP_ISR_CFG = 0x60"
definition CAP_DEVICE_CFG :: nat where "CAP_DEVICE_CFG = 0x70"
definition CAP_MSIX :: nat where "CAP_MSIX = 0x80"
definition MSIX_BAR_OFFSET :: u64 where "MSIX_BAR_OFFSET = 0x800"
definition MSIX_PBA_OFFSET :: u32 where "MSIX_PBA_OFFSET = 0x900"
definition MSIX_ENTRIES :: u16 where "MSIX_ENTRIES = 4"

lemmas pci_consts = MMIO_WINDOW_def IOAPIC_ADDR_def PCI_MMCONFIG_SIZE_def PCI_MMCONFIG_START_def VENDOR_REDHAT_def
  DEVICE_VIRTIO_NET_def BAR0_SIZE_def CAP_COMMON_CFG_def CAP_NOTIFY_CFG_def CAP_ISR_CFG_def CAP_DEVICE_CFG_def
  CAP_MSIX_def MSIX_BAR_OFFSET_def MSIX_PBA_OFFSET_def MSIX_ENTRIES_def

text \<open>\<^verbatim>\<open>buf[off..off + n].copy_from_slice\<close>, and the slices and elements of the buffer the code writes one by one.\<close>

fun put_bytes :: "nat \<Rightarrow> u8 list \<Rightarrow> u8 list \<Rightarrow> u8 list" where
  "put_bytes off [] buf = buf"
| "put_bytes off (b # bs) buf = put_bytes (off + 1) bs (buf[off := b])"

definition put_u16 :: "nat \<Rightarrow> u16 \<Rightarrow> u8 list \<Rightarrow> u8 list" where
  "put_u16 off v buf = put_bytes off (u16_to_le v) buf"

definition put_u32 :: "nat \<Rightarrow> u32 \<Rightarrow> u8 list \<Rightarrow> u8 list" where
  "put_u32 off v buf = put_bytes off (u32_to_le v) buf"

definition get_u16 :: "u8 list \<Rightarrow> nat \<Rightarrow> u16" where
  "get_u16 buf off = u16_from_le (slice off (off + 2) buf)"

section \<open>The function at 00:01.0\<close>

definition write_virtio_cap :: "nat \<Rightarrow> u8 \<Rightarrow> nat \<Rightarrow> u8 \<Rightarrow> u32 \<Rightarrow> u32 \<Rightarrow> u8 list \<Rightarrow> u8 list" where
  "write_virtio_cap off cfg_type nxt bar offset len cfg =
     (let cfg = put_bytes off [0x09, of_nat nxt, 16, cfg_type, bar, 0, 0, 0] cfg
      in put_u32 (off + 12) len (put_u32 (off + 8) offset cfg))"

definition write_msix_cap :: "u8 list \<Rightarrow> u8 list" where
  "write_msix_cap cfg =
     (let cfg = put_bytes CAP_MSIX [0x11, 0] cfg;
          cfg = put_u16 (CAP_MSIX + 2) (saturating_sub MSIX_ENTRIES 1) cfg
      in put_u32 (CAP_MSIX + 8) MSIX_PBA_OFFSET (put_u32 (CAP_MSIX + 4) (ucast MSIX_BAR_OFFSET) cfg))"

record PciEcam =
  pe_base :: u64
  pe_size :: u64
  pe_cfg :: "u8 list"

text \<open>The header, the command register clear and the capability bit set in the status register.\<close>

definition pci_header :: "u8 list \<Rightarrow> u8 list" where
  "pci_header cfg =
     (let cfg = put_u16 0x06 0x0010 (put_u16 0x04 0x0000 (put_u16 0x02 DEVICE_VIRTIO_NET (put_u16 0x00 VENDOR_REDHAT cfg)));
          cfg = cfg[0x08 := 0x01, 0x09 := 0x00, 0x0a := 0x00, 0x0b := 0x02, 0x0e := 0x00];
          cfg = put_u32 0x14 0 (put_u32 0x10 (ucast MMIO_WINDOW) cfg);
          cfg = put_u32 0x24 0 (put_u32 0x20 0 (put_u32 0x1c 0 (put_u32 0x18 0 cfg)));
          cfg = put_u16 0x2e DEVICE_VIRTIO_NET (put_u16 0x2c VENDOR_REDHAT cfg)
      in cfg[0x34 := of_nat CAP_COMMON_CFG, 0x3d := 5, 0x3c := 5])"

definition pci_caps :: "u8 list \<Rightarrow> u8 list" where
  "pci_caps cfg =
     (let cfg = write_virtio_cap CAP_COMMON_CFG 1 CAP_NOTIFY_CFG 0 0x000 0x56 cfg;
          cfg = write_virtio_cap CAP_NOTIFY_CFG 2 CAP_ISR_CFG 0 0x100 0x10 cfg;
          cfg = put_u32 (CAP_NOTIFY_CFG + 16) 4 cfg;
          cfg = write_virtio_cap CAP_ISR_CFG 3 CAP_DEVICE_CFG 0 0x200 0x04 cfg;
          cfg = write_virtio_cap CAP_DEVICE_CFG 4 CAP_MSIX 0 0x300 0x100 cfg
      in write_msix_cap cfg)"

definition pci_new :: PciEcam where
  "pci_new = \<lparr>pe_base = PCI_MMCONFIG_START, pe_size = PCI_MMCONFIG_SIZE,
     pe_cfg = pci_caps (pci_header (replicate 4096 0xff))\<rparr>"

definition bdf_offset :: "u64 \<Rightarrow> (u8 \<times> u8 \<times> u8 \<times> nat) option" where
  "bdf_offset addr =
     (if addr < PCI_MMCONFIG_START then None
      else let rl = addr - PCI_MMCONFIG_START in
        if PCI_MMCONFIG_SIZE \<le> rl then None
        else Some (ucast (drop_bit 20 rl AND 0xff), ucast (drop_bit 15 rl AND 0x1f), ucast (drop_bit 12 rl AND 0x07),
                   unat (rl AND 0xfff)))"

definition ecam_range :: "PciEcam \<Rightarrow> u64 \<times> u64" where
  "ecam_range d = (pe_base d, pe_base d + pe_size d - 1)"

text \<open>The byte-wise tail of \<^verbatim>\<open>mmio_write\<close> and which bytes it takes.\<close>

definition guest_writable :: "nat \<Rightarrow> bool" where
  "guest_writable r =
     (if 0x40 \<le> r \<and> r < 0x80 then False
      else if 0x82 \<le> r \<and> r < 0x84 then True
      else if 0x80 \<le> r \<and> r < 0x90 then False
      else 0x10 \<le> r)"

fun store_bytes :: "nat \<Rightarrow> u8 list \<Rightarrow> u8 list \<Rightarrow> u8 list" where
  "store_bytes r [] cfg = cfg"
| "store_bytes r (b # bs) cfg =
     store_bytes (r + 1) bs (if r < length cfg \<and> guest_writable r then cfg[r := b] else cfg)"

definition cfg_write :: "nat \<Rightarrow> u8 list \<Rightarrow> u8 list \<Rightarrow> u8 list" where
  "cfg_write r data cfg =
     (if r = 0x10 \<and> 4 \<le> length data then
        (let val = u32_from_le (take 4 data) in
         if val = 0xffffffff then put_u32 0x10 (NOT (BAR0_SIZE - 1)) cfg
         else put_u32 0x10 (val AND NOT (BAR0_SIZE - 1)) cfg)
      else if r = 0x04 \<and> 2 \<le> length data then
        (let cur = get_u16 cfg 0x04; val = u16_from_le (take 2 data)
         in put_u16 0x04 ((cur AND NOT 0x0007) OR (val AND 0x0007)) cfg)
      else store_bytes r data cfg)"

definition ecam_write :: "u64 \<Rightarrow> u8 list \<Rightarrow> (PciEcam, unit) op" where
  "ecam_write addr data d =
     (Inr (),
      case bdf_offset addr of
        None \<Rightarrow> d
      | Some (bs, dv, fn, r) \<Rightarrow>
          if bs \<noteq> 0 \<or> dv \<noteq> 1 \<or> fn \<noteq> 0 then d else d\<lparr>pe_cfg := cfg_write r data (pe_cfg d)\<rparr>)"

definition byte_or :: "u8 \<Rightarrow> u8 list \<Rightarrow> nat \<Rightarrow> u8" where
  "byte_or dflt bs i = (if i < length bs then bs ! i else dflt)"

definition ecam_read :: "u64 \<Rightarrow> u8 list \<Rightarrow> (PciEcam, u8 list) op" where
  "ecam_read addr data d =
     (Inr (case bdf_offset addr of
             None \<Rightarrow> replicate (length data) 0xff
           | Some (bs, dv, fn, r) \<Rightarrow>
               if bs \<noteq> 0 \<or> dv \<noteq> 1 \<or> fn \<noteq> 0 then replicate (length data) 0xff
               else map (\<lambda>i. byte_or 0xff (pe_cfg d) (r + i)) [0 ..< length data]), d)"

section \<open>The MSI-X table\<close>

record MsixBar =
  mx_base :: u64
  mx_table :: "u8 list"

definition msix_new :: MsixBar where
  "msix_new = \<lparr>mx_base = MMIO_WINDOW + MSIX_BAR_OFFSET, mx_table = replicate 0x200 0\<rparr>"

definition msix_range :: "MsixBar \<Rightarrow> u64 \<times> u64" where
  "msix_range d = (mx_base d, mx_base d + 0x1ff)"

fun msix_store :: "nat \<Rightarrow> u8 list \<Rightarrow> u8 list \<Rightarrow> u8 list" where
  "msix_store i [] t = t"
| "msix_store i (b # bs) t = msix_store (i + 1) bs (if i < length t then t[i := b] else t)"

definition msix_write :: "u64 \<Rightarrow> u8 list \<Rightarrow> (MsixBar, unit) op" where
  "msix_write addr data d = (Inr (), d\<lparr>mx_table := msix_store (unat (addr - mx_base d)) data (mx_table d)\<rparr>)"

definition msix_read :: "u64 \<Rightarrow> u8 list \<Rightarrow> (MsixBar, u8 list) op" where
  "msix_read addr data d =
     (Inr (map (\<lambda>i. byte_or 0 (mx_table d) (unat (addr - mx_base d) + i)) [0 ..< length data]), d)"

section \<open>Lemmas\<close>

lemma length_put_bytes [simp]: "length (put_bytes off bs buf) = length buf"
  by (induction off bs buf rule: put_bytes.induct) auto

lemma nth_put_bytes:
  "off + length bs \<le> length buf \<Longrightarrow>
    put_bytes off bs buf ! i = (if off \<le> i \<and> i < off + length bs then bs ! (i - off) else buf ! i)"
proof (induction off bs buf rule: put_bytes.induct)
  case (2 off b bs buf)
  show ?case
  proof (cases "i = off")
    case True
    then show ?thesis using 2 by simp
  next
    case False
    moreover have "(off + 1 \<le> i \<and> i < off + 1 + length bs) = (off \<le> i \<and> i < off + length (b # bs))" using False by auto
    moreover have "off + 1 \<le> i \<Longrightarrow> (b # bs) ! (i - off) = bs ! (i - (off + 1))" by (simp add: nth_Cons')
    ultimately show ?thesis using 2 by auto
  qed
qed auto

lemma length_writes [simp]:
  "length (put_u16 off v16 buf) = length buf" "length (put_u32 off v32 buf) = length buf"
  by (simp_all add: put_u16_def put_u32_def)

lemma length_store_bytes [simp]: "length (store_bytes r bs cfg) = length cfg"
  by (induction r bs cfg rule: store_bytes.induct) auto

lemma length_msix_store [simp]: "length (msix_store i bs t) = length t"
  by (induction i bs t rule: msix_store.induct) auto

lemma length_cfg_write [simp]: "length (cfg_write r data cfg) = length cfg"
  by (simp add: cfg_write_def Let_def)

lemma length_caps [simp]:
  "length (write_virtio_cap off ty nxt bar ofs len cfg) = length cfg" "length (write_msix_cap cfg) = length cfg"
  "length (pci_header cfg) = length cfg" "length (pci_caps cfg) = length cfg"
  by (simp_all add: write_virtio_cap_def write_msix_cap_def pci_header_def pci_caps_def Let_def)

lemma store_bytes_keeps: "\<not> guest_writable i \<Longrightarrow> store_bytes r bs cfg ! i = cfg ! i"
  by (induction r bs cfg rule: store_bytes.induct) (auto simp: nth_list_update)

text \<open>The bytes no access of the guest changes: identity, class and header type, and the capabilities.\<close>

definition fixed_reg :: "nat \<Rightarrow> bool" where
  "fixed_reg r \<longleftrightarrow> r < 0x10 \<and> r \<noteq> 0x04 \<or> 0x40 \<le> r \<and> r < 0x90 \<and> r \<noteq> 0x82 \<and> r \<noteq> 0x83"

lemma fixed_not_writable: "fixed_reg r \<Longrightarrow> \<not> guest_writable r"
  by (auto simp: fixed_reg_def guest_writable_def)

lemma command_high_byte:
  assumes "6 \<le> length cfg"
  shows "u16_to_le ((get_u16 cfg 0x04 AND NOT 0x0007) OR (val AND 0x0007)) ! 1 = cfg ! 5"
proof -
  let ?c = "get_u16 cfg 0x04"
  have s: "slice 4 6 cfg = [cfg ! 4, cfg ! 5]"
    by (rule nth_equalityI) (use assms in \<open>auto simp: less_2_cases_iff\<close>)
  have le: "u16_to_le w ! 1 = ucast (drop_bit 8 w)" for w :: u16
  proof -
    have "unat (ucast (drop_bit 8 w) :: u8) = unat w div 256 mod 256"
      by (simp add: unsigned_ucast_eq take_bit_eq_mod unat_drop_bit_eq drop_bit_eq_div unat_div)
    moreover have "unat (u16_to_le w ! 1) = unat w div 256 mod 256"
      by (simp add: u16_to_le_def numeral_2_eq_2)
    ultimately show ?thesis by (simp add: word_unat_eq_iff)
  qed
  have "drop_bit 8 ((?c AND NOT 0x0007) OR (val AND 0x0007)) = drop_bit 8 ?c"
  proof -
    have m: "(7 :: u16) = mask 3" by (simp add: mask_numeral)
    show ?thesis unfolding m
      by (rule bit_word_eqI)
        (auto simp only: bit_drop_bit_eq bit_or_iff bit_and_iff bit_not_iff bit_mask_iff o_apply dest: bit_imp_possible_bit)
  qed
  then have "u16_to_le ((?c AND NOT 0x0007) OR (val AND 0x0007)) ! 1 = u16_to_le ?c ! 1" by (simp only: le)
  also have "\<dots> = cfg ! 5" using to_from_le(1) [of "[cfg ! 4, cfg ! 5]"] by (simp add: get_u16_def s)
  finally show ?thesis .
qed

lemma cfg_write_fixed:
  assumes "fixed_reg i" and "length cfg = 4096"
  shows "cfg_write r data cfg ! i = cfg ! i"
proof -
  have b: "put_u32 0x10 v cfg ! i = cfg ! i" for v
    using assms by (auto simp: put_u32_def nth_put_bytes fixed_reg_def)
  have c: "put_u16 0x04 ((get_u16 cfg 0x04 AND NOT 0x0007) OR (val AND 0x0007)) cfg ! i = cfg ! i" for val
    using assms command_high_byte [of cfg val]
    by (cases "i = 5") (auto simp: put_u16_def nth_put_bytes fixed_reg_def)
  show ?thesis using b c store_bytes_keeps [OF fixed_not_writable [OF assms(1)]]
    by (simp add: cfg_write_def Let_def)
qed

section \<open>The devices on the bus\<close>

definition ecam_ok :: "PciEcam \<Rightarrow> bool" where
  "ecam_ok d \<longleftrightarrow> pe_base d = PCI_MMCONFIG_START \<and> pe_size d = PCI_MMCONFIG_SIZE \<and> length (pe_cfg d) = 4096 \<and>
     (\<forall>r. fixed_reg r \<longrightarrow> pe_cfg d ! r = pe_cfg pci_new ! r)"

lemma ecam_write_cases:
  "snd (ecam_write addr data d) = d \<or> (\<exists>r. snd (ecam_write addr data d) = d\<lparr>pe_cfg := cfg_write r data (pe_cfg d)\<rparr>)"
  by (auto simp: ecam_write_def split: option.split)

lemma ecam_ok_write: "ecam_ok d \<Longrightarrow> ecam_ok (snd (ecam_write addr data d))"
  using ecam_write_cases [of addr data d] by (auto simp: ecam_ok_def cfg_write_fixed)

lemma ecam_ok_new: "ecam_ok pci_new"
  by (simp add: ecam_ok_def pci_new_def)

interpretation ecam_bus: bus_device ecam_range ecam_write ecam_read ecam_ok
proof unfold_locales
  show "ecam_range (snd (ecam_write x data d)) = ecam_range d" for x data d
    using ecam_write_cases [of x data d] by (auto simp: ecam_range_def)
  show "length bs = length data" if "fst (ecam_read x data d) = Inr bs" for x data d bs
    using that by (auto simp: ecam_read_def split: option.split_asm if_split_asm)
qed (simp_all add: ecam_ok_write ecam_read_def)

interpretation msix_bus: bus_device msix_range msix_write msix_read "\<lambda>d. length (mx_table d) = 0x200"
  by unfold_locales (auto simp: msix_range_def msix_write_def msix_read_def)

interpretation ecam_runs: step_system "\<lambda>(addr, data) d. snd (ecam_write addr data d)" ecam_ok
  by unfold_locales (auto simp: ecam_ok_write)

section \<open>Properties\<close>

text \<open>What a driver reads of the capability list: the offset and the id of each entry, and a virtio entry's region.\<close>

fun cap_chain :: "nat \<Rightarrow> u8 list \<Rightarrow> nat \<Rightarrow> (nat \<times> u8) list" where
  "cap_chain 0 cfg off = []"
| "cap_chain (Suc n) cfg off = (if off = 0 then [] else (off, cfg ! off) # cap_chain n cfg (unat (cfg ! (off + 1))))"

definition virtio_region :: "u8 list \<Rightarrow> nat \<Rightarrow> u8 \<times> u32 \<times> u32" where
  "virtio_region cfg off =
     (cfg ! (off + 3), u32_from_le (map (\<lambda>i. cfg ! (off + 8 + i)) [0 ..< 4]), u32_from_le (map (\<lambda>i. cfg ! (off + 12 + i)) [0 ..< 4]))"

definition net_function :: u64 where
  "net_function = PCI_MMCONFIG_START + 0x8000"

lemma cap_chain_numeral:
  "cap_chain (numeral k) cfg off =
     (if off = 0 then [] else (off, cfg ! off) # cap_chain (pred_numeral k) cfg (unat (cfg ! (off + 1))))"
  by (simp add: numeral_eq_Suc)

lemmas pci_bytes = pci_new_def pci_caps_def pci_header_def write_virtio_cap_def write_msix_cap_def put_u16_def put_u32_def
  u16_to_le_def u32_to_le_def pci_consts Let_def

lemma unat_field:
  fixes w :: u64
  assumes "m \<le> 64"
  shows "unat (drop_bit k w AND mask m) = unat w div 2 ^ k mod 2 ^ m"
proof -
  have "unat (mask m :: u64) = mask m" by (rule bit_eqI) (use assms in \<open>auto simp: bit_simps\<close>)
  then have "unat (drop_bit k w AND mask m) = take_bit m (drop_bit k (unat w))"
    by (simp only: unsigned_and_eq unat_drop_bit_eq take_bit_eq_mask)
  then show ?thesis by (simp only: take_bit_eq_mod drop_bit_eq_div)
qed

lemma net_function_offset:
  assumes "r < 0x1000"
  shows "bdf_offset (net_function + of_nat r) = Some (0, 1, 0, r)"
proof -
  let ?rl = "0x8000 + of_nat r :: u64"
  have n: "unat ?rl = 0x8000 + r" using assms by (simp add: unat_add_no_wrap unat_of_nat)
  have a: "net_function + of_nat r - PCI_MMCONFIG_START = ?rl" by (simp add: net_function_def)
  have "unat (net_function + of_nat r) = 0xEEC08000 + r"
    using assms by (simp add: net_function_def pci_consts unat_add_no_wrap unat_of_nat)
  then have g: "\<not> net_function + of_nat r < PCI_MMCONFIG_START" by (simp add: word_less_nat_alt pci_consts)
  have l: "\<not> PCI_MMCONFIG_SIZE \<le> ?rl" using assms n by (simp add: word_le_nat_alt pci_consts)
  have p: "unat (drop_bit k ?rl AND mask m) = (0x8000 + r) div 2 ^ k mod 2 ^ m" if "m \<le> 64" for k m
    using unat_field [OF that, of k ?rl] n by simp
  have masks: "(0xff :: u64) = mask 8" "(0x1f :: u64) = mask 5" "(0x07 :: u64) = mask 3" "(0xfff :: u64) = mask 12"
    by (simp_all add: mask_numeral)
  have dv: "(32768 + r) div 4096 = 8" "(32768 + r) div 32768 = 1" "(32768 + r) div 1048576 = 0"
    by (rule div_nat_eqI; use assms in simp)+
  have "drop_bit 20 ?rl AND 0xff = 0" "drop_bit 15 ?rl AND 0x1f = 1" "drop_bit 12 ?rl AND 0x07 = 0"
    by (simp_all add: word_unat_eq_iff masks p dv)
  moreover have "(32768 + r) mod 4096 = r" using div_mult_mod_eq [of "32768 + r" 4096] dv(1) by simp
  then have "unat (?rl AND 0xfff) = r" using p [of 12 0] by (simp add: masks)
  ultimately show ?thesis using g l by (simp add: bdf_offset_def a Let_def)
qed

lemma read_net_function:
  assumes "length data = n" and "r + n \<le> length (pe_cfg d)" and "r < 0x1000"
  shows "fst (ecam_read (net_function + of_nat r) data d) = Inr (slice r (r + n) (pe_cfg d))"
proof -
  have "map (\<lambda>i. byte_or 0xff (pe_cfg d) (r + i)) [0 ..< n] = slice r (r + n) (pe_cfg d)"
    by (rule nth_equalityI) (use assms(2) in \<open>auto simp: byte_or_def\<close>)
  then show ?thesis by (simp add: ecam_read_def net_function_offset [OF assms(3)] assms(1))
qed

lemma write_net_function:
  "r < 0x1000 \<Longrightarrow> snd (ecam_write (net_function + of_nat r) data d) = d\<lparr>pe_cfg := cfg_write r data (pe_cfg d)\<rparr>"
  by (simp add: ecam_write_def net_function_offset)

lemma slice_put_same: "off + length bs \<le> length buf \<Longrightarrow> slice off (off + length bs) (put_bytes off bs buf) = bs"
  by (rule nth_equalityI) (auto simp: nth_put_bytes)

lemma upt4: "[0 ..< 4] = [0, 1, 2, 3 :: nat]"
  by code_simp

lemma slice_four: "off + 4 \<le> length xs \<Longrightarrow> slice off (off + 4) xs = map (\<lambda>i. xs ! (off + i)) [0 ..< 4]"
  by (rule nth_equalityI) auto

text \<open>
  The network function a guest finds on the PCI bus. Whatever was written before, its vendor and
  device ids and its capability list stay the same: the five entries are found in order and the four
  virtio entries describe regions inside the 4 KiB of BAR 0; every other function reads as absent; and
  the address register gives its size when it is probed and otherwise the aligned address written.
\<close>

theorem pci_function_stable:
  assumes "d = fold (\<lambda>(addr, data) d. snd (ecam_write addr data d)) ws pci_new"
  shows "fst (ecam_read net_function [x0, x1, x2, x3] d) = Inr [0xf4, 0x1a, 0x41, 0x10] \<and>
     cap_chain 8 (pe_cfg d) 0x40 = [(0x40, 9), (0x50, 9), (0x60, 9), (0x70, 9), (0x80, 0x11)] \<and>
     map (virtio_region (pe_cfg d)) [0x40, 0x50, 0x60, 0x70] =
       [(1, 0x000, 0x56), (2, 0x100, 0x10), (3, 0x200, 0x04), (4, 0x300, 0x100)] \<and>
     (\<forall>addr bs dv fn r. bdf_offset addr = Some (bs, dv, fn, r) \<and> (bs, dv, fn) \<noteq> (0, 1, 0) \<longrightarrow>
        fst (ecam_read addr data d) = Inr (replicate (length data) 0xff)) \<and>
     fst (ecam_read (net_function + 0x10) [x0, x1, x2, x3] (snd (ecam_write (net_function + 0x10) (u32_to_le a) d))) =
       Inr (u32_to_le (if a = 0xffffffff then NOT 0xfff else a AND NOT 0xfff))"
proof -
  have ok: "ecam_ok d" unfolding assms by (rule ecam_runs.invar_run) (rule ecam_ok_new)
  then have len: "length (pe_cfg d) = 4096" by (simp add: ecam_ok_def)
  have fx: "pe_cfg d ! r = pe_cfg pci_new ! r" if "fixed_reg r" for r using ok that by (simp add: ecam_ok_def)
  have "slice 0 4 (pe_cfg d) = [0xf4, 0x1a, 0x41, 0x10]"
    using slice_four [of 0 "pe_cfg d"] len by (simp add: upt4 fx fixed_reg_def pci_bytes nth_list_update)
  then have i: "fst (ecam_read net_function [x0, x1, x2, x3] d) = Inr [0xf4, 0x1a, 0x41, 0x10]"
    using read_net_function [of "[x0, x1, x2, x3]" 4 0 d] len by simp
  have c: "cap_chain 8 (pe_cfg d) 0x40 = [(0x40, 9), (0x50, 9), (0x60, 9), (0x70, 9), (0x80, 0x11)]"
    by (simp add: fx fixed_reg_def pci_bytes nth_list_update cap_chain_numeral)
  have v: "map (virtio_region (pe_cfg d)) [0x40, 0x50, 0x60, 0x70] =
       [(1, 0x000, 0x56), (2, 0x100, 0x10), (3, 0x200, 0x04), (4, 0x300, 0x100)]"
    by (simp add: virtio_region_def upt4 fx fixed_reg_def pci_bytes nth_list_update u32_from_le_def)
  have o: "fst (ecam_read addr data d) = Inr (replicate (length data) 0xff)"
    if "bdf_offset addr = Some (bs, dv, fn, r)" "(bs, dv, fn) \<noteq> (0, 1, 0)" for addr bs dv fn r
    using that by (auto simp: ecam_read_def)
  have "cfg_write 0x10 (u32_to_le a) (pe_cfg d) = put_u32 0x10 (if a = 0xffffffff then NOT 0xfff else a AND NOT 0xfff) (pe_cfg d)"
    by (simp add: cfg_write_def BAR0_SIZE_def Let_def)
  then have b: "fst (ecam_read (net_function + 0x10) [x0, x1, x2, x3] (snd (ecam_write (net_function + 0x10) (u32_to_le a) d))) =
       Inr (u32_to_le (if a = 0xffffffff then NOT 0xfff else a AND NOT 0xfff))"
    using write_net_function [of "0x10" "u32_to_le a" d] len slice_put_same [of "0x10" "u32_to_le (if a = 0xffffffff then NOT 0xfff else a AND NOT 0xfff)" "pe_cfg d"]
      read_net_function [of "[x0, x1, x2, x3]" 4 "0x10" "d\<lparr>pe_cfg := cfg_write 0x10 (u32_to_le a) (pe_cfg d)\<rparr>"]
    by (simp add: put_u32_def)
  show ?thesis using i c v o b by blast
qed

theorem pci_function_stable_witness:
  "\<exists>d. d = snd (ecam_write (net_function + 0x44) [1, 2, 3, 4] (snd (ecam_write (net_function + 0x10) [0, 0, 0, 0xc0] pci_new))) \<and>
     fst (ecam_read net_function [0, 0, 0, 0] d) = Inr [0xf4, 0x1a, 0x41, 0x10] \<and>
     cap_chain 8 (pe_cfg d) 0x40 = [(0x40, 9), (0x50, 9), (0x60, 9), (0x70, 9), (0x80, 0x11)]"
proof -
  let ?ws = "[(net_function + 0x10, [0, 0, 0, 0xc0]), (net_function + 0x44, [1, 2, 3, 4])]"
  have "fold (\<lambda>(addr, data) d. snd (ecam_write addr data d)) ?ws pci_new =
      snd (ecam_write (net_function + 0x44) [1, 2, 3, 4] (snd (ecam_write (net_function + 0x10) [0, 0, 0, 0xc0] pci_new)))"
    by simp
  from pci_function_stable [OF this [symmetric]] show ?thesis by blast
qed

section \<open>Gaps\<close>

text \<open>
  The notify multiplier a driver reads behind the notify capability is not the 4 that was written
  there: the ISR capability starts at the same offset and is written over it.
\<close>

lemma pci_notify_multiplier_lost: "u32_from_le (map (\<lambda>i. pe_cfg pci_new ! (CAP_NOTIFY_CFG + 16 + i)) [0 ..< 4]) = 0x03107009"
  by (simp add: upt4 pci_bytes nth_list_update u32_from_le_def)

text \<open>
  Sizing an address register that does not exist reads back all ones, which a driver takes for an I/O
  register; an unused register must read zero.
\<close>

lemma pci_unused_bar_probe:
  "fst (ecam_read (net_function + 0x14) [0, 0, 0, 0] (snd (ecam_write (net_function + 0x14) [0xff, 0xff, 0xff, 0xff] pci_new))) =
     Inr [0xff, 0xff, 0xff, 0xff]"
proof -
  let ?c = "cfg_write 0x14 [0xff, 0xff, 0xff, 0xff] (pe_cfg pci_new)"
  have len: "length (pe_cfg pci_new) = 4096" by (simp add: pci_new_def)
  have "?c = (pe_cfg pci_new)[0x14 := 0xff, 0x15 := 0xff, 0x16 := 0xff, 0x17 := 0xff]"
    using len by (simp add: cfg_write_def guest_writable_def)
  then have "slice 0x14 (0x14 + 4) ?c = [0xff, 0xff, 0xff, 0xff]"
    using slice_four [of "0x14" ?c] len by (simp add: upt4 nth_list_update)
  then show ?thesis
    using write_net_function [of "0x14" "[0xff, 0xff, 0xff, 0xff]" pci_new] len
      read_net_function [of "[0, 0, 0, 0]" 4 "0x14" "pci_new\<lparr>pe_cfg := ?c\<rparr>"] by simp
qed

end
