(* ===== verification/Vm_Config.thy ===== *)
theory Vm_Config
  imports Rust_Text Virtio_Mmio
begin

text \<open>
  The configuration of a machine and its command line (\<^verbatim>\<open>fluxvm-hypervisor/src/config.rs\<close>): the options, the
  checks of \<^verbatim>\<open>validate\<close> and the derived sizes. Paths are strings, the environment variable is an
  argument, and \<^verbatim>\<open>--help\<close>, which ends the process, is an outcome of its own.
\<close>

section \<open>Configuration\<close>

datatype GuestKind = Linux | Windows

record VmConfig =
  vc_memory_mib :: u32
  vc_cpus :: u8
  vc_guest :: GuestKind
  vc_kernel :: "string option"
  vc_initrd :: "string option"
  vc_disk :: "string option"
  vc_tap :: "string option"
  vc_mac :: string
  vc_vhost_net :: bool
  vc_net_queues :: u8
  vc_net_queue_pairs :: u8
  vc_cmdline :: string
  vc_firmware :: "string option"
  vc_net_mbit_limit :: u32
  vc_blk_mbit_limit :: u32
  vc_dry_run :: bool
  vc_print_host_net :: bool
  vc_gdb :: "string option"
  vc_vsock_cid :: "u32 option"
  vc_vsock_uds :: "string option"
  vc_balloon :: bool
  vc_rng :: bool
  vc_acpi :: bool
  vc_pci :: bool
  vc_jailer :: bool
  vc_max_cpus :: u8
  vc_shared_dirs :: "(string \<times> string) list"
  vc_extra_disks :: "string list"

definition config_default :: VmConfig where
  "config_default =
     \<lparr>vc_memory_mib = 256, vc_cpus = 1, vc_guest = Linux, vc_kernel = None, vc_initrd = None, vc_disk = None, vc_tap = None,
      vc_mac = ''02:00:00:00:00:01'', vc_vhost_net = True, vc_net_queues = 1, vc_net_queue_pairs = 1,
      vc_cmdline = ''console=ttyS0 reboot=k panic=1 pci=off'', vc_firmware = None, vc_net_mbit_limit = 0, vc_blk_mbit_limit = 0,
      vc_dry_run = False, vc_print_host_net = False, vc_gdb = None, vc_vsock_cid = None, vc_vsock_uds = None, vc_balloon = True,
      vc_rng = True, vc_acpi = True, vc_pci = False, vc_jailer = False, vc_max_cpus = 1, vc_shared_dirs = [], vc_extra_disks = []\<rparr>"

definition validate :: "VmConfig \<Rightarrow> unit result" where
  "validate c =
     (if (vc_vsock_cid c \<noteq> None) \<noteq> (vc_vsock_uds c \<noteq> None)
      then Inl (Unsupported ''vsock_cid and vsock_uds must be configured together'')
      else if vc_cpus c = 0 \<or> 32 < vc_cpus c then Inl (Unsupported ''cpus must be 1..=32'')
      else if vc_max_cpus c < vc_cpus c \<or> 8 < vc_max_cpus c then Inl (Unsupported ''max_cpus must be cpus..=8'')
      else if vc_net_queue_pairs c = 0 \<or> ucast NET_MAX_QUEUE_PAIRS < vc_net_queue_pairs c
        then Inl (Unsupported (''net-queue-pairs must be 1..='' @ dec_string (unat NET_MAX_QUEUE_PAIRS)))
      else if vc_memory_mib c < 64 then Inl (Unsupported ''memory-mib must be >= 64'')
      else Inr ())"

definition memory_bytes :: "VmConfig \<Rightarrow> nat" where
  "memory_bytes c = unat (vc_memory_mib c) * 1024 * 1024"

definition effective_net_queue_pairs :: "string option \<Rightarrow> VmConfig \<Rightarrow> u8" where
  "effective_net_queue_pairs env c =
     (let raw = (case Option.bind env (\<lambda>v. from_str_radix 10 256 (trim v)) of
                   Some n \<Rightarrow> of_nat n | None \<Rightarrow> vc_net_queue_pairs c)
      in max 1 (min raw (ucast NET_MAX_QUEUE_PAIRS)))"

definition vhost_net_enabled :: "bool \<Rightarrow> VmConfig \<Rightarrow> bool" where
  "vhost_net_enabled env_on c \<longleftrightarrow> vc_vhost_net c \<and> env_on"

section \<open>Options\<close>

definition req :: "string \<Rightarrow> string list \<Rightarrow> (string \<times> string list) result" where
  "req flag args = (case args of [] \<Rightarrow> Inl (Unsupported (flag @ '' needs a value'')) | v # rst \<Rightarrow> Inr (v, rst))"

text \<open>\<^verbatim>\<open>FromStr\<close> of the unsigned types with the messages of its errors.\<close>

fun digits_loop :: "nat \<Rightarrow> nat \<Rightarrow> string \<Rightarrow> string + nat" where
  "digits_loop bound acc [] = Inr acc"
| "digits_loop bound acc (c # cs) =
     (if \<not> is_digit_c c then Inl ''invalid digit found in string''
      else let n = acc * 10 + (byte_of c - 48)
           in if bound \<le> n then Inl ''number too large to fit in target type'' else digits_loop bound n cs)"

definition parse_uint :: "nat \<Rightarrow> string \<Rightarrow> string + nat" where
  "parse_uint bound s =
     (case s of
        [] \<Rightarrow> Inl ''cannot parse integer from empty string''
      | c # cs \<Rightarrow>
          if (c = CHR ''+'' \<or> c = CHR ''-'') \<and> cs = [] then Inl ''invalid digit found in string''
          else if c = CHR ''+'' then digits_loop bound 0 cs
          else digits_loop bound 0 s)"

definition parse_next :: "nat \<Rightarrow> string \<Rightarrow> string list \<Rightarrow> (nat \<times> string list) result" where
  "parse_next bound flag args =
     rbind (req flag args) (\<lambda>(v, rst).
       case parse_uint bound v of
         Inl e \<Rightarrow> Inl (Unsupported (flag @ '': '' @ e))
       | Inr n \<Rightarrow> Inr (n, rst))"

definition next_u8 :: "string \<Rightarrow> (u8 \<Rightarrow> VmConfig) \<Rightarrow> string list \<Rightarrow> (VmConfig \<times> string list) result" where
  "next_u8 flag k args = rbind (parse_next (2 ^ 8) flag args) (\<lambda>(n, rst). Inr (k (of_nat n), rst))"

definition next_u32 :: "string \<Rightarrow> (u32 \<Rightarrow> VmConfig) \<Rightarrow> string list \<Rightarrow> (VmConfig \<times> string list) result" where
  "next_u32 flag k args = rbind (parse_next (2 ^ 32) flag args) (\<lambda>(n, rst). Inr (k (of_nat n), rst))"

definition next_str :: "string \<Rightarrow> (string \<Rightarrow> VmConfig) \<Rightarrow> string list \<Rightarrow> (VmConfig \<times> string list) result" where
  "next_str flag k args = rbind (req flag args) (\<lambda>(v, rst). Inr (k v, rst))"

definition set_cpus :: "VmConfig \<Rightarrow> u8 \<Rightarrow> VmConfig" where
  "set_cpus c n = (let c = c\<lparr>vc_cpus := n\<rparr> in if vc_max_cpus c < n then c\<lparr>vc_max_cpus := n\<rparr> else c)"

definition add_shared :: "VmConfig \<Rightarrow> string \<Rightarrow> VmConfig" where
  "add_shared c raw =
     (let entry = (if CHR ''='' \<in> set raw
                   then (takeWhile (\<lambda>x. x \<noteq> CHR ''='') raw, tl (dropWhile (\<lambda>x. x \<noteq> CHR ''='') raw))
                   else (''fs'' @ dec_string (length (vc_shared_dirs c)), raw))
      in c\<lparr>vc_shared_dirs := vc_shared_dirs c @ [entry]\<rparr>)"

definition next_guest :: "VmConfig \<Rightarrow> string list \<Rightarrow> (VmConfig \<times> string list) result" where
  "next_guest c args =
     rbind (req ''--guest'' args) (\<lambda>(v, rst).
       if v = ''linux'' then Inr (c\<lparr>vc_guest := Linux\<rparr>, rst)
       else if v = ''windows'' then Inr (c\<lparr>vc_guest := Windows\<rparr>, rst)
       else Inl (Unsupported ''guest must be linux|windows''))"

definition arg_step :: "string \<Rightarrow> string list \<Rightarrow> VmConfig \<Rightarrow> (VmConfig \<times> string list) result" where
  "arg_step a args c =
     (if a = ''--memory-mib'' then next_u32 a (\<lambda>n. c\<lparr>vc_memory_mib := n\<rparr>) args
      else if a = ''--cpus'' then next_u8 a (set_cpus c) args
      else if a = ''--max-cpus'' then next_u8 a (\<lambda>n. c\<lparr>vc_max_cpus := n\<rparr>) args
      else if a = ''--guest'' then next_guest c args
      else if a = ''--kernel'' then next_str a (\<lambda>v. c\<lparr>vc_kernel := Some v\<rparr>) args
      else if a = ''--initrd'' then next_str a (\<lambda>v. c\<lparr>vc_initrd := Some v\<rparr>) args
      else if a = ''--disk'' then next_str a (\<lambda>v. c\<lparr>vc_disk := Some v\<rparr>) args
      else if a = ''--extra-disk'' then next_str a (\<lambda>v. c\<lparr>vc_extra_disks := vc_extra_disks c @ [v]\<rparr>) args
      else if a = ''--shared-dir'' then next_str a (add_shared c) args
      else if a = ''--tap'' then next_str a (\<lambda>v. c\<lparr>vc_tap := Some v\<rparr>) args
      else if a = ''--mac'' then next_str a (\<lambda>v. c\<lparr>vc_mac := v\<rparr>) args
      else if a = ''--vhost-net'' then Inr (c\<lparr>vc_vhost_net := True\<rparr>, args)
      else if a = ''--no-vhost-net'' then Inr (c\<lparr>vc_vhost_net := False\<rparr>, args)
      else if a = ''--net-queues'' then next_u8 a (\<lambda>n. c\<lparr>vc_net_queues := n\<rparr>) args
      else if a = ''--net-queue-pairs'' then next_u8 a (\<lambda>n. c\<lparr>vc_net_queue_pairs := n\<rparr>) args
      else if a = ''--cmdline'' then next_str a (\<lambda>v. c\<lparr>vc_cmdline := v\<rparr>) args
      else if a = ''--firmware'' then next_str a (\<lambda>v. c\<lparr>vc_firmware := Some v\<rparr>) args
      else if a = ''--net-mbit-limit'' then next_u32 a (\<lambda>n. c\<lparr>vc_net_mbit_limit := n\<rparr>) args
      else if a = ''--blk-mbit-limit'' then next_u32 a (\<lambda>n. c\<lparr>vc_blk_mbit_limit := n\<rparr>) args
      else if a = ''--vsock-cid'' then next_u32 a (\<lambda>n. c\<lparr>vc_vsock_cid := Some n\<rparr>) args
      else if a = ''--vsock-uds'' then next_str a (\<lambda>v. c\<lparr>vc_vsock_uds := Some v\<rparr>) args
      else if a = ''--no-balloon'' then Inr (c\<lparr>vc_balloon := False\<rparr>, args)
      else if a = ''--no-rng'' then Inr (c\<lparr>vc_rng := False\<rparr>, args)
      else if a = ''--no-acpi'' then Inr (c\<lparr>vc_acpi := False\<rparr>, args)
      else if a = ''--pci'' then Inr (c\<lparr>vc_pci := True\<rparr>, args)
      else if a = ''--jailer'' then Inr (c\<lparr>vc_jailer := True\<rparr>, args)
      else if a = ''--dry-run'' then Inr (c\<lparr>vc_dry_run := True\<rparr>, args)
      else if a = ''--print-host-net'' then Inr (c\<lparr>vc_print_host_net := True\<rparr>, args)
      else if a = ''--gdb'' then next_str a (\<lambda>v. c\<lparr>vc_gdb := Some v\<rparr>) args
      else Inl (Unsupported (''unknown arg '' @ a)))"

datatype ArgsOutcome = Help_Exit | Args_Error FluxError | Config VmConfig

lemma req_shorter: "req flag args = Inr (v, rst) \<Longrightarrow> length rst < length args"
  by (auto simp: req_def split: list.split_asm)

lemma parse_next_eq: "parse_next bound flag args = Inr (n, rst) \<longleftrightarrow> (\<exists>v. req flag args = Inr (v, rst) \<and> parse_uint bound v = Inr n)"
  by (cases "req flag args") (auto simp: parse_next_def split: sum.split sum.split_asm)

lemma next_shorter:
  "next_u8 flag k8 args = Inr (c, rst) \<Longrightarrow> length rst < length args"
  "next_u32 flag k32 args = Inr (c, rst) \<Longrightarrow> length rst < length args"
  "next_str flag k args = Inr (c, rst) \<Longrightarrow> length rst < length args"
  "next_guest c' args = Inr (c, rst) \<Longrightarrow> length rst < length args"
  by (auto simp: next_u8_def next_u32_def next_str_def next_guest_def parse_next_eq result_simps dest: req_shorter
      split: if_split_asm)

lemma arg_step_shorter: "arg_step a args c = Inr (c', rst) \<Longrightarrow> length rst \<le> length args"
  unfolding arg_step_def by (auto split: if_split_asm dest!: next_shorter)

function args_loop :: "string list \<Rightarrow> VmConfig \<Rightarrow> ArgsOutcome" where
  "args_loop [] c = (case validate c of Inl e \<Rightarrow> Args_Error e | Inr _ \<Rightarrow> Config c)"
| "args_loop (a # args) c =
     (if a = ''-h'' \<or> a = ''--help'' then Help_Exit
      else case arg_step a args c of Inl e \<Rightarrow> Args_Error e | Inr (c', rst) \<Rightarrow> args_loop rst c')"
  by pat_completeness auto
termination by (relation "measure (\<lambda>(args, c). length args)") (auto dest: arg_step_shorter)

definition from_args :: "string list \<Rightarrow> ArgsOutcome" where
  "from_args argv = args_loop (tl argv) config_default"

section \<open>Writing a configuration as options\<close>

definition opt_arg :: "string \<Rightarrow> string option \<Rightarrow> string list" where
  "opt_arg flag x = (case x of None \<Rightarrow> [] | Some v \<Rightarrow> [flag, v])"

definition flag_arg :: "string \<Rightarrow> bool \<Rightarrow> string list" where
  "flag_arg flag b = (if b then [flag] else [])"

definition guest_name :: "GuestKind \<Rightarrow> string" where
  "guest_name g = (case g of Linux \<Rightarrow> ''linux'' | Windows \<Rightarrow> ''windows'')"

definition to_args :: "VmConfig \<Rightarrow> string list" where
  "to_args c =
     [''--memory-mib'', dec_string (unat (vc_memory_mib c)), ''--cpus'', dec_string (unat (vc_cpus c)),
      ''--max-cpus'', dec_string (unat (vc_max_cpus c)), ''--guest'', guest_name (vc_guest c)] @
     opt_arg ''--kernel'' (vc_kernel c) @ opt_arg ''--initrd'' (vc_initrd c) @ opt_arg ''--disk'' (vc_disk c) @
     opt_arg ''--tap'' (vc_tap c) @
     [''--mac'', vc_mac c, (if vc_vhost_net c then ''--vhost-net'' else ''--no-vhost-net''),
      ''--net-queues'', dec_string (unat (vc_net_queues c)), ''--net-queue-pairs'', dec_string (unat (vc_net_queue_pairs c)),
      ''--cmdline'', vc_cmdline c] @
     opt_arg ''--firmware'' (vc_firmware c) @
     [''--net-mbit-limit'', dec_string (unat (vc_net_mbit_limit c)), ''--blk-mbit-limit'', dec_string (unat (vc_blk_mbit_limit c))] @
     opt_arg ''--vsock-cid'' (map_option (\<lambda>n. dec_string (unat n)) (vc_vsock_cid c)) @ opt_arg ''--vsock-uds'' (vc_vsock_uds c) @
     flag_arg ''--no-balloon'' (\<not> vc_balloon c) @ flag_arg ''--no-rng'' (\<not> vc_rng c) @ flag_arg ''--no-acpi'' (\<not> vc_acpi c) @
     flag_arg ''--pci'' (vc_pci c) @ flag_arg ''--jailer'' (vc_jailer c) @ flag_arg ''--dry-run'' (vc_dry_run c) @
     flag_arg ''--print-host-net'' (vc_print_host_net c) @ opt_arg ''--gdb'' (vc_gdb c) @
     concat (map (\<lambda>(t, p). [''--shared-dir'', t @ ''='' @ p]) (vc_shared_dirs c)) @
     concat (map (\<lambda>p. [''--extra-disk'', p]) (vc_extra_disks c))"

lemma digits_loop_append:
  "digits_loop bound acc (s @ t) = (case digits_loop bound acc s of Inl e \<Rightarrow> Inl e | Inr n \<Rightarrow> digits_loop bound n t)"
  by (induction s arbitrary: acc) (simp_all add: Let_def)

lemma digit_char_val: "d < 10 \<Longrightarrow> is_digit_c (digit_char d) \<and> byte_of (digit_char d) - 48 = d"
  by (simp add: is_digit_c_def digit_char_def)

lemma digits_loop_dec: "n < bound \<Longrightarrow> digits_loop bound 0 (dec_string n) = Inr n"
proof (induction n rule: dec_string.induct)
  case (1 n)
  show ?case
  proof (cases "n < 10")
    case False
    then have "digits_loop bound 0 (dec_string (n div 10)) = Inr (n div 10)" using 1 by simp
    then show ?thesis using False 1(2) digit_char_val [of "n mod 10"]
      by (subst dec_string.simps) (simp add: digits_loop_append Let_def)
  qed (use 1(2) digit_char_val [of n] in \<open>simp add: dec_string.simps [of n] Let_def\<close>)
qed

lemma parse_uint_dec: "n < bound \<Longrightarrow> parse_uint bound (dec_string n) = Inr n"
  using dec_string_head [of n] digits_loop_dec [of n bound] by (auto simp: parse_uint_def is_digit_c_def)

text \<open>What each option does, as a rule of \<^const>\<open>args_loop\<close>.\<close>

lemma next_dec:
  "next_u8 flag k8 (dec_string (unat a) # rst) = Inr (k8 a, rst)"
  "next_u32 flag k32 (dec_string (unat b) # rst) = Inr (k32 b, rst)"
  using unat_bounds(1) [of a] unat_bounds(3) [of b]
  by (simp_all add: next_u8_def next_u32_def parse_next_def req_def parse_uint_dec)

lemma next_str_Cons: "next_str flag k (v # rst) = Inr (k v, rst)"
  by (simp add: next_str_def req_def)

lemma next_guest_name: "next_guest c (guest_name g # rst) = Inr (c\<lparr>vc_guest := g\<rparr>, rst)"
  by (cases g) (simp_all add: next_guest_def req_def guest_name_def)

lemmas arg_values = next_dec next_str_Cons next_guest_name

lemma loop_numbers:
  "args_loop (''--memory-mib'' # dec_string (unat a) # rst) c = args_loop rst (c\<lparr>vc_memory_mib := a\<rparr>)"
  "args_loop (''--cpus'' # dec_string (unat b) # ''--max-cpus'' # dec_string (unat d) # rst) c =
     args_loop rst (c\<lparr>vc_cpus := b, vc_max_cpus := d\<rparr>)"
  "args_loop (''--net-queues'' # dec_string (unat b) # rst) c = args_loop rst (c\<lparr>vc_net_queues := b\<rparr>)"
  "args_loop (''--net-queue-pairs'' # dec_string (unat b) # rst) c = args_loop rst (c\<lparr>vc_net_queue_pairs := b\<rparr>)"
  "args_loop (''--net-mbit-limit'' # dec_string (unat a) # rst) c = args_loop rst (c\<lparr>vc_net_mbit_limit := a\<rparr>)"
  "args_loop (''--blk-mbit-limit'' # dec_string (unat a) # rst) c = args_loop rst (c\<lparr>vc_blk_mbit_limit := a\<rparr>)"
  "args_loop (''--guest'' # guest_name g # rst) c = args_loop rst (c\<lparr>vc_guest := g\<rparr>)"
  "args_loop (''--mac'' # v # rst) c = args_loop rst (c\<lparr>vc_mac := v\<rparr>)"
  "args_loop (''--cmdline'' # v # rst) c = args_loop rst (c\<lparr>vc_cmdline := v\<rparr>)"
  "args_loop (''--extra-disk'' # v # rst) c = args_loop rst (c\<lparr>vc_extra_disks := vc_extra_disks c @ [v]\<rparr>)"
  "args_loop (''--shared-dir'' # v # rst) c = args_loop rst (add_shared c v)"
  "args_loop ((if h then ''--vhost-net'' else ''--no-vhost-net'') # rst) c = args_loop rst (c\<lparr>vc_vhost_net := h\<rparr>)"
  by (simp_all add: arg_step_def arg_values set_cpus_def Let_def)

lemma update_same:
  "vc_kernel c = None \<Longrightarrow> c\<lparr>vc_kernel := None\<rparr> = c" "vc_initrd c = None \<Longrightarrow> c\<lparr>vc_initrd := None\<rparr> = c"
  "vc_disk c = None \<Longrightarrow> c\<lparr>vc_disk := None\<rparr> = c" "vc_tap c = None \<Longrightarrow> c\<lparr>vc_tap := None\<rparr> = c"
  "vc_firmware c = None \<Longrightarrow> c\<lparr>vc_firmware := None\<rparr> = c" "vc_vsock_uds c = None \<Longrightarrow> c\<lparr>vc_vsock_uds := None\<rparr> = c"
  "vc_gdb c = None \<Longrightarrow> c\<lparr>vc_gdb := None\<rparr> = c" "vc_vsock_cid c = None \<Longrightarrow> c\<lparr>vc_vsock_cid := None\<rparr> = c"
  "vc_balloon c \<Longrightarrow> c\<lparr>vc_balloon := True\<rparr> = c" "vc_rng c \<Longrightarrow> c\<lparr>vc_rng := True\<rparr> = c"
  "vc_acpi c \<Longrightarrow> c\<lparr>vc_acpi := True\<rparr> = c" "\<not> vc_pci c \<Longrightarrow> c\<lparr>vc_pci := False\<rparr> = c"
  "\<not> vc_jailer c \<Longrightarrow> c\<lparr>vc_jailer := False\<rparr> = c" "\<not> vc_dry_run c \<Longrightarrow> c\<lparr>vc_dry_run := False\<rparr> = c"
  "\<not> vc_print_host_net c \<Longrightarrow> c\<lparr>vc_print_host_net := False\<rparr> = c"
  by (cases c; simp)+

lemma loop_options:
  "vc_kernel c = None \<Longrightarrow> args_loop (opt_arg ''--kernel'' x @ rst) c = args_loop rst (c\<lparr>vc_kernel := x\<rparr>)"
  "vc_initrd c = None \<Longrightarrow> args_loop (opt_arg ''--initrd'' x @ rst) c = args_loop rst (c\<lparr>vc_initrd := x\<rparr>)"
  "vc_disk c = None \<Longrightarrow> args_loop (opt_arg ''--disk'' x @ rst) c = args_loop rst (c\<lparr>vc_disk := x\<rparr>)"
  "vc_tap c = None \<Longrightarrow> args_loop (opt_arg ''--tap'' x @ rst) c = args_loop rst (c\<lparr>vc_tap := x\<rparr>)"
  "vc_firmware c = None \<Longrightarrow> args_loop (opt_arg ''--firmware'' x @ rst) c = args_loop rst (c\<lparr>vc_firmware := x\<rparr>)"
  "vc_vsock_uds c = None \<Longrightarrow> args_loop (opt_arg ''--vsock-uds'' x @ rst) c = args_loop rst (c\<lparr>vc_vsock_uds := x\<rparr>)"
  "vc_gdb c = None \<Longrightarrow> args_loop (opt_arg ''--gdb'' x @ rst) c = args_loop rst (c\<lparr>vc_gdb := x\<rparr>)"
  "vc_vsock_cid c = None \<Longrightarrow> args_loop (opt_arg ''--vsock-cid'' (map_option (\<lambda>n. dec_string (unat n)) y) @ rst) c =
     args_loop rst (c\<lparr>vc_vsock_cid := y\<rparr>)"
  by (cases x; cases y; simp add: opt_arg_def arg_step_def arg_values update_same)+

lemma loop_flags:
  "vc_balloon c \<Longrightarrow> args_loop (flag_arg ''--no-balloon'' (\<not> b) @ rst) c = args_loop rst (c\<lparr>vc_balloon := b\<rparr>)"
  "vc_rng c \<Longrightarrow> args_loop (flag_arg ''--no-rng'' (\<not> b) @ rst) c = args_loop rst (c\<lparr>vc_rng := b\<rparr>)"
  "vc_acpi c \<Longrightarrow> args_loop (flag_arg ''--no-acpi'' (\<not> b) @ rst) c = args_loop rst (c\<lparr>vc_acpi := b\<rparr>)"
  "\<not> vc_pci c \<Longrightarrow> args_loop (flag_arg ''--pci'' b @ rst) c = args_loop rst (c\<lparr>vc_pci := b\<rparr>)"
  "\<not> vc_jailer c \<Longrightarrow> args_loop (flag_arg ''--jailer'' b @ rst) c = args_loop rst (c\<lparr>vc_jailer := b\<rparr>)"
  "\<not> vc_dry_run c \<Longrightarrow> args_loop (flag_arg ''--dry-run'' b @ rst) c = args_loop rst (c\<lparr>vc_dry_run := b\<rparr>)"
  "\<not> vc_print_host_net c \<Longrightarrow> args_loop (flag_arg ''--print-host-net'' b @ rst) c = args_loop rst (c\<lparr>vc_print_host_net := b\<rparr>)"
  by (cases b; simp add: flag_arg_def arg_step_def update_same)+

lemma default_fields:
  "vc_kernel config_default = None" "vc_initrd config_default = None" "vc_disk config_default = None" "vc_tap config_default = None"
  "vc_firmware config_default = None" "vc_vsock_cid config_default = None" "vc_vsock_uds config_default = None"
  "vc_gdb config_default = None" "vc_balloon config_default" "vc_rng config_default" "vc_acpi config_default"
  "\<not> vc_pci config_default" "\<not> vc_jailer config_default" "\<not> vc_dry_run config_default" "\<not> vc_print_host_net config_default"
  "vc_shared_dirs config_default = []" "vc_extra_disks config_default = []"
  by (simp_all add: config_default_def)

lemma add_shared_tagged:
  assumes "CHR ''='' \<notin> set t"
  shows "add_shared c (t @ CHR ''='' # p) = c\<lparr>vc_shared_dirs := vc_shared_dirs c @ [(t, p)]\<rparr>"
proof -
  have "\<forall>x \<in> set t. x \<noteq> CHR ''=''" using assms by auto
  then show ?thesis by (simp add: add_shared_def takeWhile_append2 dropWhile_append2)
qed

lemma loop_shared:
  assumes "\<forall>(t, p) \<in> set ds. CHR ''='' \<notin> set t"
  shows "args_loop (concat (map (\<lambda>(t, p). [''--shared-dir'', t @ CHR ''='' # p]) ds) @ rst) c =
    args_loop rst (c\<lparr>vc_shared_dirs := vc_shared_dirs c @ ds\<rparr>)"
  using assms
proof (induction ds arbitrary: c)
  case (Cons d ds)
  then show ?case by (cases d) (simp add: loop_numbers add_shared_tagged del: args_loop.simps)
qed simp

lemma loop_extra:
  "args_loop (concat (map (\<lambda>p. [''--extra-disk'', p]) ds)) c = args_loop [] (c\<lparr>vc_extra_disks := vc_extra_disks c @ ds\<rparr>)"
  by (induction ds arbitrary: c) (simp_all add: loop_numbers del: args_loop.simps)

text \<open>
  C34. Every valid configuration can be written as options: parsing the options \<open>to_args\<close> writes for it gives back
  exactly that configuration, whatever its fields, if no tag of a shared directory contains an equals
  sign.
\<close>

theorem config_args_roundtrip:
  assumes "validate c = Inr ()" and "\<forall>(t, p) \<in> set (vc_shared_dirs c). CHR ''='' \<notin> set t"
  shows "from_args (prog # to_args c) = Config c"
proof -
  have "args_loop (to_args c) config_default = args_loop [] c"
    by (simp add: to_args_def default_fields loop_numbers loop_options loop_flags loop_shared [OF assms(2)] loop_extra
        del: args_loop.simps) (rule arg_cong [where f = "args_loop []"], simp add: config_default_def)
  then show ?thesis using assms(1) by (simp add: from_args_def)
qed

theorem config_args_roundtrip_witness:
  "from_args (''fluxvm'' # to_args (config_default\<lparr>vc_cpus := 2, vc_max_cpus := 4, vc_shared_dirs := [(''src'', ''/a=b'')], vc_pci := True\<rparr>)) =
     Config (config_default\<lparr>vc_cpus := 2, vc_max_cpus := 4, vc_shared_dirs := [(''src'', ''/a=b'')], vc_pci := True\<rparr>)"
  by (rule config_args_roundtrip) (simp_all add: validate_def config_default_def NET_MAX_QUEUE_PAIRS_def)

end
