(* ===== verification/Machine.thy ===== *)
theory Machine
  imports Pci Vm_Config Serial Cmos
begin

text \<open>
  The machine a configuration boots (\<^verbatim>\<open>fluxvm-hypervisor/src/vm.rs\<close> and the kernel command line of
  \<^verbatim>\<open>boot.rs\<close>): which devices \<^verbatim>\<open>from_boot_config\<close> puts on the bus, in which order, and what the guest is
  told about them. Opening the disk image and the vsock socket and the eventfds of the devices are
  arguments; loading the kernel, the tap and vhost-net are not modelled.
\<close>

section \<open>Addresses\<close>

fun parse_octets :: "string list \<Rightarrow> u8 list option" where
  "parse_octets [] = Some []"
| "parse_octets (p # ps) =
     (case from_str_radix 16 256 p of
        None \<Rightarrow> None
      | Some n \<Rightarrow> map_option (\<lambda>bs. of_nat n # bs) (parse_octets ps))"

definition net_parse_mac :: "string \<Rightarrow> u8 list result" where
  "net_parse_mac s =
     (let parts = split_on CHR '':'' s in
      if length parts \<noteq> 6 then Inl (Network (''bad MAC '' @ s))
      else case parse_octets parts of None \<Rightarrow> Inl (Network (''bad MAC '' @ s)) | Some m \<Rightarrow> Inr m)"

section \<open>The command line\<close>

fun hex_string :: "nat \<Rightarrow> string" where
  "hex_string n = (if n < 16 then [hex_digit n] else hex_string (n div 16) @ [hex_digit (n mod 16)])"

declare hex_string.simps [simp del]

fun contains :: "string \<Rightarrow> string \<Rightarrow> bool" where
  "contains pat [] \<longleftrightarrow> pat = []"
| "contains pat (c # cs) \<longleftrightarrow> strip_prefix pat (c # cs) \<noteq> None \<or> contains pat cs"

type_synonym mmio_slot = "u64 \<times> u64 \<times> u32"

definition advertised :: "u64 \<Rightarrow> string \<Rightarrow> bool" where
  "advertised base cmd \<longleftrightarrow>
     (let h = hex_string (unat base) in
      contains (''@0x'' @ h @ '':'') cmd \<or> contains (''@0x'' @ replicate (8 - length h) CHR ''0'' @ h @ '':'') cmd \<or>
      contains (''@0x'' @ h @ '':'') cmd)"

definition advertise :: "mmio_slot \<Rightarrow> string \<Rightarrow> string" where
  "advertise dev cmd =
     (case dev of
        (base, len, irqn) \<Rightarrow>
          if advertised base cmd then cmd
          else (if cmd = [] then cmd else cmd @ '' '') @ ''virtio_mmio.device=0x'' @ hex_string (unat len) @ ''@0x'' @
               hex_string (unat base) @ '':'' @ dec_string (unat irqn))"

definition append_virtio_mmio_cmdline :: "string \<Rightarrow> mmio_slot list \<Rightarrow> string" where
  "append_virtio_mmio_cmdline cmdline devices = fold advertise devices (trim cmdline)"

definition MMIO_BLK_WINDOW :: u64 where "MMIO_BLK_WINDOW = MMIO_WINDOW + MMIO_LEN"
definition MMIO_VSOCK_WINDOW :: u64 where "MMIO_VSOCK_WINDOW = MMIO_WINDOW + MMIO_LEN * 2"
definition MMIO_BALLOON_WINDOW :: u64 where "MMIO_BALLOON_WINDOW = MMIO_WINDOW + MMIO_LEN * 3"
definition MMIO_RNG_WINDOW :: u64 where "MMIO_RNG_WINDOW = MMIO_WINDOW + MMIO_LEN * 4"

definition mmio_devs :: "VmConfig \<Rightarrow> mmio_slot list" where
  "mmio_devs c =
     [(MMIO_WINDOW, MMIO_LEN, 5)] @
     (if vc_disk c \<noteq> None then [(MMIO_BLK_WINDOW, MMIO_LEN, 6)] else []) @
     (if vc_vsock_cid c \<noteq> None \<and> vc_vsock_uds c \<noteq> None then [(MMIO_VSOCK_WINDOW, MMIO_LEN, 7)] else []) @
     (if vc_balloon c then [(MMIO_BALLOON_WINDOW, MMIO_LEN, 8)] else []) @
     (if vc_rng c then [(MMIO_RNG_WINDOW, MMIO_LEN, 9)] else [])"

definition has_word :: "string \<Rightarrow> string \<Rightarrow> bool" where
  "has_word prefix cmd \<longleftrightarrow> list_ex (\<lambda>t. strip_prefix prefix t \<noteq> None) (split_whitespace cmd)"

definition add_word :: "string \<Rightarrow> string \<Rightarrow> string" where
  "add_word w cmd = (if cmd \<noteq> [] \<and> last cmd \<noteq> CHR '' '' then cmd @ '' '' else cmd) @ w"

definition boot_cmdline :: "VmConfig \<Rightarrow> string" where
  "boot_cmdline c =
     (let cmd = append_virtio_mmio_cmdline (vc_cmdline c) (mmio_devs c);
          cmd = (if \<not> vc_pci c \<and> \<not> has_word ''pci='' cmd then add_word ''pci=off'' cmd else cmd)
      in if vc_cpus c < vc_max_cpus c \<and> \<not> has_word ''maxcpus='' cmd
         then add_word (''maxcpus='' @ dec_string (unat (vc_cpus c))) cmd else cmd)"

section \<open>The bus\<close>

datatype MmioDev = EcamDev PciEcam | MsixDev MsixBar | VirtioDev VirtioMmio

datatype PioDev = SerialDev Serial16550 | CmosDev CmosRtc

fun dev_range :: "MmioDev \<Rightarrow> u64 \<times> u64" where
  "dev_range (EcamDev d) = ecam_range d"
| "dev_range (MsixDev d) = msix_range d"
| "dev_range (VirtioDev d) = vm_mmio_range d"

fun machine_write :: "u64 \<Rightarrow> u8 list \<Rightarrow> (MmioDev, unit) op" where
  "machine_write addr data (EcamDev d) = map_prod id EcamDev (ecam_write addr data d)"
| "machine_write addr data (MsixDev d) = map_prod id MsixDev (msix_write addr data d)"
| "machine_write addr data (VirtioDev d) = map_prod id VirtioDev (mmio_write addr data d)"

fun machine_read :: "u64 \<Rightarrow> u8 list \<Rightarrow> (MmioDev, u8 list) op" where
  "machine_read addr data (EcamDev d) = map_prod id EcamDev (ecam_read addr data d)"
| "machine_read addr data (MsixDev d) = map_prod id MsixDev (msix_read addr data d)"
| "machine_read addr data (VirtioDev d) = map_prod id VirtioDev (mmio_read addr data d)"

definition machine_mmio :: "MmioDev MmioDevice" where
  "machine_mmio = \<lparr>mmio_range = dev_range, dev_write = machine_write, dev_read = machine_read\<rparr>"

text \<open>What the host does for a machine that is put together.\<close>

record Host =
  open_disk :: "string \<Rightarrow> (u64 \<times> bool) result"
  open_vsock :: "string \<Rightarrow> u32 \<Rightarrow> unit result"
  eventfd_of :: "u64 \<Rightarrow> int"
  serial_eventfd :: int
  env_pairs :: "string option"
  env_vhost :: bool

definition net_pairs :: "Host \<Rightarrow> VmConfig \<Rightarrow> u16" where
  "net_pairs h c =
     (let n = ucast (effective_net_queue_pairs (env_pairs h) c) :: u16
      in if 1 < n \<and> \<not> (vhost_net_enabled (env_vhost h) c \<and> vc_tap c \<noteq> None) then 1 else n)"

definition machine_mac :: "VmConfig \<Rightarrow> u8 list" where
  "machine_mac c = (case net_parse_mac (vc_mac c) of Inl _ \<Rightarrow> [0x02, 0, 0, 0, 0, 2] | Inr m \<Rightarrow> m)"

definition blk_device :: "Host \<Rightarrow> VmConfig \<Rightarrow> VirtioMmio list result" where
  "blk_device h c =
     (case vc_disk c of
        None \<Rightarrow> Inr []
      | Some path \<Rightarrow>
          rbind (open_disk h path)
            (\<lambda>(sectors, ro). Inr [vm_block (eventfd_of h MMIO_BLK_WINDOW) MMIO_BLK_WINDOW sectors ro]))"

definition vsock_device :: "Host \<Rightarrow> VmConfig \<Rightarrow> VirtioMmio list result" where
  "vsock_device h c =
     (case (vc_vsock_cid c, vc_vsock_uds c) of
        (Some cid, Some uds) \<Rightarrow>
          rbind (open_vsock h uds cid)
            (\<lambda>_. Inr [vm_vsock (eventfd_of h MMIO_VSOCK_WINDOW) MMIO_VSOCK_WINDOW cid 7])
      | (None, None) \<Rightarrow> Inr []
      | _ \<Rightarrow> Inl (Device ''virtio-vsock'' ''vsock_cid and vsock_uds must be configured together''))"

definition virtio_devices :: "Host \<Rightarrow> VmConfig \<Rightarrow> VirtioMmio list result" where
  "virtio_devices h c =
     rbind (blk_device h c) (\<lambda>blk.
     rbind (vsock_device h c) (\<lambda>vsock.
       Inr ([vm_net_mq (eventfd_of h MMIO_WINDOW) MMIO_WINDOW (machine_mac c) (net_pairs h c)] @ blk @ vsock @
            (if vc_balloon c then [vm_balloon (eventfd_of h MMIO_BALLOON_WINDOW) MMIO_BALLOON_WINDOW 8] else []) @
            (if vc_rng c then [vm_rng (eventfd_of h MMIO_RNG_WINDOW) MMIO_RNG_WINDOW 9] else []))))"

definition attach_devices :: "Host \<Rightarrow> VmConfig \<Rightarrow> (PioDev, MmioDev) Bus result" where
  "attach_devices h c =
     rbind (virtio_devices h c) (\<lambda>ds.
       let b = add_pio (CmosDev cmos_new) (add_pio (SerialDev (com1 (serial_eventfd h))) bus_new);
           b = (if vc_pci c then add_mmio (MsixDev msix_new) (add_mmio (EcamDev pci_new) b) else b)
       in Inr (fold (\<lambda>d. add_mmio (VirtioDev d)) ds b))"

definition boot_bus :: "Host \<Rightarrow> VmConfig \<Rightarrow> (PioDev, MmioDev) Bus result" where
  "boot_bus h c = rbind (validate c) (\<lambda>_. attach_devices h c)"

text \<open>The built-in test guest of \<^verbatim>\<open>instantiate\<close> has the network device only.\<close>

definition instantiate_bus :: "Host \<Rightarrow> VmConfig \<Rightarrow> (PioDev, MmioDev) Bus result" where
  "instantiate_bus h c =
     rbind (validate c) (\<lambda>_.
       Inr (add_mmio (VirtioDev (vm_net (eventfd_of h MMIO_WINDOW) MMIO_WINDOW (machine_mac c)))
             (add_pio (CmosDev cmos_new) (add_pio (SerialDev (com1 (serial_eventfd h))) bus_new))))"

section \<open>The devices keep the contract of the bus\<close>

fun dev_ok :: "MmioDev \<Rightarrow> bool" where
  "dev_ok (EcamDev d) = ecam_ok d"
| "dev_ok (MsixDev d) = (length (mx_table d) = 0x200)"
| "dev_ok (VirtioDev d) = mmio_wf d"

interpretation machine: bus_device dev_range machine_write machine_read dev_ok
proof unfold_locales
  fix x data d bs
  show "dev_range (snd (machine_write x data d)) = dev_range d"
    by (cases d) (simp_all add: ecam_bus.wr_rng msix_bus.wr_rng virtio_bus.wr_rng)
  show "dev_range (snd (machine_read x data d)) = dev_range d"
    by (cases d) (simp_all add: ecam_bus.rd_rng msix_bus.rd_rng virtio_bus.rd_rng)
  show "dev_ok d \<Longrightarrow> dev_ok (snd (machine_write x data d))"
    by (cases d) (simp_all add: ecam_bus.wr_inv msix_bus.wr_inv virtio_bus.wr_inv)
  show "dev_ok d \<Longrightarrow> dev_ok (snd (machine_read x data d))"
    by (cases d) (simp_all add: ecam_bus.rd_inv msix_bus.rd_inv virtio_bus.rd_inv)
  show "fst (machine_read x data d) = Inr bs \<Longrightarrow> length bs = length data"
    by (cases d) (simp_all add: ecam_bus.rd_len msix_bus.rd_len virtio_bus.rd_len)
qed

section \<open>Slots\<close>

text \<open>The five windows in order: the device in slot \<open>k\<close> has the \<open>k\<close>-th window and interrupt \<open>5 + k\<close>.\<close>

definition slot :: "nat \<Rightarrow> mmio_slot" where
  "slot k = (MMIO_WINDOW + MMIO_LEN * of_nat k, MMIO_LEN, 5 + of_nat k)"

definition slots :: "VmConfig \<Rightarrow> nat list" where
  "slots c =
     [0] @ (if vc_disk c \<noteq> None then [1] else []) @ (if vc_vsock_cid c \<noteq> None \<and> vc_vsock_uds c \<noteq> None then [2] else []) @
     (if vc_balloon c then [3] else []) @ (if vc_rng c then [4] else [])"

definition virtio_sig :: "VirtioMmio \<Rightarrow> mmio_slot" where
  "virtio_sig d = (vm_base d, vm_size d, irq (vm_state d))"

fun dev_sig :: "MmioDev \<Rightarrow> string + mmio_slot" where
  "dev_sig (VirtioDev d) = Inr (virtio_sig d)"
| "dev_sig (EcamDev d) = Inl ''pci-ecam''"
| "dev_sig (MsixDev d) = Inl ''virtio-msix''"

lemma mmio_devs_slots: "mmio_devs c = map slot (slots c)"
  by (simp add: mmio_devs_def slots_def slot_def MMIO_BLK_WINDOW_def MMIO_VSOCK_WINDOW_def MMIO_BALLOON_WINDOW_def
      MMIO_RNG_WINDOW_def)

lemma slots_below: "k \<in> set (slots c) \<Longrightarrow> k < 5"
  by (auto simp: slots_def split: if_split_asm)

lemma distinct_slots: "distinct (slots c)"
  by (simp add: slots_def)

lemma length_parse_octets: "parse_octets ps = Some bs \<Longrightarrow> length bs = length ps"
  by (induction ps arbitrary: bs) (auto split: option.split_asm)

lemma length_machine_mac: "length (machine_mac c) = 6"
  by (auto simp: machine_mac_def net_parse_mac_def Let_def dest!: length_parse_octets split: sum.split option.split_asm if_split_asm)

lemma virtio_constructors:
  "virtio_sig (vm_net_mq e b m n) = (b, MMIO_LEN, 5)" "virtio_sig (vm_block e b sc ro) = (b, MMIO_LEN, 6)"
  "virtio_sig (vm_vsock e b cid q) = (b, MMIO_LEN, q)" "virtio_sig (vm_balloon e b q) = (b, MMIO_LEN, q)"
  "virtio_sig (vm_rng e b q) = (b, MMIO_LEN, q)"
  by (simp_all add: virtio_sig_def vm_net_mq_def vm_net_def vm_block_def vm_vsock_def vm_balloon_def vm_rng_def vm_new_def Let_def)

lemma virtio_constructors_wf:
  "length m = 6 \<Longrightarrow> mmio_wf (vm_net_mq e b m n)" "mmio_wf (vm_block e b sc ro)"
  "mmio_wf (vm_vsock e b cid q)" "mmio_wf (vm_balloon e b q)" "mmio_wf (vm_rng e b q)"
  by (simp_all add: mmio_wf_def virtio_wf_def vm_net_mq_def vm_net_def vm_block_def vm_vsock_def vm_balloon_def vm_rng_def
      vm_new_def virtio_default_def Let_def)

lemma validate_vsock: "validate c = Inr () \<Longrightarrow> (vc_vsock_cid c = None) = (vc_vsock_uds c = None)"
  by (auto simp: validate_def split: if_split_asm)

lemma virtio_devices_slots:
  assumes "virtio_devices h c = Inr ds"
  shows "map virtio_sig ds = map slot (slots c) \<and> (\<forall>d \<in> set ds. mmio_wf d)"
proof -
  obtain blk vs where d: "blk_device h c = Inr blk" "vsock_device h c = Inr vs"
    "ds = [vm_net_mq (eventfd_of h MMIO_WINDOW) MMIO_WINDOW (machine_mac c) (net_pairs h c)] @ blk @ vs @
       (if vc_balloon c then [vm_balloon (eventfd_of h MMIO_BALLOON_WINDOW) MMIO_BALLOON_WINDOW 8] else []) @
       (if vc_rng c then [vm_rng (eventfd_of h MMIO_RNG_WINDOW) MMIO_RNG_WINDOW 9] else [])"
    using assms by (auto simp: virtio_devices_def result_simps)
  have b: "map virtio_sig blk = (if vc_disk c \<noteq> None then [slot 1] else []) \<and> (\<forall>d \<in> set blk. mmio_wf d)"
    using d(1) by (auto simp: blk_device_def result_simps virtio_constructors virtio_constructors_wf slot_def MMIO_BLK_WINDOW_def
        split: option.split_asm)
  have v: "map virtio_sig vs = (if vc_vsock_cid c \<noteq> None \<and> vc_vsock_uds c \<noteq> None then [slot 2] else []) \<and> (\<forall>d \<in> set vs. mmio_wf d)"
    using d(2) by (auto simp: vsock_device_def result_simps virtio_constructors virtio_constructors_wf slot_def MMIO_VSOCK_WINDOW_def
        split: option.split_asm)
  show ?thesis using b v
    by (auto simp: d(3) slots_def virtio_constructors virtio_constructors_wf length_machine_mac slot_def MMIO_BALLOON_WINDOW_def MMIO_RNG_WINDOW_def)
qed

lemma fold_add_mmio: "mmio (fold (\<lambda>d. add_mmio (VirtioDev d)) ds b) = mmio b @ map VirtioDev ds"
  by (induction ds arbitrary: b) (simp_all add: add_mmio_def)

lemma boot_bus_devices:
  assumes "boot_bus h c = Inr b"
  obtains ds where "mmio b = (if vc_pci c then [EcamDev pci_new, MsixDev msix_new] else []) @ map VirtioDev ds"
    and "map virtio_sig ds = map slot (slots c)" and "\<forall>d \<in> set (mmio b). dev_ok d"
proof -
  obtain ds where v: "virtio_devices h c = Inr ds"
    and m: "mmio b = (if vc_pci c then [EcamDev pci_new, MsixDev msix_new] else []) @ map VirtioDev ds"
    using assms by (auto simp: boot_bus_def attach_devices_def result_simps fold_add_mmio Let_def add_mmio_def add_pio_def bus_new_def)
  have "\<forall>d \<in> set (mmio b). dev_ok d"
    using m virtio_devices_slots [OF v] ecam_ok_new by (auto simp: msix_new_def split: if_split_asm)
  then show thesis using that m virtio_devices_slots [OF v] by blast
qed

section \<open>Runs\<close>

datatype BusAccess = BWrite u64 "u8 list" | BRead u64 "u8 list"

fun machine_step :: "BusAccess \<Rightarrow> (PioDev, MmioDev) Bus \<Rightarrow> (PioDev, MmioDev) Bus" where
  "machine_step (BWrite addr data) b = snd (bus_mmio_write machine_mmio addr data b)"
| "machine_step (BRead addr data) b = snd (bus_mmio_read machine_mmio addr data b)"

lemma machine_mmio_simps [simp]:
  "mmio_range machine_mmio = dev_range" "dev_write machine_mmio = machine_write" "dev_read machine_mmio = machine_read"
  by (simp_all add: machine_mmio_def)

lemma mmio_write_sig: "virtio_sig (snd (mmio_write addr data d)) = virtio_sig d"
  by (simp add: virtio_sig_def mmio_write_def Let_def upd_q_def reset_state_def)

lemma dev_sig_access: "dev_sig (snd (machine_write addr data d)) = dev_sig d" "dev_sig (snd (machine_read addr data d)) = dev_sig d"
  by (cases d; simp add: mmio_write_sig)+

lemma dispatch_sig:
  assumes "dispatch dev_range x f ds = Some (r, ds')" and "\<And>d. dev_sig (snd (f d)) = dev_sig d"
  shows "map dev_sig ds' = map dev_sig ds"
proof -
  obtain i where "i < length ds" "ds' = ds[i := snd (f (ds ! i))]" using dispatch_Some [OF assms(1)] by blast
  then show ?thesis using assms(2) by (simp add: map_update list_update_same_conv)
qed

definition same_shape :: "(PioDev, MmioDev) Bus \<Rightarrow> (PioDev, MmioDev) Bus \<Rightarrow> bool" where
  "same_shape b0 b \<longleftrightarrow> map dev_range (mmio b) = map dev_range (mmio b0) \<and> map dev_sig (mmio b) = map dev_sig (mmio b0) \<and>
     (\<forall>d \<in> set (mmio b). dev_ok d)"

lemma same_shape_step:
  assumes "same_shape b0 b"
  shows "same_shape b0 (machine_step e b)"
proof (cases e)
  case (BWrite addr data)
  show ?thesis
  proof (cases "dispatch dev_range addr (machine_write addr data) (mmio b)")
    case (Some p)
    then show ?thesis using BWrite assms machine.bus_write_keeps [of addr data "mmio b" "fst p" "snd p"]
        dispatch_sig [of addr "machine_write addr data" "mmio b" "fst p" "snd p"] dev_sig_access(1)
      by (cases p) (auto simp: same_shape_def bus_mmio_write_def)
  qed (use BWrite assms in \<open>simp add: bus_mmio_write_def\<close>)
next
  case (BRead addr data)
  show ?thesis
  proof (cases "dispatch dev_range addr (machine_read addr data) (mmio b)")
    case (Some p)
    then show ?thesis using BRead assms machine.bus_read_keeps [of addr data "mmio b" "fst p" "snd p"]
        dispatch_sig [of addr "machine_read addr data" "mmio b" "fst p" "snd p"] dev_sig_access(2)
      by (cases p) (auto simp: same_shape_def bus_mmio_read_def)
  qed (use BRead assms in \<open>simp add: bus_mmio_read_def\<close>)
qed

interpretation mruns: step_system machine_step "same_shape b0" for b0
  by unfold_locales (rule same_shape_step)

section \<open>Windows\<close>

lemma unat_window:
  assumes "k < 5" and "off < MMIO_LEN"
  shows "unat (MMIO_WINDOW + MMIO_LEN * of_nat k + off) = 0xFEB00000 + 512 * k + unat off"
proof -
  have o: "unat off < 512" using assms(2) by (simp add: word_less_nat_alt MMIO_LEN_def)
  have "unat (MMIO_LEN * of_nat k) = 512 * k" using assms(1) by (subst unat_mult_no_wrap) (simp_all add: MMIO_LEN_def unat_of_nat)
  then show ?thesis using assms(1) o by (simp add: unat_add_no_wrap MMIO_WINDOW_def)
qed

lemma slot_range:
  assumes "virtio_sig d = slot k" and "k < 5"
  shows "in_range (vm_mmio_range d) x \<longleftrightarrow> 0xFEB00000 + 512 * k \<le> unat x \<and> unat x < 0xFEB00000 + 512 * Suc k"
proof -
  have b: "vm_base d = MMIO_WINDOW + MMIO_LEN * of_nat k" "vm_size d = MMIO_LEN"
    using assms(1) by (simp_all add: virtio_sig_def slot_def)
  have e: "vm_base d + vm_size d - 1 = MMIO_WINDOW + MMIO_LEN * of_nat k + 0x1ff" by (simp add: b MMIO_LEN_def)
  have "unat (vm_base d) = 0xFEB00000 + 512 * k" using unat_window [OF assms(2), of 0] by (simp add: b MMIO_LEN_def)
  moreover have "unat (vm_base d + vm_size d - 1) = 0xFEB00000 + 512 * k + 511"
    using unat_window [OF assms(2), of "0x1ff"] unfolding e by (simp add: MMIO_LEN_def)
  ultimately show ?thesis by (auto simp: in_range_def vm_mmio_range_def word_le_nat_alt)
qed

lemma slots_disjoint:
  assumes "map dev_sig ds = map (Inr \<circ> slot) ks" and "distinct ks" and "\<forall>k \<in> set ks. k < 5"
  shows "ranges_disjoint dev_range ds"
  unfolding ranges_disjoint_def
proof (intro allI impI)
  fix i j x
  assume h: "i < length ds" "j < length ds" "i \<noteq> j"
  have len: "length ds = length ks" using assms(1) by (metis length_map)
  have at: "\<exists>d. ds ! n = VirtioDev d \<and> virtio_sig d = slot (ks ! n)" if "n < length ds" for n
  proof -
    have "dev_sig (ds ! n) = Inr (slot (ks ! n))" using assms(1) that len by (metis nth_map comp_apply)
    then show ?thesis by (cases "ds ! n") auto
  qed
  obtain d d' where d: "ds ! i = VirtioDev d" "virtio_sig d = slot (ks ! i)" "ds ! j = VirtioDev d'" "virtio_sig d' = slot (ks ! j)"
    using at h by blast
  have k: "ks ! i < 5" "ks ! j < 5" "ks ! i \<noteq> ks ! j" using h assms(2,3) len by (auto simp: nth_eq_iff_index_eq)
  show "\<not> (in_range (dev_range (ds ! i)) x \<and> in_range (dev_range (ds ! j)) x)"
    using k(3) slot_range [OF d(2) k(1), of x] slot_range [OF d(4) k(2), of x] d by auto
qed

lemma contains_iff: "contains pat s \<longleftrightarrow> (\<exists>a b. s = a @ pat @ b)"
proof (induction s)
  case (Cons c cs)
  have p: "strip_prefix pat t \<noteq> None \<longleftrightarrow> (\<exists>b. t = pat @ b)" for t
    by (auto simp: strip_prefix_def) (metis append_take_drop_id)
  show ?case
  proof
    assume "contains pat (c # cs)"
    then show "\<exists>a b. c # cs = a @ pat @ b"
      using Cons.IH p [of "c # cs"] by (metis append_Cons append_Nil contains.simps(2))
  next
    assume "\<exists>a b. c # cs = a @ pat @ b"
    then show "contains pat (c # cs)"
      using Cons.IH p [of "c # cs"] by (metis append_Nil append_eq_Cons_conv contains.simps(2))
  qed
qed auto

lemma contains_append: "contains pat s \<Longrightarrow> contains pat (s @ t)"
  unfolding contains_iff by (metis append.assoc)

lemma advertised_append: "advertised base s \<Longrightarrow> advertised base (s @ t)"
  by (auto simp: advertised_def Let_def contains_append)

lemma advertise_extends: "\<exists>t. advertise dev cmd = cmd @ t"
  by (cases dev) (auto simp: advertise_def)

lemma advertise_self: "advertised base (advertise (base, len, irqn) cmd)"
proof (cases "advertised base cmd")
  case False
  let ?pre = "(if cmd = [] then cmd else cmd @ '' '') @ ''virtio_mmio.device=0x'' @ hex_string (unat len)"
  have "advertise (base, len, irqn) cmd = ?pre @ (''@0x'' @ hex_string (unat base) @ '':'') @ dec_string (unat irqn)"
    using False by (simp add: advertise_def)
  then show ?thesis unfolding advertised_def Let_def contains_iff by blast
qed (simp add: advertise_def)

lemma fold_advertise_extends: "\<exists>t. fold advertise devs cmd = cmd @ t"
proof (induction devs arbitrary: cmd)
  case (Cons d devs)
  then show ?case using advertise_extends [of d cmd] by (metis append.assoc fold_simps(2))
qed simp

lemma advertised_all: "(base, len, irqn) \<in> set devs \<Longrightarrow> advertised base (fold advertise devs cmd)"
proof (induction devs arbitrary: cmd)
  case (Cons d devs)
  show ?case
  proof (cases "d = (base, len, irqn)")
    case True
    then show ?thesis using fold_advertise_extends [of devs "advertise d cmd"] advertise_self advertised_append by (metis fold_simps(2))
  next
    case False
    then show ?thesis using Cons by auto
  qed
qed simp

lemma add_word_extends: "\<exists>t. add_word w cmd = cmd @ t"
  by (simp add: add_word_def)

lemma boot_cmdline_advertises:
  assumes "(base, len, irqn) \<in> set (mmio_devs c)"
  shows "advertised base (boot_cmdline c)"
proof -
  have a: "advertised base (append_virtio_mmio_cmdline (vc_cmdline c) (mmio_devs c))"
    unfolding append_virtio_mmio_cmdline_def by (rule advertised_all [OF assms])
  have "advertised base (add_word w cmd)" if "advertised base cmd" for w cmd
    using add_word_extends [of w cmd] advertised_append [OF that] by metis
  then show ?thesis using a by (simp add: boot_cmdline_def Let_def)
qed

text \<open>The last megabyte of the configuration window belongs to bus 255, where there is no function.\<close>

lemma outside_bus_zero:
  assumes "0xFEB00000 \<le> unat addr" and "unat addr < 0xFEC00000"
  shows "ecam_write addr data e = (Inr (), e) \<and> ecam_read addr data e = (Inr (replicate (length data) 0xff), e)"
proof -
  let ?rl = "addr - PCI_MMCONFIG_START"
  have "PCI_MMCONFIG_START \<le> addr" using assms(1) by (simp add: word_le_nat_alt pci_consts)
  then have n: "unat ?rl = unat addr - 0xEEC00000" by (simp add: unat_sub pci_consts)
  have m: "(0xff :: u64) = mask 8" by (simp add: mask_numeral)
  have "unat ?rl div 1048576 = 255" by (rule div_nat_eqI) (use n assms in simp_all)
  then have "unat (drop_bit 20 ?rl AND 0xff) = 255" using unat_field [of 8 20 ?rl] by (simp add: m)
  then have "drop_bit 20 ?rl AND 0xff = 255" by (simp add: word_unat_eq_iff)
  then show ?thesis by (auto simp: ecam_write_def ecam_read_def bdf_offset_def Let_def)
qed

section \<open>Properties\<close>

text \<open>A machine with a disk and an entropy device, on a host where everything opens.\<close>

definition sample_host :: Host where
  "sample_host = \<lparr>open_disk = (\<lambda>_. Inr (2048, False)), open_vsock = (\<lambda>_ _. Inr ()), eventfd_of = (\<lambda>_. 3),
     serial_eventfd = 4, env_pairs = None, env_vhost = False\<rparr>"

definition sample_config :: "bool \<Rightarrow> VmConfig" where
  "sample_config p = config_default\<lparr>vc_cpus := 2, vc_disk := Some ''root.img'', vc_balloon := False, vc_pci := p, vc_max_cpus := 2\<rparr>"

lemma sample_offset: "0 < MMIO_LEN"
  by (simp add: MMIO_LEN_def word_less_nat_alt)

lemma sample_boots: "\<exists>b. boot_bus sample_host (sample_config p) = Inr b"
  by (simp add: boot_bus_def attach_devices_def validate_def virtio_devices_def blk_device_def vsock_device_def sample_host_def sample_config_def config_default_def
      NET_MAX_QUEUE_PAIRS_def Let_def)

text \<open>
  C14. Every device the guest is told about is there. On a machine without the PCI window, after any
  accesses, each virtio device named on the kernel command line answers every access to its window,
  with the interrupt the command line gives for it, and no other device sees the access.
\<close>

theorem machine_devices_answer:
  assumes "boot_bus h c = Inr b" and "\<not> vc_pci c" and "b' = fold machine_step es b"
    and "(base, len, irqn) \<in> set (mmio_devs c)" and "off < len"
  shows "advertised base (boot_cmdline c) \<and>
    (\<exists>i d. i < length (mmio b') \<and> mmio b' ! i = VirtioDev d \<and> vm_base d = base \<and> irq (vm_state d) = irqn \<and>
       bus_mmio_write machine_mmio (base + off) data b' =
         (Inr (), b'\<lparr>mmio := (mmio b')[i := VirtioDev (snd (mmio_write (base + off) data d))]\<rparr>) \<and>
       bus_mmio_read machine_mmio (base + off) data b' = (fst (mmio_read (base + off) data d), b'))"
proof -
  obtain ds where ds: "mmio b = map VirtioDev ds" "map virtio_sig ds = map slot (slots c)" "\<forall>d \<in> set (mmio b). dev_ok d"
    using boot_bus_devices [OF assms(1)] assms(2) by auto
  have sh: "same_shape b b'" unfolding assms(3) by (rule mruns.invar_run) (use ds(3) in \<open>simp add: same_shape_def\<close>)
  have "map dev_sig (map VirtioDev ds) = map Inr (map virtio_sig ds)" by simp
  then have sg: "map dev_sig (mmio b') = map (Inr \<circ> slot) (slots c)"
    using sh unfolding same_shape_def ds(1,2) by simp
  then have dj: "ranges_disjoint dev_range (mmio b')"
    by (rule slots_disjoint) (auto simp: distinct_slots slots_below)
  obtain k where k: "k \<in> set (slots c)" "slot k = (base, len, irqn)" using assms(4) by (auto simp: mmio_devs_slots)
  then obtain i where i: "i < length (slots c)" "slots c ! i = k" by (auto simp: in_set_conv_nth)
  have il: "i < length (mmio b')" using i(1) sg by (metis length_map)
  have "dev_sig (mmio b' ! i) = Inr (slot k)" using sg i il by (metis comp_apply nth_map)
  then obtain d where d: "mmio b' ! i = VirtioDev d" "virtio_sig d = slot k" by (cases "mmio b' ! i") auto
  have bl: "base = MMIO_WINDOW + MMIO_LEN * of_nat k" "len = MMIO_LEN" using k(2) by (simp_all add: slot_def)
  have "in_range (dev_range (mmio b' ! i)) (base + off)"
    using slot_range [OF d(2) slots_below [OF k(1)], of "base + off"] unat_window [OF slots_below [OF k(1)], of off] assms(5) bl d(1)
    by (simp add: word_less_nat_alt MMIO_LEN_def)
  note own = dispatch_owner [OF dj il this]
  have r: "snd (mmio_read (base + off) data d) = d" by (simp add: mmio_read_def Let_def)
  have w: "fst (mmio_write (base + off) data d) = Inr ()" by (simp add: mmio_write_def Let_def)
  have same: "(mmio b')[i := VirtioDev d] = mmio b'" using d(1) by (metis list_update_id)
  have v: "vm_base d = base \<and> irq (vm_state d) = irqn" using d(2) k(2) by (simp add: virtio_sig_def)
  show ?thesis
    using boot_cmdline_advertises [OF assms(4)] il d(1) v r w same
    by (intro conjI exI [of _ i] exI [of _ d]) (simp_all add: bus_mmio_write_def bus_mmio_read_def own)
qed

theorem machine_devices_answer_witness:
  "\<exists>b. boot_bus sample_host (sample_config False) = Inr b \<and>
     (\<exists>i d. mmio b ! i = VirtioDev d \<and> vm_base d = MMIO_RNG_WINDOW \<and> irq (vm_state d) = 9 \<and>
        bus_mmio_read machine_mmio (MMIO_RNG_WINDOW + 0) [0, 0, 0, 0] b = (fst (mmio_read (MMIO_RNG_WINDOW + 0) [0, 0, 0, 0] d), b))"
proof -
  obtain b where b: "boot_bus sample_host (sample_config False) = Inr b" using sample_boots by blast
  have "(MMIO_RNG_WINDOW, MMIO_LEN, 9) \<in> set (mmio_devs (sample_config False))" by (simp add: mmio_devs_def sample_config_def config_default_def)
  note dev = this
  have "\<exists>i d. i < length (mmio b) \<and> mmio b ! i = VirtioDev d \<and> vm_base d = MMIO_RNG_WINDOW \<and> irq (vm_state d) = 9 \<and>
       bus_mmio_write machine_mmio (MMIO_RNG_WINDOW + 0) [0, 0, 0, 0] b =
         (Inr (), b\<lparr>mmio := (mmio b)[i := VirtioDev (snd (mmio_write (MMIO_RNG_WINDOW + 0) [0, 0, 0, 0] d))]\<rparr>) \<and>
       bus_mmio_read machine_mmio (MMIO_RNG_WINDOW + 0) [0, 0, 0, 0] b = (fst (mmio_read (MMIO_RNG_WINDOW + 0) [0, 0, 0, 0] d), b)"
    by (rule machine_devices_answer [where es = "[]", OF b _ _ dev sample_offset, THEN conjunct2]) (simp_all add: sample_config_def)
  then obtain i d where "mmio b ! i = VirtioDev d" "vm_base d = MMIO_RNG_WINDOW" "irq (vm_state d) = 9"
    "bus_mmio_read machine_mmio (MMIO_RNG_WINDOW + 0) [0, 0, 0, 0] b = (fst (mmio_read (MMIO_RNG_WINDOW + 0) [0, 0, 0, 0] d), b)"
    by (elim exE conjE)
  then show ?thesis by (intro exI [of _ b] exI [of _ i] exI [of _ d] conjI b)
qed

text \<open>
  C37. With the PCI window on, no virtio device can be reached. The window of the PCI configuration space
  contains the windows of all virtio devices and is registered first: whatever the guest writes to
  a device named on its command line is dropped, and whatever it reads there is all ones, so not
  even the magic number of the transport is found.
\<close>

theorem pci_hides_virtio:
  assumes "boot_bus h c = Inr b" and "vc_pci c" and "b' = fold machine_step es b"
    and "(base, len, irqn) \<in> set (mmio_devs c)" and "off < len"
  shows "bus_mmio_write machine_mmio (base + off) data b' = (Inr (), b') \<and>
    bus_mmio_read machine_mmio (base + off) data b' = (Inr (replicate (length data) 0xff), b')"
proof -
  obtain ds where m: "mmio b = (if vc_pci c then [EcamDev pci_new, MsixDev msix_new] else []) @ map VirtioDev ds"
    and ok: "\<forall>d \<in> set (mmio b). dev_ok d"
    by (rule boot_bus_devices [OF assms(1)])
  have ds: "mmio b = EcamDev pci_new # MsixDev msix_new # map VirtioDev ds" using m assms(2) by simp
  have sh: "same_shape b b'" unfolding assms(3) by (rule mruns.invar_run) (use ok in \<open>simp add: same_shape_def\<close>)
  have "map dev_range (mmio b') = ecam_range pci_new # map dev_range (tl (mmio b))"
    and "map dev_sig (mmio b') = Inl ''pci-ecam'' # map dev_sig (tl (mmio b))"
    using sh by (simp_all only: same_shape_def ds list.map dev_range.simps dev_sig.simps list.sel)
  then obtain d rst where b': "mmio b' = d # rst" "dev_range d = ecam_range pci_new" "dev_sig d = Inl ''pci-ecam''"
    by (cases "mmio b'") simp_all
  then obtain e where e: "d = EcamDev e" by (cases d) auto
  obtain k where k: "k < 5" "base = MMIO_WINDOW + MMIO_LEN * of_nat k" "len = MMIO_LEN"
    using assms(4) by (auto simp: mmio_devs_slots slot_def dest: slots_below)
  have u: "unat (base + off) = 0xFEB00000 + 512 * k + unat off" using unat_window [OF k(1), of off] assms(5) k(2,3) by simp
  have o: "unat off < 512" using assms(5) k(3) by (simp add: word_less_nat_alt MMIO_LEN_def)
  have "0xEEC00000 \<le> unat (base + off)" "unat (base + off) \<le> 0xFEBFFFFF" using u o k(1) by simp_all
  then have "in_range (dev_range d) (base + off)"
    by (simp add: b'(2) in_range_def ecam_range_def pci_new_def pci_consts word_le_nat_alt)
  moreover have "ecam_write (base + off) data e = (Inr (), e)" "ecam_read (base + off) data e = (Inr (replicate (length data) 0xff), e)"
    using outside_bus_zero [of "base + off" data e] u o k(1) by simp_all
  ultimately show ?thesis using b'(1) by (simp add: e bus_mmio_write_def bus_mmio_read_def)
qed

theorem pci_hides_virtio_witness:
  "\<exists>b. boot_bus sample_host (sample_config True) = Inr b \<and>
     bus_mmio_read machine_mmio (MMIO_WINDOW + 0) [0, 0, 0, 0] b = (Inr [0xff, 0xff, 0xff, 0xff], b)"
proof -
  obtain b where b: "boot_bus sample_host (sample_config True) = Inr b" using sample_boots by blast
  have "(MMIO_WINDOW, MMIO_LEN, 5) \<in> set (mmio_devs (sample_config True))" by (simp add: mmio_devs_def sample_config_def config_default_def)
  note dev = this
  have "bus_mmio_read machine_mmio (MMIO_WINDOW + 0) [0, 0, 0, 0] b = (Inr (replicate (length [0, 0, 0, 0 :: u8]) 0xff), b)"
    by (rule pci_hides_virtio [where es = "[]", OF b _ _ dev sample_offset, THEN conjunct2]) (simp_all add: sample_config_def)
  then show ?thesis using b by (simp add: numeral_eq_Suc)
qed

end
