(* ===== verification/Firmware_Tables.thy ===== *)
theory Firmware_Tables
  imports Guest_Memory Pci Rust_Text
begin

text \<open>
  The tables the machine leaves in guest RAM for the kernel to find its processors, interrupt
  controllers and PCI window: the MP table (\<^verbatim>\<open>fluxvm-hypervisor/src/mptable.rs\<close>) and the ACPI tables with their
  AML encoder (\<^verbatim>\<open>acpi.rs\<close>). The second half holds readers for both formats, written from the
  specifications, and shows that they find what the writers meant.
\<close>

section \<open>The MP table\<close>

definition MPFLOAT_GPA :: u64 where "MPFLOAT_GPA = 0x9FC00"
definition MP_IOAPIC_ADDR :: u32 where "MP_IOAPIC_ADDR = 0xfec00000"
definition LAPIC_ADDR :: u32 where "LAPIC_ADDR = 0xfee00000"

definition checksum :: "u8 list \<Rightarrow> u8" where
  "checksum bs = - fold (\<lambda>b s. s + b) bs 0"

text \<open>The packed structures, byte for byte.\<close>

definition mp_header :: "u8 list" where
  "mp_header =
     text_bytes ''PCMP'' @ u16_to_le 0 @ [4, 0] @ text_bytes ''ZYVOR   '' @ text_bytes ''FLUXVM      '' @
     u32_to_le 0 @ u16_to_le 0 @ u16_to_le 0 @ u32_to_le LAPIC_ADDR @ u16_to_le 0 @ [0, 0]"

definition mp_processor :: "u8 \<Rightarrow> u8 list" where
  "mp_processor i = [0, i, 0x14, if i = 0 then 3 else 1] @ u32_to_le 0x600 @ u32_to_le 0x201 @ u32_to_le 0 @ u32_to_le 0"

definition mp_bus :: "u8 list" where
  "mp_bus = [1, 0] @ text_bytes ''ISA   ''"

definition mp_ioapic :: "u8 list" where
  "mp_ioapic = [2, 0, 0x17, 1] @ u32_to_le MP_IOAPIC_ADDR"

definition mp_io_interrupt :: "u8 \<Rightarrow> u8 list" where
  "mp_io_interrupt q = [3, 0] @ u16_to_le 0 @ [0, q, 0, q]"

definition mp_local_interrupt :: "u8 \<Rightarrow> u8 \<Rightarrow> u8 list" where
  "mp_local_interrupt ty lint = [4, ty] @ u16_to_le 0 @ [0, 0, 0xff, lint]"

definition mp_irqs :: "nat list" where
  "mp_irqs = filter (\<lambda>q. q \<noteq> 2) [0..<16]"

definition mp_table :: "nat \<Rightarrow> u8 list" where
  "mp_table cpus =
     (let table = mp_header @ concat (map (\<lambda>i. mp_processor (of_nat i)) [0..<cpus]) @ mp_bus @ mp_ioapic @
                  concat (map (\<lambda>q. mp_io_interrupt (of_nat q)) mp_irqs) @ mp_local_interrupt 3 0 @ mp_local_interrupt 1 1;
          entries = of_nat cpus + 1 + 1 + of_nat (length mp_irqs) + 1 + 1 :: u16;
          table = put_u16 34 entries (put_u16 4 (of_nat (length table)) table);
          table = table[7 := 0]
      in table[7 := checksum table])"

definition mp_floating_pointer :: "u8 \<Rightarrow> u8 list" where
  "mp_floating_pointer ck = text_bytes ''_MP_'' @ u32_to_le (ucast (MPFLOAT_GPA + 16)) @ [1, 4, ck, 0, 0, 0, 0, 0]"

definition mp_cpus :: "u8 \<Rightarrow> nat" where
  "mp_cpus num_cpus = unat (max 1 (min num_cpus 8))"

definition write_mptable :: "u8 \<Rightarrow> (GuestMemory, unit) op" where
  "write_mptable num_cpus =
     bnd (write_at (MPFLOAT_GPA + 16) (mp_table (mp_cpus num_cpus)))
       (\<lambda>_. write_at MPFLOAT_GPA (mp_floating_pointer (checksum (mp_floating_pointer 0))))"

section \<open>ACPI\<close>

definition RSDP_ADDR :: u64 where "RSDP_ADDR = 0xe0000"
definition FADT :: u64 where "FADT = 0xa0000"
definition MADT :: u64 where "MADT = 0xa1000"
definition XSDT :: u64 where "XSDT = 0xa2000"
definition MCFG :: u64 where "MCFG = 0xa3000"
definition DSDT_GPA :: u64 where "DSDT_GPA = 0xa4000"

lemmas table_consts = MPFLOAT_GPA_def MP_IOAPIC_ADDR_def LAPIC_ADDR_def RSDP_ADDR_def FADT_def MADT_def XSDT_def MCFG_def DSDT_GPA_def

definition acpi_checksum :: "u8 list \<Rightarrow> u8" where
  "acpi_checksum bs = NOT (fold (\<lambda>b s. s + b) bs 0) + 1"

definition put_u64 :: "nat \<Rightarrow> u64 \<Rightarrow> u8 list \<Rightarrow> u8 list" where
  "put_u64 off v buf = put_bytes off (u64_to_le v) buf"

definition write_header :: "string \<Rightarrow> u32 \<Rightarrow> u8 \<Rightarrow> u8 list \<Rightarrow> u8 list" where
  "write_header sig len revision buf =
     (let buf = put_u32 4 len (put_bytes 0 (text_bytes sig) buf);
          buf = buf[8 := revision, 9 := 0];
          buf = put_bytes 16 (text_bytes ''FLUXVM  '') (put_bytes 10 (text_bytes ''FLUXVM'') buf)
      in put_u32 32 1 (put_bytes 28 (text_bytes ''FLVM'') (put_u32 24 1 buf)))"

definition summed :: "u8 list \<Rightarrow> u8 list" where
  "summed t = t[9 := acpi_checksum t]"

definition fadt_table :: "u8 list" where
  "fadt_table =
     (let t = write_header ''FACP'' 276 5 (replicate 276 0);
          t = (put_u32 40 (ucast DSDT_GPA) t)[45 := 1];
          t = (put_u32 64 0x1004 (put_u32 56 0x1000 t))[88 := 4, 89 := 2];
          t = (put_u32 112 (push_bit 10 1) t)[116 := 1, 117 := 8, 118 := 0, 119 := 1];
          t = (put_u64 120 0xCF9 t)[128 := 6]
      in summed (put_u64 140 DSDT_GPA t))"

definition madt_cpu :: "nat \<Rightarrow> u8 list \<Rightarrow> u8 list" where
  "madt_cpu i t = put_u32 (44 + 8 * i + 4) 1 (put_bytes (44 + 8 * i) [0, 8, of_nat i, of_nat i] t)"

definition madt_table :: "u8 \<Rightarrow> u8 list" where
  "madt_table num_cpus =
     (let n = unat num_cpus;
          len = 44 + 8 * ucast num_cpus + 12 :: u32;
          t = write_header ''APIC'' len 3 (replicate (unat len) 0);
          t = put_u32 40 1 (put_u32 36 LAPIC_ADDR t);
          t = fold madt_cpu [0..<n] t;
          t = put_bytes (44 + 8 * n) [1, 12, 0, 0] t
      in summed (put_u32 (44 + 8 * n + 8) 0 (put_u32 (44 + 8 * n + 4) MP_IOAPIC_ADDR t)))"

definition mcfg_table :: "u8 list" where
  "mcfg_table =
     (let t = write_header ''MCFG'' 60 1 (replicate 60 0);
          t = put_u16 52 0 (put_u64 44 PCI_MMCONFIG_START t)
      in summed (t[54 := 0, 55 := 0]))"

definition xsdt_table :: "u8 list" where
  "xsdt_table =
     (let t = write_header ''XSDT'' 60 1 (replicate 60 0)
      in summed (put_u64 52 MCFG (put_u64 44 MADT (put_u64 36 FADT t))))"

definition rsdp_table :: "u8 list" where
  "rsdp_table =
     (let r = put_bytes 9 (text_bytes ''FLUXVM'') (put_bytes 0 (text_bytes ''RSD PTR '') (replicate 36 0));
          r = put_u32 16 0 (r[15 := 2]);
          r = put_u64 24 XSDT (put_u32 20 36 r);
          r = r[8 := acpi_checksum (take 20 r)]
      in r[32 := acpi_checksum r])"

definition name_seg :: "string \<Rightarrow> u8 list" where
  "name_seg seg = put_bytes 0 (take 4 (text_bytes seg)) (text_bytes ''____'')"

definition eisa_id :: "string \<Rightarrow> u32" where
  "eisa_id s =
     (let b = text_bytes s;
          d1 = ucast (b ! 0 - 0x40) :: u32; d2 = ucast (b ! 1 - 0x40); d3 = ucast (b ! 2 - 0x40);
          prod = (case from_str_radix 16 (2 ^ 32) (slice 3 7 s) of None \<Rightarrow> 0 | Some n \<Rightarrow> of_nat n)
      in push_bit 26 d1 OR push_bit 21 d2 OR push_bit 16 d3 OR (prod AND 0xffff))"

definition encode_pkg_len :: "nat \<Rightarrow> u8 list" where
  "encode_pkg_len len =
     (if len < 0x40 then [of_nat len]
      else if len < 0x1000 then [of_nat (len mod 16) OR 0x40, of_nat (len div 16)]
      else [of_nat (len mod 16) OR 0x80, of_nat (len div 16 mod 256), of_nat (len div 4096 mod 256)])"

text \<open>The loop of \<^verbatim>\<open>push_pkg\<close> looks for a length field that counts itself.\<close>

lemma pkg_len_mono: "a \<le> b \<Longrightarrow> length (encode_pkg_len a) \<le> length (encode_pkg_len b)"
  by (simp add: encode_pkg_len_def)

lemma pkg_len_bounds: "1 \<le> length (encode_pkg_len n)" "length (encode_pkg_len n) \<le> 3"
  by (simp_all add: encode_pkg_len_def)

function pkg_loop :: "nat \<Rightarrow> nat \<Rightarrow> u8 list" where
  "pkg_loop payload width =
     (let enc = encode_pkg_len (width + payload) in if length enc = width then enc else pkg_loop payload (length enc))"
  by pat_completeness auto
termination
proof (relation "measure (\<lambda>(p, w). if w < length (encode_pkg_len (w + p)) then 4 - w else if length (encode_pkg_len (w + p)) = w then 0 else w)")
  fix p w enc
  assume e: "enc = encode_pkg_len (w + p)" and ne: "length enc \<noteq> w"
  show "((p, length enc), p, w) \<in> measure (\<lambda>(p, w). if w < length (encode_pkg_len (w + p)) then 4 - w else if length (encode_pkg_len (w + p)) = w then 0 else w)"
    using ne pkg_len_mono [of "w + p" "length enc + p"] pkg_len_mono [of "length enc + p" "w + p"] pkg_len_bounds [of "w + p"]
      pkg_len_bounds [of "length enc + p"] unfolding e by auto
qed simp

declare pkg_loop.simps [simp del]

definition push_pkg :: "u8 list \<Rightarrow> u8 list \<Rightarrow> u8 list \<Rightarrow> u8 list" where
  "push_pkg opcode name body = opcode @ pkg_loop (length name + length body) 1 @ name @ body"

definition memory32_fixed :: "u32 \<Rightarrow> u32 \<Rightarrow> u8 list" where
  "memory32_fixed base len = [0x86, 0x09, 0x00, 0x01] @ u32_to_le base @ u32_to_le len"

definition dsdt_crs :: "u8 list" where
  "dsdt_crs =
     (let crs = memory32_fixed (ucast PCI_MMCONFIG_START) 0x100000 @ memory32_fixed (ucast MMIO_WINDOW) 0x1000 @ [0x79, 0]
      in [0x11, of_nat (1 + 2 + length crs), 0x0A, of_nat (length crs)] @ crs)"

definition dsdt_aml :: "u8 list" where
  "dsdt_aml =
     (let dev = concat (map (\<lambda>(n, i). [0x08] @ name_seg n @ [0x0C] @ u32_to_le (eisa_id i)) [(''_HID'', ''PNP0A08''), (''_CID'', ''PNP0A03'')]) @
                [0x08] @ name_seg ''_UID'' @ [0x00] @ [0x08] @ name_seg ''_STA'' @ [0x0A, 0x0F] @
                [0x08] @ name_seg ''_CRS'' @ dsdt_crs;
          device = push_pkg [0x5B, 0x82] (name_seg ''PCI0'') dev
      in push_pkg [0x10] ([0x5C] @ name_seg ''_SB_'') device)"

definition dsdt_table :: "u8 list" where
  "dsdt_table =
     (let len = 36 + length dsdt_aml;
          t = write_header ''DSDT'' (of_nat len) 2 (replicate len 0)
      in summed (put_bytes 36 dsdt_aml t))"

definition write_tables :: "u8 \<Rightarrow> (GuestMemory, u64) op" where
  "write_tables num_cpus =
     bnd (write_at DSDT_GPA dsdt_table) (\<lambda>_.
     bnd (write_at FADT fadt_table) (\<lambda>_.
     bnd (write_at MADT (madt_table num_cpus)) (\<lambda>_.
     bnd (write_at MCFG mcfg_table) (\<lambda>_.
     bnd (write_at XSDT xsdt_table) (\<lambda>_.
     bnd (write_at RSDP_ADDR rsdp_table) (\<lambda>_.
       ret RSDP_ADDR))))))"

definition is_acpi_reset :: "u16 \<Rightarrow> u8 list \<Rightarrow> bool" where
  "is_acpi_reset port data \<longleftrightarrow> port = 0xCF9 \<and> (case data of [] \<Rightarrow> False | b # _ \<Rightarrow> b AND 4 \<noteq> 0)"

section \<open>Checksums\<close>

lemma length_text_bytes: "length (text_bytes s) = length s"
  by (simp add: text_bytes_def)

lemma fold_plus: "fold (\<lambda>b s. s + b) bs (a :: u8) = a + sum_list bs"
  by (induction bs arbitrary: a) (simp_all add: add.assoc)

lemma checksum_sum: "checksum bs = - sum_list bs" "acpi_checksum bs = - sum_list bs"
  by (simp_all add: checksum_def acpi_checksum_def fold_plus minus_eq_not_plus_1)

lemma sum_list_update: "i < length bs \<Longrightarrow> sum_list (bs[i := x]) = sum_list bs - bs ! i + (x :: u8)"
  by (induction bs arbitrary: i) (auto simp: algebra_simps split: nat.split)

lemma summed_sum: "9 < length t \<Longrightarrow> t ! 9 = 0 \<Longrightarrow> sum_list (summed t) = 0"
  by (simp add: summed_def checksum_sum sum_list_update)

lemma slice_update_other: "i < a \<or> b \<le> i \<Longrightarrow> slice a b (xs[i := v]) = slice a b xs"
  by (rule nth_equalityI) (auto simp: slice_def nth_list_update)

lemma nth_put_outside: "i < off \<or> off + length bs \<le> i \<Longrightarrow> put_bytes off bs buf ! i = buf ! i"
  by (induction off bs buf rule: put_bytes.induct) (auto simp: nth_list_update)

lemma slice_put_other: "off + length bs \<le> a \<or> b \<le> off \<Longrightarrow> slice a b (put_bytes off bs buf) = slice a b buf"
  by (rule nth_equalityI) (auto simp: slice_def intro!: nth_put_outside)

section \<open>Reading the MP table\<close>

text \<open>
  The entries a kernel reads: processors take 20 bytes, all other kinds eight. A processor has its APIC
  number and whether it is the boot processor, an interrupt its source on the ISA bus and its pin.
\<close>

datatype MpEntry = MpProcessor u8 bool | MpBus u8 "u8 list" | MpIoApic u8 u32 | MpIoInterrupt u8 u8 | MpLocalInterrupt u8 u8

definition mp_entry :: "u8 list \<Rightarrow> MpEntry option" where
  "mp_entry b =
     (if b ! 0 = 0 then Some (MpProcessor (b ! 1) (b ! 3 AND 2 = 2))
      else if b ! 0 = 1 then Some (MpBus (b ! 1) (slice 2 8 b))
      else if b ! 0 = 2 then Some (MpIoApic (b ! 1) (u32_from_le (slice 4 8 b)))
      else if b ! 0 = 3 then Some (MpIoInterrupt (b ! 5) (b ! 7))
      else if b ! 0 = 4 then Some (MpLocalInterrupt (b ! 1) (b ! 7))
      else None)"

fun mp_parse :: "nat \<Rightarrow> u8 list \<Rightarrow> MpEntry list option" where
  "mp_parse 0 bs = (if bs = [] then Some [] else None)"
| "mp_parse (Suc n) bs =
     (let size = (if bs \<noteq> [] \<and> hd bs = 0 then 20 else 8) in
      if length bs < size then None
      else case mp_entry bs of
             None \<Rightarrow> None
           | Some e \<Rightarrow> map_option ((#) e) (mp_parse n (drop size bs)))"

lemmas le_bytes = u16_to_le_def u32_to_le_def u64_to_le_def

lemma mp_parse_entry:
  "mp_parse (Suc n) (mp_processor i @ r) = map_option ((#) (MpProcessor i (i = 0))) (mp_parse n r)"
  "mp_parse (Suc n) (mp_bus @ r) = map_option ((#) (MpBus 0 (text_bytes ''ISA   ''))) (mp_parse n r)"
  "mp_parse (Suc n) (mp_ioapic @ r) = map_option ((#) (MpIoApic 0 MP_IOAPIC_ADDR)) (mp_parse n r)"
  "mp_parse (Suc n) (mp_io_interrupt q @ r) = map_option ((#) (MpIoInterrupt q q)) (mp_parse n r)"
  "mp_parse (Suc n) (mp_local_interrupt ty l @ r) = map_option ((#) (MpLocalInterrupt ty l)) (mp_parse n r)"
  by (simp_all add: mp_processor_def mp_bus_def mp_ioapic_def mp_io_interrupt_def mp_local_interrupt_def mp_entry_def le_bytes
      text_bytes_def MP_IOAPIC_ADDR_def u32_from_le_def slice_def Let_def)

declare mp_parse.simps(2) [simp del]

lemma mp_parse_map:
  assumes "\<And>i n r. mp_parse (Suc n) (f i @ r) = map_option ((#) (g i)) (mp_parse n r)"
  shows "mp_parse (length ks + n) (concat (map f ks) @ r) = map_option ((@) (map g ks)) (mp_parse n r)"
proof (induction ks)
  case (Cons i ks)
  then show ?case by (simp add: assms option.map_comp o_def)
qed (simp add: option.map_ident)

definition mp_expected :: "nat \<Rightarrow> MpEntry list" where
  "mp_expected cpus =
     map (\<lambda>i. MpProcessor (of_nat i) (of_nat i = (0 :: u8))) [0..<cpus] @ [MpBus 0 (text_bytes ''ISA   ''), MpIoApic 0 MP_IOAPIC_ADDR] @
     map (\<lambda>q. MpIoInterrupt (of_nat q) (of_nat q)) mp_irqs @ [MpLocalInterrupt 3 0, MpLocalInterrupt 1 1]"

definition mp_body :: "nat \<Rightarrow> u8 list" where
  "mp_body cpus = concat (map (\<lambda>i. mp_processor (of_nat i)) [0..<cpus]) @ mp_bus @ mp_ioapic @
     concat (map (\<lambda>q. mp_io_interrupt (of_nat q)) mp_irqs) @ mp_local_interrupt 3 0 @ mp_local_interrupt 1 1"

lemma length_mp_irqs: "length mp_irqs = 15"
  by code_simp

lemma mp_parse_body: "mp_parse (cpus + 19) (mp_body cpus) = Some (mp_expected cpus)"
proof -
  have "mp_parse (Suc (Suc 0)) (mp_local_interrupt 3 0 @ mp_local_interrupt 1 1 @ []) = Some [MpLocalInterrupt 3 0, MpLocalInterrupt 1 1]"
    unfolding mp_parse_entry by simp
  then have "mp_parse (length mp_irqs + 2) (concat (map (\<lambda>q. mp_io_interrupt (of_nat q)) mp_irqs) @ mp_local_interrupt 3 0 @ mp_local_interrupt 1 1) =
      Some (map (\<lambda>q. MpIoInterrupt (of_nat q) (of_nat q)) mp_irqs @ [MpLocalInterrupt 3 0, MpLocalInterrupt 1 1])"
    by (subst mp_parse_map [where g = "\<lambda>q. MpIoInterrupt (of_nat q) (of_nat q)"]) (simp_all add: mp_parse_entry numeral_2_eq_2)
  then have "mp_parse 19 (mp_bus @ mp_ioapic @ concat (map (\<lambda>q. mp_io_interrupt (of_nat q)) mp_irqs) @ mp_local_interrupt 3 0 @ mp_local_interrupt 1 1) =
      Some (drop cpus (mp_expected cpus))"
    by (simp add: length_mp_irqs mp_parse_entry eval_nat_numeral mp_expected_def)
  then show ?thesis
    using mp_parse_map [of "\<lambda>i. mp_processor (of_nat i)" "\<lambda>i. MpProcessor (of_nat i) (of_nat i = (0 :: u8))" "[0..<cpus]" 19]
    by (simp add: mp_parse_entry mp_body_def mp_expected_def)
qed

lemma length_mp_pieces:
  "length mp_header = 44" "length (mp_processor i) = 20" "length mp_bus = 8" "length mp_ioapic = 8"
  "length (mp_io_interrupt q) = 8" "length (mp_local_interrupt ty l) = 8"
  by (simp_all add: mp_header_def mp_processor_def mp_bus_def mp_ioapic_def mp_io_interrupt_def mp_local_interrupt_def text_bytes_def)

lemma length_mp_body: "length (mp_body cpus) = 20 * cpus + 152"
proof -
  have "length (concat (map (\<lambda>i. mp_processor (of_nat i)) [0..<cpus])) = 20 * cpus"
    by (induction cpus) (simp_all add: length_mp_pieces)
  moreover have "length (concat (map (\<lambda>q. mp_io_interrupt (of_nat q)) qs)) = 8 * length qs" for qs
    by (induction qs) (simp_all add: length_mp_pieces)
  ultimately show ?thesis by (simp add: mp_body_def length_mp_pieces length_mp_irqs)
qed

lemma mp_table_facts:
  assumes "cpus \<le> 8"
  shows "length (mp_table cpus) = 20 * cpus + 196" and "sum_list (mp_table cpus) = 0" and "take 4 (mp_table cpus) = text_bytes ''PCMP''"
    and "get_u16 (mp_table cpus) 4 = of_nat (length (mp_table cpus))" and "get_u16 (mp_table cpus) 34 = of_nat (cpus + 19)"
    and "drop 44 (mp_table cpus) = mp_body cpus"
proof -
  define t where "t = put_u16 34 (of_nat cpus + 1 + 1 + of_nat (length mp_irqs) + 1 + 1) (put_u16 4 (of_nat (length (mp_header @ mp_body cpus))) (mp_header @ mp_body cpus))"
  have mt: "mp_table cpus = t[7 := 0, 7 := checksum (t[7 := 0])]" by (simp add: mp_table_def mp_body_def t_def Let_def)
  have len: "length t = 20 * cpus + 196" by (simp add: t_def put_u16_def length_mp_body length_mp_pieces)
  show "length (mp_table cpus) = 20 * cpus + 196" by (simp add: mt len)
  show "sum_list (mp_table cpus) = 0" by (simp add: mt checksum_sum sum_list_update len)
  show "take 4 (mp_table cpus) = text_bytes ''PCMP''"
    by (rule nth_equalityI) (auto simp: mt len t_def put_u16_def nth_put_bytes mp_header_def text_bytes_def nth_append nth_list_update less_Suc_eq_0_disj numeral_eq_Suc)
  show "get_u16 (mp_table cpus) 4 = of_nat (length (mp_table cpus))"
    using slice_put_same [of 4 "u16_to_le (of_nat (length (mp_header @ mp_body cpus)))" "mp_header @ mp_body cpus"]
    by (simp add: mt len t_def put_u16_def get_u16_def slice_update_other slice_put_other length_mp_body length_mp_pieces)
  show "get_u16 (mp_table cpus) 34 = of_nat (cpus + 19)"
    using slice_put_same [of 34 "u16_to_le (of_nat cpus + 1 + 1 + of_nat (length mp_irqs) + 1 + 1)" "put_u16 4 (of_nat (length (mp_header @ mp_body cpus))) (mp_header @ mp_body cpus)"]
    by (simp add: mt len t_def put_u16_def get_u16_def slice_update_other length_mp_body length_mp_pieces length_mp_irqs)
  show "drop 44 (mp_table cpus) = mp_body cpus"
    by (rule nth_equalityI) (auto simp: mt len t_def put_u16_def nth_put_bytes length_mp_body length_mp_pieces nth_append nth_list_update)
qed

section \<open>Reading the ACPI tables\<close>

definition acpi_table_ok :: "string \<Rightarrow> u8 list \<Rightarrow> bool" where
  "acpi_table_ok sig t \<longleftrightarrow> slice 0 4 t = text_bytes sig \<and> unat (u32_from_le (slice 4 8 t)) = length t \<and> sum_list t = 0"

datatype MadtEntry = LocalApic u8 u8 u32 | IoApic u8 u32 u32

fun madt_parse :: "nat \<Rightarrow> u8 list \<Rightarrow> MadtEntry list option" where
  "madt_parse 0 bs = (if bs = [] then Some [] else None)"
| "madt_parse (Suc n) bs =
     (if length bs < 2 \<or> length bs < unat (bs ! 1) then None
      else if bs ! 0 = 0 \<and> bs ! 1 = 8
      then map_option ((#) (LocalApic (bs ! 2) (bs ! 3) (u32_from_le (slice 4 8 bs)))) (madt_parse n (drop 8 bs))
      else if bs ! 0 = 1 \<and> bs ! 1 = 12
      then map_option ((#) (IoApic (bs ! 2) (u32_from_le (slice 4 8 bs)) (u32_from_le (slice 8 12 bs)))) (madt_parse n (drop 12 bs))
      else None)"

declare madt_parse.simps(2) [simp del]

lemma put_put: "put_bytes (off + length a) b (put_bytes off a buf) = put_bytes off (a @ b) buf"
  by (induction off a buf rule: put_bytes.induct) simp_all

lemma put_put_at: "k = off + length a \<Longrightarrow> put_bytes k b (put_bytes off a buf) = put_bytes off (a @ b) buf"
  by (simp only: put_put)

lemma drop_put: "off + length bs = length buf \<Longrightarrow> drop off (put_bytes off bs buf) = bs"
  by (rule nth_equalityI) (auto simp: nth_put_bytes)

definition headed :: "string \<Rightarrow> u32 \<Rightarrow> u8 list \<Rightarrow> bool" where
  "headed sig len t \<longleftrightarrow> 36 \<le> length t \<and> slice 0 4 t = text_bytes sig \<and> slice 4 8 t = u32_to_le len \<and> t ! 9 = 0"

lemma headed_write:
  assumes "36 \<le> length buf" and "length sig = 4"
  shows "headed sig len (write_header sig len revision buf)"
proof -
  have p: "slice 0 4 (put_bytes 0 (text_bytes sig) buf) = text_bytes sig"
    using slice_put_same [of 0 "text_bytes sig" buf] assms by (simp add: text_bytes_def)
  have q: "slice 4 8 (put_bytes 4 (u32_to_le len) b) = u32_to_le len" if "8 \<le> length b" for b
    using slice_put_same [of 4 "u32_to_le len" b] that by simp
  show ?thesis using assms p q
    by (simp add: headed_def write_header_def Let_def put_u32_def slice_put_other slice_update_other nth_put_outside text_bytes_def)
qed

lemma headed_keep:
  "headed sig len t \<Longrightarrow> 36 \<le> off \<Longrightarrow> headed sig len (put_bytes off bs t)"
  "headed sig len t \<Longrightarrow> 36 \<le> i \<Longrightarrow> headed sig len (t[i := v])"
  by (simp_all add: headed_def slice_put_other slice_update_other nth_put_outside)

lemmas headed_puts = headed_keep(1) [of _ _ _ _ "u16_to_le _", folded put_u16_def] headed_keep(1) [of _ _ _ _ "u32_to_le _", folded put_u32_def]
  headed_keep(1) [of _ _ _ _ "u64_to_le _", folded put_u64_def]

lemma headed_ok:
  assumes "headed sig len t" and "unat len = length t"
  shows "acpi_table_ok sig (summed t)"
proof -
  have "sum_list (summed t) = 0" using assms(1) by (intro summed_sum) (simp_all add: headed_def)
  then show ?thesis using assms
    by (simp add: acpi_table_ok_def headed_def slice_update_other summed_def [of t])
qed

lemma length_puts [simp]:
  "length (put_u16 off a buf) = length buf" "length (put_u32 off b buf) = length buf" "length (put_u64 off c buf) = length buf"
  "length (summed buf) = length buf" "length (write_header sig len revision buf) = length buf"
  by (simp_all add: put_u16_def put_u32_def put_u64_def summed_def write_header_def Let_def)

lemma slice_summed: "9 < a \<or> b \<le> 9 \<Longrightarrow> slice a b (summed t) = slice a b t"
  by (simp add: summed_def slice_update_other)

lemma slice_put_at: "n = off + length bs \<Longrightarrow> n \<le> length buf \<Longrightarrow> slice off n (put_bytes off bs buf) = bs"
  using slice_put_same by blast

lemma slice_put_u64: "off + 8 \<le> length buf \<Longrightarrow> slice off (off + 8) (put_u64 off v buf) = u64_to_le v"
  using slice_put_same [of off "u64_to_le v" buf] by (simp add: put_u64_def)

lemma slice_put_u32: "off + 4 \<le> length buf \<Longrightarrow> slice off (off + 4) (put_u32 off v buf) = u32_to_le v"
  using slice_put_same [of off "u32_to_le v" buf] by (simp add: put_u32_def)

lemma slice_puts_other:
  "off + 2 \<le> a \<or> b \<le> off \<Longrightarrow> slice a b (put_u16 off x buf) = slice a b buf"
  "off + 4 \<le> a \<or> b \<le> off \<Longrightarrow> slice a b (put_u32 off y buf) = slice a b buf"
  "off + 8 \<le> a \<or> b \<le> off \<Longrightarrow> slice a b (put_u64 off z buf) = slice a b buf"
  by (simp_all add: put_u16_def put_u32_def put_u64_def slice_put_other)

lemmas table_slices = slice_summed slice_puts_other slice_update_other

lemma fadt_facts:
  "acpi_table_ok ''FACP'' fadt_table" "length fadt_table = 276" "slice 40 44 fadt_table = u32_to_le (ucast DSDT_GPA)"
  "slice 140 148 fadt_table = u64_to_le DSDT_GPA" "fadt_table ! 116 = 1" "slice 120 128 fadt_table = u64_to_le 0xCF9" "fadt_table ! 128 = 6"
proof -
  show "acpi_table_ok ''FACP'' fadt_table"
    unfolding fadt_table_def Let_def by (intro headed_ok [where len = 276] headed_puts headed_keep(2) headed_write) simp_all
  show "length fadt_table = 276" by (simp add: fadt_table_def Let_def)
  show "slice 40 44 fadt_table = u32_to_le (ucast DSDT_GPA)"
    using slice_put_u32 [of 40 "write_header ''FACP'' 276 5 (replicate 276 0)"] by (simp add: fadt_table_def Let_def table_slices)
  show "slice 140 148 fadt_table = u64_to_le DSDT_GPA"
    unfolding fadt_table_def Let_def by (subst slice_summed) (simp_all add: slice_put_u64 [of 140, simplified])
  show "slice 120 128 fadt_table = u64_to_le 0xCF9"
    unfolding fadt_table_def Let_def by (simp add: table_slices) (rule slice_put_u64 [of 120, simplified], simp)
  show "fadt_table ! 116 = 1" "fadt_table ! 128 = 6"
    by (simp_all add: fadt_table_def Let_def summed_def put_u64_def put_u32_def nth_put_outside)
qed

lemma mcfg_facts:
  "acpi_table_ok ''MCFG'' mcfg_table" "length mcfg_table = 60" "slice 44 52 mcfg_table = u64_to_le PCI_MMCONFIG_START"
proof -
  show "acpi_table_ok ''MCFG'' mcfg_table"
    unfolding mcfg_table_def Let_def by (intro headed_ok [where len = 60] headed_puts headed_keep(2) headed_write) simp_all
  show "length mcfg_table = 60" by (simp add: mcfg_table_def Let_def)
  show "slice 44 52 mcfg_table = u64_to_le PCI_MMCONFIG_START"
    using slice_put_u64 [of 44 "write_header ''MCFG'' 60 1 (replicate 60 0)"] by (simp add: mcfg_table_def Let_def table_slices)
qed

lemma xsdt_facts:
  "acpi_table_ok ''XSDT'' xsdt_table" "length xsdt_table = 60" "slice 36 44 xsdt_table = u64_to_le FADT"
  "slice 44 52 xsdt_table = u64_to_le MADT" "slice 52 60 xsdt_table = u64_to_le MCFG"
proof -
  let ?h = "write_header ''XSDT'' 60 1 (replicate 60 0)"
  show "acpi_table_ok ''XSDT'' xsdt_table"
    unfolding xsdt_table_def Let_def by (intro headed_ok [where len = 60] headed_puts headed_keep(2) headed_write) simp_all
  show "length xsdt_table = 60" by (simp add: xsdt_table_def Let_def)
  show "slice 36 44 xsdt_table = u64_to_le FADT"
    using slice_put_u64 [of 36 ?h] by (simp add: xsdt_table_def Let_def table_slices)
  show "slice 44 52 xsdt_table = u64_to_le MADT"
    using slice_put_u64 [of 44 "put_u64 36 FADT ?h"] by (simp add: xsdt_table_def Let_def table_slices)
  show "slice 52 60 xsdt_table = u64_to_le MCFG"
    using slice_put_u64 [of 52 "put_u64 44 MADT (put_u64 36 FADT ?h)"] by (simp add: xsdt_table_def Let_def table_slices)
qed

lemma rsdp_facts:
  "length rsdp_table = 36" "sum_list rsdp_table = 0" "sum_list (take 20 rsdp_table) = 0" "slice 0 8 rsdp_table = text_bytes ''RSD PTR ''"
  "slice 24 32 rsdp_table = u64_to_le XSDT"
proof -
  define a where "a = put_bytes 9 (text_bytes ''FLUXVM'') (put_bytes 0 (text_bytes ''RSD PTR '') (replicate 36 0))"
  define b where "b = put_u32 20 36 (put_u32 16 0 (a[15 := 2]))"
  define r where "r = put_u64 24 XSDT b"
  have len: "length a = 36" "length b = 36" "length r = 36" by (simp_all add: a_def b_def r_def)
  have z: "r ! 8 = 0" "r ! 32 = 0"
    by (simp_all add: r_def b_def a_def put_u32_def put_u64_def nth_put_outside text_bytes_def)
  let ?r = "r[8 := acpi_checksum (take 20 r)]"
  have rs: "rsdp_table = ?r[32 := acpi_checksum ?r]" by (simp add: rsdp_table_def r_def b_def a_def Let_def)
  show "length rsdp_table = 36" by (simp add: rs len)
  show "sum_list rsdp_table = 0" by (simp add: rs len z sum_list_update checksum_sum)
  show "sum_list (take 20 rsdp_table) = 0" by (simp add: rs len z sum_list_update checksum_sum take_update_swap list_update_beyond)
  show "slice 0 8 rsdp_table = text_bytes ''RSD PTR ''"
    using slice_put_at [of 8 0 "text_bytes ''RSD PTR ''" "replicate 36 0"]
    by (simp add: rs r_def b_def a_def table_slices slice_put_other length_text_bytes)
  show "slice 24 32 rsdp_table = u64_to_le XSDT"
    using slice_put_u64 [of 24 b XSDT] len by (simp add: rs r_def slice_update_other)
qed

definition madt_bytes :: "nat \<Rightarrow> u8 list" where
  "madt_bytes n = concat (map (\<lambda>i. [0, 8, of_nat i, of_nat i] @ u32_to_le 1) [0..<n])"

lemma length_madt_bytes: "length (madt_bytes n) = 8 * n"
  by (induction n) (simp_all add: madt_bytes_def)

lemma fold_madt_cpu: "fold madt_cpu [0..<n] t = put_bytes 44 (madt_bytes n) t"
proof (induction n)
  case (Suc n)
  let ?e = "[0, 8, of_nat n, of_nat n] @ u32_to_le 1"
  have c: "madt_cpu n b = put_bytes (44 + 8 * n) ?e b" for b
    using put_put [of "44 + 8 * n" "[0, 8, of_nat n, of_nat n]" "u32_to_le 1" b] by (simp add: madt_cpu_def put_u32_def)
  have "fold madt_cpu [0..<Suc n] t = put_bytes (44 + length (madt_bytes n)) ?e (put_bytes 44 (madt_bytes n) t)"
    using Suc by (simp add: c length_madt_bytes del: put_bytes.simps append.simps)
  also have "\<dots> = put_bytes 44 (madt_bytes n @ ?e) t" by (rule put_put)
  also have "madt_bytes n @ ?e = madt_bytes (Suc n)" by (simp add: madt_bytes_def)
  finally show ?case .
qed (simp add: madt_bytes_def)

definition madt_expected :: "nat \<Rightarrow> MadtEntry list" where
  "madt_expected n = map (\<lambda>i. LocalApic (of_nat i) (of_nat i) 1) [0..<n] @ [IoApic 0 MP_IOAPIC_ADDR 0]"

lemma madt_parse_bytes:
  "madt_parse (Suc n) (madt_bytes n @ [1, 12, 0, 0] @ u32_to_le MP_IOAPIC_ADDR @ u32_to_le 0) = Some (madt_expected n)"
proof -
  have one: "madt_parse (Suc k) (0 # 8 # i # i # u32_to_le 1 @ r) = map_option ((#) (LocalApic i i 1)) (madt_parse k r)" for k i r
    by (simp add: madt_parse.simps le_bytes u32_from_le_def slice_def)
  have "madt_parse (length ks + k) (concat (map (\<lambda>i. [0, 8, of_nat i, of_nat i] @ u32_to_le 1) ks) @ r) =
      map_option ((@) (map (\<lambda>i. LocalApic (of_nat i) (of_nat i) 1) ks)) (madt_parse k r)" for ks k r
    by (induction ks) (simp_all add: one option.map_comp o_def option.map_ident)
  from this [of "[0..<n]" "Suc 0" "[1, 12, 0, 0] @ u32_to_le MP_IOAPIC_ADDR @ u32_to_le 0"]
  have "madt_parse (Suc n) (madt_bytes n @ [1, 12, 0, 0] @ u32_to_le MP_IOAPIC_ADDR @ u32_to_le 0) =
      map_option ((@) (map (\<lambda>i. LocalApic (of_nat i) (of_nat i) 1) [0..<n]))
        (madt_parse (Suc 0) ([1, 12, 0, 0] @ u32_to_le MP_IOAPIC_ADDR @ u32_to_le 0))"
    by (simp add: madt_bytes_def)
  also have "madt_parse (Suc 0) ([1, 12, 0, 0] @ u32_to_le MP_IOAPIC_ADDR @ u32_to_le 0) = Some [IoApic 0 MP_IOAPIC_ADDR 0]"
    by (simp add: madt_parse.simps le_bytes u32_from_le_def slice_def MP_IOAPIC_ADDR_def)
  finally show ?thesis by (simp add: madt_expected_def)
qed

lemma madt_facts:
  "acpi_table_ok ''APIC'' (madt_table n)" "length (madt_table n) = 56 + 8 * unat n"
  "madt_parse (Suc (unat n)) (drop 44 (madt_table n)) = Some (madt_expected (unat n))"
proof -
  define len :: u32 where "len = 44 + 8 * ucast n + 12"
  have len: "unat len = 56 + 8 * unat n" using unat_bounds(1) [of n] by (simp add: len_def unat_word_ariths)
  let ?io = "[1, 12, 0, 0] @ u32_to_le MP_IOAPIC_ADDR @ u32_to_le 0"
  define t where "t = put_u32 40 1 (put_u32 36 LAPIC_ADDR (write_header ''APIC'' len 3 (replicate (unat len) 0)))"
  have lt: "length t = 56 + 8 * unat n" by (simp add: t_def len)
  have ioa: "put_u32 (o1 + 8) 0 (put_u32 (o1 + 4) MP_IOAPIC_ADDR (put_bytes o1 [1, 12, 0, 0] b)) = put_bytes o1 ?io b" for o1 b
  proof -
    have "put_bytes (o1 + 8) (u32_to_le 0) (put_bytes (o1 + 4) (u32_to_le MP_IOAPIC_ADDR) (put_bytes o1 [1, 12, 0, 0] b)) =
        put_bytes (o1 + 4) (u32_to_le MP_IOAPIC_ADDR @ u32_to_le 0) (put_bytes o1 [1, 12, 0, 0] b)" by (rule put_put_at) simp
    also have "\<dots> = put_bytes o1 ?io b" by (rule put_put_at) simp
    finally show ?thesis unfolding put_u32_def .
  qed
  have m: "madt_table n = summed (put_bytes 44 (madt_bytes (unat n) @ ?io) t)"
    using put_put [of 44 "madt_bytes (unat n)" ?io t] ioa [of "44 + 8 * unat n"]
    by (simp add: madt_table_def Let_def fold_madt_cpu length_madt_bytes len_def [symmetric] t_def [symmetric] del: put_bytes.simps append.simps)
  have "headed ''APIC'' len t" unfolding t_def by (intro headed_puts headed_write) (simp_all add: len)
  then show "acpi_table_ok ''APIC'' (madt_table n)"
    unfolding m using len lt by (intro headed_ok [where len = len] headed_keep(1)) auto
  show "length (madt_table n) = 56 + 8 * unat n" by (simp add: m lt)
  have "drop 44 (madt_table n) = madt_bytes (unat n) @ ?io"
    unfolding m summed_def by (subst drop_update_cancel) (simp_all add: drop_put length_madt_bytes lt del: put_bytes.simps append.simps)
  then show "madt_parse (Suc (unat n)) (drop 44 (madt_table n)) = Some (madt_expected (unat n))"
    using madt_parse_bytes by simp
qed

lemma length_dsdt_aml: "length dsdt_aml = 84"
proof -
  have n: "length (name_seg x) = 4" for x by (simp add: name_seg_def length_text_bytes)
  have c: "length dsdt_crs = 30" by (simp add: dsdt_crs_def memory32_fixed_def Let_def)
  show ?thesis by (simp add: dsdt_aml_def push_pkg_def n c Let_def pkg_loop.simps encode_pkg_len_def)
qed

lemma dsdt_facts: "acpi_table_ok ''DSDT'' dsdt_table" "length dsdt_table = 120"
proof -
  show "acpi_table_ok ''DSDT'' dsdt_table"
    unfolding dsdt_table_def Let_def
    by (intro headed_ok [where len = "of_nat (36 + length dsdt_aml)"] headed_keep(1) headed_write) (simp_all add: length_dsdt_aml)
  show "length dsdt_table = 120" by (simp add: dsdt_table_def Let_def length_dsdt_aml)
qed

section \<open>AML lengths and identifiers\<close>

text \<open>
  The package length of the ACPI specification: the two top bits of the first byte count the bytes
  that follow, which hold the length from bit four on.
\<close>

definition pkg_decode :: "u8 list \<Rightarrow> (nat \<times> u8 list) option" where
  "pkg_decode bs =
     (case bs of
        [] \<Rightarrow> None
      | b # r \<Rightarrow>
          let k = unat b div 64 in
          if k = 0 then Some (unat b mod 64, r)
          else if length r < k then None
          else Some (unat b mod 16 + 16 * le_val (take k r), drop k r))"

lemma low_nibble:
  assumes "k < 16"
  shows "unat (of_nat k OR 0x40 :: u8) = 64 + k" and "unat (of_nat k OR 0x80 :: u8) = 128 + k"
proof -
  have "k \<in> set [0..<16]" using assms by simp
  then have "k \<in> {0, 1, 2, 3, 4, 5, 6, 7, 8, 9, 10, 11, 12, 13, 14, 15}" by (simp add: upt_rec numeral_eq_Suc)
  then show "unat (of_nat k OR 0x40 :: u8) = 64 + k" "unat (of_nat k OR 0x80 :: u8) = 128 + k" by auto
qed

lemma pkg_decode_encode:
  assumes "n < 2 ^ 20"
  shows "pkg_decode (encode_pkg_len n @ r) = Some (n, r)"
proof -
  have m: "n mod 16 < 16" by simp
  have d: "n div 16 < 65536" using assms by (simp add: less_mult_imp_div_less)
  have "n div 4096 mod 256 = n div 4096" using assms by (simp add: less_mult_imp_div_less)
  moreover have "n div 4096 = n div 16 div 256" by (simp add: div_mult2_eq [symmetric])
  ultimately have "n div 16 mod 256 + 256 * (n div 4096 mod 256) = n div 16" by simp
  moreover have q: "(64 + n mod 16) div 64 = 1" "(128 + n mod 16) div 64 = 2"
    using m by (auto intro: div_nat_eqI)
  moreover have "(64 + n mod 16) mod 16 = n mod 16" "(128 + n mod 16) mod 16 = n mod 16"
    using mod_mult_self3 [of 4 16 "n mod 16"] mod_mult_self3 [of 8 16 "n mod 16"] by simp_all
  ultimately show ?thesis using d mult_div_mod_eq [of 16 n]
    by (simp add: encode_pkg_len_def pkg_decode_def low_nibble unat_of_nat Let_def less_mult_imp_div_less numeral_2_eq_2)
qed

lemma pkg_loop_fixed: "pkg_loop p w = encode_pkg_len (length (pkg_loop p w) + p)"
proof (induction p w rule: pkg_loop.induct)
  case (1 p w)
  then show ?case by (subst (1 2) pkg_loop.simps) (simp add: Let_def)
qed

text \<open>An EISA identifier as the specification packs it: three letters of five bits and four digits, high byte first.\<close>

definition eisa_decode :: "u8 list \<Rightarrow> string" where
  "eisa_decode bs =
     (let v = unat (bs ! 0) * 256 + unat (bs ! 1); w = unat (bs ! 2) * 256 + unat (bs ! 3)
      in map (\<lambda>k. char_of (64 + v div k mod 32)) [1024, 32, 1] @ map (\<lambda>k. hex_upper (w div k mod 16)) [4096, 256, 16, 1])"

section \<open>Properties\<close>

definition mp_writes :: "u8 \<Rightarrow> (u64 \<times> u8 list) list" where
  "mp_writes n = [(MPFLOAT_GPA + 16, mp_table (mp_cpus n)), (MPFLOAT_GPA, mp_floating_pointer (checksum (mp_floating_pointer 0)))]"

lemma write_mptable_seq: "write_mptable n = gm.wr_seq (mp_writes n)"
  by (rule ext) (auto simp: write_mptable_def mp_writes_def bnd_def split: prod.split sum.split)

text \<open>What a kernel that scans for the table finds: the pointer, the table it points to, and the entries the header counts.\<close>

definition mp_found :: "GuestMemory \<Rightarrow> nat \<Rightarrow> bool" where
  "mp_found m cpus \<longleftrightarrow> (\<exists>fp t.
     read_at MPFLOAT_GPA 16 m = Inr fp \<and> slice 0 4 fp = text_bytes ''_MP_'' \<and> sum_list fp = 0 \<and>
     read_at (ucast (u32_from_le (slice 4 8 fp))) (length t) m = Inr t \<and> take 4 t = text_bytes ''PCMP'' \<and>
     unat (get_u16 t 4) = length t \<and> sum_list t = 0 \<and> mp_parse (unat (get_u16 t 34)) (drop 44 t) = Some (mp_expected cpus))"

lemma mp_cpus_bound: "mp_cpus n \<le> 8"
  by (auto simp: mp_cpus_def word_le_nat_alt min_def max_def)

lemma length_mp_pointer: "length (mp_floating_pointer x) = 16"
  by (simp add: mp_floating_pointer_def length_text_bytes)

lemma mp_of_images:
  assumes r: "\<And>x d. (x, d) \<in> set (mp_writes n) \<Longrightarrow> read_at x (length d) m = Inr d"
  shows "mp_found m (mp_cpus n)"
proof -
  let ?c = "mp_cpus n" let ?fp = "mp_floating_pointer (checksum (mp_floating_pointer 0))" let ?t = "mp_table (mp_cpus n)"
  note t = mp_table_facts [OF mp_cpus_bound [of n]]
  have "sum_list ?fp = 0" by (simp add: checksum_sum mp_floating_pointer_def)
  moreover have "slice 0 4 ?fp = text_bytes ''_MP_''" "ucast (u32_from_le (slice 4 8 ?fp)) = MPFLOAT_GPA + 16"
    by (simp_all add: mp_floating_pointer_def slice_def text_bytes_def le_bytes u32_from_le_def MPFLOAT_GPA_def)
  moreover have "unat (of_nat (length ?t) :: u16) = length ?t" "unat (of_nat (?c + 19) :: u16) = ?c + 19"
    using mp_cpus_bound [of n] unfolding t(1) unat_of_nat by simp_all
  moreover have "read_at MPFLOAT_GPA 16 m = Inr ?fp" "read_at (MPFLOAT_GPA + 16) (length ?t) m = Inr ?t"
    using r [of MPFLOAT_GPA ?fp] r [of "MPFLOAT_GPA + 16" ?t] by (simp_all add: mp_writes_def length_mp_pointer)
  ultimately show ?thesis using t(2,3) mp_parse_body [of ?c] unfolding mp_found_def
    by - (rule exI [of _ ?fp], rule exI [of _ ?t], simp only: t(4,5,6) HOL.simp_thms)
qed

lemma mp_writes_fit: "(x, d) \<in> set (mp_writes n) \<Longrightarrow> 0x9FC00 \<le> unat x \<and> unat x + length d \<le> 0xA0000"
  using mp_cpus_bound [of n] mp_table_facts(1) [OF mp_cpus_bound [of n]]
  by (auto simp: mp_writes_def length_mp_pointer MPFLOAT_GPA_def)

lemma write_tables_seq:
  assumes "gm.wr_seq [(DSDT_GPA, dsdt_table), (FADT, fadt_table), (MADT, madt_table n), (MCFG, mcfg_table), (XSDT, xsdt_table), (RSDP_ADDR, rsdp_table)] m = (Inr (), m')"
  shows "write_tables n m = (Inr RSDP_ADDR, m')"
  using assms by (auto simp: write_tables_def bnd_eq_Inr ret_def)

text \<open>
  A kernel that looks for the MP table finds it. In every RAM of at least a megabyte the table is written, the
  floating pointer has its signature, sums to zero and points to a configuration table that has its
  signature and its own length and sums to zero, whose entries, read one by one as many as the header
  counts, are the processors 0 up to the clamped number with the first as boot processor, the bus, the
  interrupt controller, the identity routes of all ISA interrupts but the cascade, and the two local
  interrupts.
\<close>

theorem mptable_readable:
  assumes "mem_ok m" and "0x100000 \<le> ram_len m"
  shows "\<exists>m'. write_mptable n m = (Inr (), m') \<and> mp_found m' (mp_cpus n)"
proof -
  have "unat x + length d \<le> ram_len m" if "(x, d) \<in> set (mp_writes n)" for x d
    using mp_writes_fit [OF that] assms(2) by simp
  then obtain m' where w: "gm.wr_seq (mp_writes n) m = (Inr (), m')" using gm.wr_seq_ok [OF assms(1)] by blast
  have "read_at x (length d) m' = Inr d" if "(x, d) \<in> set (mp_writes n)" for x d
    by (rule gm.rd_wr_seq_image [OF w that]) (simp add: mp_writes_def apart_def length_mp_pointer MPFLOAT_GPA_def)
  then have "mp_found m' (mp_cpus n)" by (rule mp_of_images)
  then show ?thesis using w write_mptable_seq by metis
qed

definition blank_ram :: GuestMemory where
  "blank_ram = \<lparr>ram = (\<lambda>_. 0), ram_len = 0x100000\<rparr>"

lemma blank_ram_ok: "mem_ok blank_ram" "0x100000 \<le> ram_len blank_ram"
  by (simp_all add: blank_ram_def mem_ok_def)

theorem mptable_readable_witness: "\<exists>m'. write_mptable 2 blank_ram = (Inr (), m') \<and> mp_found m' 2"
proof -
  have c: "mp_cpus 2 = 2" by (simp add: mp_cpus_def)
  show ?thesis using mptable_readable [OF blank_ram_ok, of 2] unfolding c .
qed

text \<open>
  C27. A kernel that follows the ACPI root pointer finds every table intact. In every RAM of at least a megabyte the
  tables are written; both sums of the root pointer are zero; it leads to the XSDT, the XSDT to the
  FADT, the MADT and the MCFG, and the FADT to the DSDT, each with its signature, its own length and a zero
  sum; the FADT names port 0xCF9 and value 6 for a reset, the MADT lists exactly the processors 0 up to
  the given number, and the MCFG has the address of the configuration window.
\<close>

theorem acpi_tables_readable:
  assumes "mem_ok m" and "0x100000 \<le> ram_len m"
  shows "\<exists>a m' rsdp xsdt fadt madt mcfg dsdt. write_tables n m = (Inr a, m') \<and>
    read_at a 36 m' = Inr rsdp \<and> slice 0 8 rsdp = text_bytes ''RSD PTR '' \<and> sum_list (take 20 rsdp) = 0 \<and> sum_list rsdp = 0 \<and>
    read_at (u64_from_le (slice 24 32 rsdp)) (length xsdt) m' = Inr xsdt \<and> acpi_table_ok ''XSDT'' xsdt \<and>
    read_at (u64_from_le (slice 36 44 xsdt)) (length fadt) m' = Inr fadt \<and> acpi_table_ok ''FACP'' fadt \<and>
    read_at (u64_from_le (slice 44 52 xsdt)) (length madt) m' = Inr madt \<and> acpi_table_ok ''APIC'' madt \<and>
    read_at (u64_from_le (slice 52 60 xsdt)) (length mcfg) m' = Inr mcfg \<and> acpi_table_ok ''MCFG'' mcfg \<and>
    read_at (u64_from_le (slice 140 148 fadt)) (length dsdt) m' = Inr dsdt \<and> acpi_table_ok ''DSDT'' dsdt \<and>
    fadt ! 116 = 1 \<and> u64_from_le (slice 120 128 fadt) = 0xCF9 \<and> is_acpi_reset 0xCF9 [fadt ! 128] \<and>
    madt_parse (Suc (unat n)) (drop 44 madt) = Some (madt_expected (unat n)) \<and> u64_from_le (slice 44 52 mcfg) = PCI_MMCONFIG_START"
proof -
  let ?ws = "[(DSDT_GPA, dsdt_table), (FADT, fadt_table), (MADT, madt_table n), (MCFG, mcfg_table), (XSDT, xsdt_table), (RSDP_ADDR, rsdp_table)]"
  note lens = dsdt_facts(2) fadt_facts(2) madt_facts(2) mcfg_facts(2) xsdt_facts(2) rsdp_facts(1)
  have n: "unat n < 256" by (rule unat_bounds)
  have "unat x + length d \<le> ram_len m" if "(x, d) \<in> set ?ws" for x d
    using that assms(2) n by (auto simp: lens table_consts)
  then obtain m' where w: "gm.wr_seq ?ws m = (Inr (), m')" using gm.wr_seq_ok [OF assms(1)] by blast
  have r: "read_at x (length d) m' = Inr d" if "(x, d) \<in> set ?ws" for x d
    by (rule gm.rd_wr_seq_image [OF w that]) (use n in \<open>simp add: apart_def lens table_consts\<close>)
  have "is_acpi_reset 0xCF9 [6]" by (simp add: is_acpi_reset_def)
  moreover have "read_at RSDP_ADDR 36 m' = Inr rsdp_table" using r [of RSDP_ADDR rsdp_table] by (simp add: rsdp_facts)
  moreover have "read_at XSDT (length xsdt_table) m' = Inr xsdt_table" "read_at FADT (length fadt_table) m' = Inr fadt_table"
    "read_at MADT (length (madt_table n)) m' = Inr (madt_table n)" "read_at MCFG (length mcfg_table) m' = Inr mcfg_table"
    "read_at DSDT_GPA (length dsdt_table) m' = Inr dsdt_table"
    by (rule r; simp)+
  ultimately show ?thesis
    using write_tables_seq [OF w] rsdp_facts xsdt_facts fadt_facts madt_facts [of n] mcfg_facts dsdt_facts
    by - (rule exI [of _ RSDP_ADDR], rule exI [of _ m'], rule exI [of _ rsdp_table], rule exI [of _ xsdt_table], rule exI [of _ fadt_table],
        rule exI [of _ "madt_table n"], rule exI [of _ mcfg_table], rule exI [of _ dsdt_table], simp)
qed

theorem acpi_tables_readable_witness:
  "\<exists>a m' x madt. write_tables 2 blank_ram = (Inr a, m') \<and> read_at x (length madt) m' = Inr madt \<and> acpi_table_ok ''APIC'' madt \<and>
     madt_parse 3 (drop 44 madt) = Some [LocalApic 0 0 1, LocalApic 1 1 1, IoApic 0 MP_IOAPIC_ADDR 0]"
proof -
  have "unat (2 :: u8) = 2" "[0..<2] = [0, 1]" by (simp, simp add: upt_rec)
  then have "madt_expected (unat (2 :: u8)) = [LocalApic 0 0 1, LocalApic 1 1 1, IoApic 0 MP_IOAPIC_ADDR 0]" "Suc (unat (2 :: u8)) = 3"
    by (simp_all only: madt_expected_def) simp_all
  note e = this
  show ?thesis using acpi_tables_readable [OF blank_ram_ok, of 2] unfolding e by blast
qed

text \<open>
  C29. The length field of an AML package counts itself. The search for its width ends, and the field read back by the rule of
  the specification is the number of bytes of the field and of all that follows it in the package.
\<close>

theorem pkg_length_counts_itself:
  assumes "length name + length body + 3 < 2 ^ 20"
  shows "\<exists>enc. push_pkg opcode name body = opcode @ enc @ name @ body \<and>
    pkg_decode (enc @ name @ body) = Some (length (enc @ name @ body), name @ body)"
proof -
  let ?e = "pkg_loop (length name + length body) 1"
  have f: "?e = encode_pkg_len (length ?e + (length name + length body))" by (rule pkg_loop_fixed)
  have "length ?e \<le> 3" by (subst f) (rule pkg_len_bounds)
  then have "pkg_decode (encode_pkg_len (length ?e + (length name + length body)) @ name @ body) =
      Some (length ?e + (length name + length body), name @ body)"
    using assms by (intro pkg_decode_encode) simp
  then show ?thesis using f by (intro exI [of _ ?e]) (simp add: push_pkg_def)
qed

theorem pkg_length_counts_itself_witness:
  "\<exists>enc. push_pkg [0x10] [1] (replicate 70 0) = [0x10] @ enc @ [1] @ replicate 70 0 \<and>
     pkg_decode (enc @ [1] @ replicate 70 0) = Some (length (enc @ [1] @ replicate 70 0), [1] @ replicate 70 0)"
  by (rule pkg_length_counts_itself) simp

text \<open>
  The identifiers of the PCI root in the DSDT are stored the wrong way round. The specification packs an
  EISA identifier high byte first; \<^verbatim>\<open>eisa_id\<close> is written low byte first, so what a guest decodes from
  the bytes is not the identifier, while the reversed bytes would be.
\<close>

theorem eisa_id_reversed:
  "eisa_decode (u32_to_le (eisa_id ''PNP0A08'')) = ''B@JD041'' \<and> eisa_decode (rev (u32_to_le (eisa_id ''PNP0A08''))) = ''PNP0A08''"
proof -
  have "eisa_id ''PNP0A08'' = 0x41D00A08" by (simp add: eisa_id_def text_bytes_def from_str_radix_def digit_val_def is_digit_c_def
        is_lower_c_def is_upper_c_def slice_def Let_def)
  then have "u32_to_le (eisa_id ''PNP0A08'') = [0x08, 0x0A, 0xD0, 0x41]" by (simp add: le_bytes)
  moreover have "eisa_decode [0x08, 0x0A, 0xD0, 0x41] = ''B@JD041''" "eisa_decode [0x41, 0xD0, 0x0A, 0x08] = ''PNP0A08''"
    by (simp add: eisa_decode_def hex_upper_def Let_def, code_simp)+
  ultimately show ?thesis by simp
qed

end
