(* ===== verification/Boot.thy ===== *)
theory Boot
  imports Firmware_Tables Vm_Config
begin

text \<open>
  What the machine puts into guest RAM before the first instruction (\<^verbatim>\<open>fluxvm-hypervisor/src/boot.rs\<close>): the
  identity page tables, the memory map, the command line and zero page, and the Linux and Windows boot
  paths. The \<^verbatim>\<open>linux_loader\<close> crate and the files read from the host are arguments, and the notes for the log
  are not modelled.
\<close>

section \<open>Layout\<close>

definition KERNEL_LOAD_ADDR :: u64 where "KERNEL_LOAD_ADDR = 0x200000"
definition BOOT_PARAMS_ADDR :: u64 where "BOOT_PARAMS_ADDR = 0x7000"
definition INITRD_ADDR :: u64 where "INITRD_ADDR = 0x4000000"
definition PVH_INFO_START :: u64 where "PVH_INFO_START = 0x6000"
definition HIMEM_START :: u64 where "HIMEM_START = 0x100000"
definition SYSTEM_MEM_START :: u64 where "SYSTEM_MEM_START = 0x9fc00"
definition SYSTEM_MEM_SIZE :: u64 where "SYSTEM_MEM_SIZE = RSDP_ADDR - SYSTEM_MEM_START"
definition CMDLINE_GPA :: u64 where "CMDLINE_GPA = 0x20000"
definition FIRMWARE_GPA :: u64 where "FIRMWARE_GPA = 0x1000000"

lemmas boot_consts = KERNEL_LOAD_ADDR_def BOOT_PARAMS_ADDR_def INITRD_ADDR_def PVH_INFO_START_def HIMEM_START_def
  SYSTEM_MEM_START_def SYSTEM_MEM_SIZE_def CMDLINE_GPA_def FIRMWARE_GPA_def RSDP_ADDR_def

record BootInfo =
  entry_rip :: u64
  boot_params_gpa :: "u64 option"
  pvh_start_info_gpa :: "u64 option"
  firmware_reset :: bool

section \<open>Page tables\<close>

definition PML4 :: u64 where "PML4 = 0x8000"
definition PDPT :: u64 where "PDPT = 0x9000"
definition PD0 :: u64 where "PD0 = 0xA000"
definition PD3 :: u64 where "PD3 = 0xD000"

definition pml4_page :: "u8 list" where
  "pml4_page = put_u64 0 (PDPT OR 3) (replicate 4096 0)"

definition pdpt_page :: "u8 list" where
  "pdpt_page = put_u64 24 (PD3 OR 3) (put_u64 0 (PD0 OR 3) (replicate 4096 0))"

definition pd_page :: "(u64 \<Rightarrow> u64) \<Rightarrow> u8 list" where
  "pd_page e = fold (\<lambda>i. put_u64 (i * 8) (e (of_nat i))) [0..<512] (replicate 4096 0)"

definition build_identity_page_tables :: "(GuestMemory, u64) op" where
  "build_identity_page_tables =
     bnd (write_at PML4 pml4_page) (\<lambda>_.
     bnd (write_at PDPT pdpt_page) (\<lambda>_.
     bnd (write_at PD0 (pd_page (\<lambda>i. push_bit 21 i OR 0x83))) (\<lambda>_.
     bnd (write_at PD3 (pd_page (\<lambda>i. push_bit 30 3 OR push_bit 21 i OR 0x83))) (\<lambda>_.
       ret PML4))))"

section \<open>The memory map\<close>

type_synonym e820_entry = "u64 \<times> u64 \<times> u32"

text \<open>The two copies of the map: \<^verbatim>\<open>fill_e820\<close> skips empty entries and stops at the end of its table.\<close>

definition e820_push :: "u64 \<Rightarrow> u64 \<Rightarrow> u32 \<Rightarrow> e820_entry list \<Rightarrow> e820_entry list" where
  "e820_push a len ty es = (if 128 \<le> length es \<or> len = 0 then es else es @ [(a, len, ty)])"

definition fill_e820 :: "u64 \<Rightarrow> e820_entry list" where
  "fill_e820 mem_size =
     (let es = e820_push 0 (min SYSTEM_MEM_START mem_size) 1 [];
          es = (if SYSTEM_MEM_START < mem_size
                then e820_push SYSTEM_MEM_START (min SYSTEM_MEM_SIZE (saturating_sub mem_size SYSTEM_MEM_START)) 2 es else es);
          es = e820_push PCI_MMCONFIG_START PCI_MMCONFIG_SIZE 2 es
      in if HIMEM_START < mem_size then e820_push HIMEM_START (mem_size - HIMEM_START) 1 es else es)"

definition raw_e820 :: "u64 \<Rightarrow> e820_entry list" where
  "raw_e820 mem_size =
     [(0, min SYSTEM_MEM_START mem_size, 1)] @
     (if SYSTEM_MEM_START < mem_size
      then [(SYSTEM_MEM_START, min SYSTEM_MEM_SIZE (saturating_sub mem_size SYSTEM_MEM_START), 2)] else []) @
     [(PCI_MMCONFIG_START, PCI_MMCONFIG_SIZE, 2)] @
     (if HIMEM_START < mem_size then [(HIMEM_START, mem_size - HIMEM_START, 1)] else [])"

definition pvh_memmap :: "u64 \<Rightarrow> e820_entry list" where
  "pvh_memmap mem_size =
     [(0, SYSTEM_MEM_START, 1), (SYSTEM_MEM_START, SYSTEM_MEM_SIZE, 2), (PCI_MMCONFIG_START, PCI_MMCONFIG_SIZE, 2)] @
     (if HIMEM_START < mem_size then [(HIMEM_START, mem_size - HIMEM_START, 1)] else [])"

section \<open>Linux\<close>

definition write_linux_cmdline :: "string \<Rightarrow> (GuestMemory, unit) op" where
  "write_linux_cmdline cmdline = write_at CMDLINE_GPA (text_bytes cmdline @ [0])"

definition put_e820 :: "nat \<times> e820_entry \<Rightarrow> u8 list \<Rightarrow> u8 list" where
  "put_e820 ie page =
     (case ie of (i, a, len, ty) \<Rightarrow>
        let off = 0x2d0 + i * 20 in put_u32 (off + 16) ty (put_u64 (off + 8) len (put_u64 off a page)))"

definition boot_page :: "VmConfig \<Rightarrow> u32 \<Rightarrow> u64 \<Rightarrow> u8 list" where
  "boot_page cfg initrd_len mem_size =
     (let page = put_u32 0x238 (of_nat (length (vc_cmdline cfg)) + 1) (put_u32 0x228 (ucast CMDLINE_GPA) (replicate 4096 0));
          page = (if 0 < initrd_len then put_u32 0x21c initrd_len (put_u32 0x218 (ucast INITRD_ADDR) page) else page);
          es = raw_e820 mem_size;
          page = page[0x1e8 := of_nat (length es)]
      in fold put_e820 (enumerate 0 es) page)"

definition write_minimal_boot_params :: "VmConfig \<Rightarrow> u32 \<Rightarrow> (GuestMemory, unit) op" where
  "write_minimal_boot_params cfg initrd_len m =
     write_at BOOT_PARAMS_ADDR (boot_page cfg initrd_len (of_nat (ram_len m))) m"

definition load_raw :: "u8 list result option \<Rightarrow> (GuestMemory, unit) op" where
  "load_raw kern =
     (case kern of
        None \<Rightarrow> ret ()
      | Some (Inl e) \<Rightarrow> fail e
      | Some (Inr bytes) \<Rightarrow>
          (\<lambda>m. if ram_len m < length bytes + unat KERNEL_LOAD_ADDR then fail (Boot ''kernel larger than guest RAM'') m
                else write_at KERNEL_LOAD_ADDR bytes m))"

definition load_initrd :: "u8 list result option \<Rightarrow> (GuestMemory, u32) op" where
  "load_initrd initrd =
     (case initrd of
        None \<Rightarrow> ret 0
      | Some (Inl e) \<Rightarrow> fail e
      | Some (Inr bytes) \<Rightarrow> bnd (write_at INITRD_ADDR bytes) (\<lambda>_. ret (of_nat (length bytes))))"

definition prepare_linux_raw :: "u8 list result option \<Rightarrow> u8 list result option \<Rightarrow> VmConfig \<Rightarrow> (GuestMemory, BootInfo) op" where
  "prepare_linux_raw kern initrd cfg =
     bnd (load_raw kern) (\<lambda>_.
     bnd (load_initrd initrd) (\<lambda>n.
     bnd (write_linux_cmdline (vc_cmdline cfg)) (\<lambda>_.
     bnd (write_minimal_boot_params cfg n) (\<lambda>_.
       ret \<lparr>entry_rip = KERNEL_LOAD_ADDR, boot_params_gpa = Some BOOT_PARAMS_ADDR, pvh_start_info_gpa = None, firmware_reset = False\<rparr>))))"

text \<open>
  The loader crate: it parses and loads the kernel, and writes the structures it is given. \<open>kl_setup\<close> says
  whether the image had a setup header.
\<close>

record KernelLoad =
  kl_load :: u64
  kl_setup :: bool
  kl_pvh :: "u64 option"

record ZeroPage =
  zp_setup :: bool
  zp_cmd_line_ptr :: u32
  zp_cmdline_size :: u32
  zp_ramdisk :: "(u32 \<times> u32) option"
  zp_e820 :: "e820_entry list"

record PvhInfo =
  pv_cmdline :: u64
  pv_memmap :: "e820_entry list"
  pv_modules :: "(u64 \<times> u64) list"
  pv_rsdp :: u64

record Loader =
  open_kernel :: bool
  load_bz :: "GuestMemory \<Rightarrow> KernelLoad option \<times> GuestMemory"
  load_elf :: "GuestMemory \<Rightarrow> KernelLoad option \<times> GuestMemory"
  write_zero_page :: "ZeroPage \<Rightarrow> (GuestMemory, unit) op"
  write_pvh :: "PvhInfo \<Rightarrow> (GuestMemory, unit) op"

definition load_kernel :: "Loader \<Rightarrow> (GuestMemory, KernelLoad) op" where
  "load_kernel ld m =
     (if \<not> open_kernel ld then fail (Boot ''open kernel'') m
      else case load_bz ld m of
             (Some k, m) \<Rightarrow> (Inr k, m)
           | (None, m) \<Rightarrow>
               (case load_elf ld m of
                  (Some k, m) \<Rightarrow> (Inr k, m)
                | (None, m) \<Rightarrow> fail (Boot ''neither bzImage nor ELF'') m))"

definition configure_pvh_boot :: "Loader \<Rightarrow> u64 \<Rightarrow> u32 \<Rightarrow> VmConfig \<Rightarrow> (GuestMemory, BootInfo) op" where
  "configure_pvh_boot ld pvh_entry initrd_len cfg m =
     (let (rsdp, m) = (if vc_acpi cfg then (case write_tables (vc_cpus cfg) m of (Inr a, m) \<Rightarrow> (a, m) | (Inl _, m) \<Rightarrow> (0, m)) else (0, m));
          info = \<lparr>pv_cmdline = CMDLINE_GPA, pv_memmap = pvh_memmap (of_nat (ram_len m)),
                  pv_modules = (if 0 < initrd_len then [(INITRD_ADDR, ucast initrd_len)] else []), pv_rsdp = rsdp\<rparr>
      in bnd (write_pvh ld info) (\<lambda>_.
           ret \<lparr>entry_rip = pvh_entry, boot_params_gpa = None, pvh_start_info_gpa = Some PVH_INFO_START, firmware_reset = False\<rparr>) m)"

definition zero_page :: "KernelLoad \<Rightarrow> VmConfig \<Rightarrow> u32 \<Rightarrow> nat \<Rightarrow> ZeroPage" where
  "zero_page k cfg initrd_len mem_size =
     \<lparr>zp_setup = kl_setup k, zp_cmd_line_ptr = ucast CMDLINE_GPA,
      zp_cmdline_size = saturating_add (of_nat (length (vc_cmdline cfg))) 1,
      zp_ramdisk = (if 0 < initrd_len then Some (ucast INITRD_ADDR, initrd_len) else None),
      zp_e820 = fill_e820 (of_nat mem_size)\<rparr>"

definition prepare_linux_with_loader :: "Loader \<Rightarrow> u8 list result option \<Rightarrow> VmConfig \<Rightarrow> (GuestMemory, BootInfo) op" where
  "prepare_linux_with_loader ld initrd cfg =
     (if vc_kernel cfg = None then fail (Boot ''no kernel path for linux-loader'')
      else bnd (load_kernel ld) (\<lambda>k.
           bnd (load_initrd initrd) (\<lambda>n.
           bnd (write_linux_cmdline (vc_cmdline cfg)) (\<lambda>_.
             case kl_pvh k of
               Some e \<Rightarrow> configure_pvh_boot ld e n cfg
             | None \<Rightarrow>
                 (\<lambda>m. bnd (write_zero_page ld (zero_page k cfg n (ram_len m))) (\<lambda>_.
                    ret \<lparr>entry_rip = (if kl_setup k then kl_load k + 0x200 else kl_load k), boot_params_gpa = Some BOOT_PARAMS_ADDR,
                         pvh_start_info_gpa = None, firmware_reset = False\<rparr>) m)))))"

definition prepare_linux ::
  "Loader \<Rightarrow> u8 list result option \<Rightarrow> u8 list result option \<Rightarrow> VmConfig \<Rightarrow> (GuestMemory, BootInfo) op" where
  "prepare_linux ld kern initrd cfg m =
     (case prepare_linux_with_loader ld initrd cfg m of
        (Inr info, m) \<Rightarrow> (Inr info, m)
      | (Inl _, m) \<Rightarrow> prepare_linux_raw kern initrd cfg m)"

section \<open>Windows\<close>

text \<open>The firmware image if a path is configured and exists.\<close>

definition load_firmware :: "u8 list result option \<Rightarrow> (GuestMemory, bool) op" where
  "load_firmware img =
     (case img of
        None \<Rightarrow> ret False
      | Some (Inl e) \<Rightarrow> fail e
      | Some (Inr bytes) \<Rightarrow>
          (\<lambda>m. if unat FIRMWARE_GPA + length bytes \<le> ram_len m then bnd (write_at FIRMWARE_GPA bytes) (\<lambda>_. ret True) m
                else ret False m))"

definition prepare_windows :: "u8 list result option \<Rightarrow> VmConfig \<Rightarrow> (GuestMemory, BootInfo) op" where
  "prepare_windows img cfg m =
     (let m = snd (write_tables (vc_cpus cfg) m) in
      bnd (load_firmware img) (\<lambda>loaded.
      bnd (\<lambda>m. if \<not> loaded \<and> unat FIRMWARE_GPA + 16 \<le> ram_len m then write_at FIRMWARE_GPA [0xf4, 0xeb, 0xfd] m else ret () m) (\<lambda>_.
      bnd (\<lambda>m. if 0xFFFFFFF0 < ram_len m then write_at 0xFFFFFFF0 [0xEA, 0x00, 0x00, 0x00, 0xF0] m else ret () m) (\<lambda>_.
        ret \<lparr>entry_rip = FIRMWARE_GPA, boot_params_gpa = None, pvh_start_info_gpa = None, firmware_reset = True\<rparr>))) m)"

definition prepare_boot ::
  "Loader \<Rightarrow> u8 list result option \<Rightarrow> u8 list result option \<Rightarrow> u8 list result option \<Rightarrow> VmConfig \<Rightarrow> (GuestMemory, BootInfo) op" where
  "prepare_boot ld kern initrd img cfg =
     (case vc_guest cfg of Linux \<Rightarrow> prepare_linux ld kern initrd cfg | Windows \<Rightarrow> prepare_windows img cfg)"

section \<open>The tables read back\<close>

lemma read_at_sub:
  assumes "read_at a n m = Inr d" and "mem_ok m" and "i + k \<le> n"
  shows "read_at (a + of_nat i) k m = Inr (slice i (i + k) d)"
proof -
  have b: "unat a + n \<le> ram_len m" using assms(1,2) gm.rd_ok by blast
  then have "unat (a + of_nat i) = unat a + i"
    using assms(2,3) by (simp add: unat_add_of_nat mem_ok_def)
  then show ?thesis using assms b by (auto simp: read_at_peek peek_def slice_def take_map drop_map)
qed

text \<open>A table of quadwords written one by one.\<close>

lemma fold_put_u64:
  "fold (\<lambda>i. put_u64 (i * 8) (f i)) [0..<n] buf = put_bytes 0 (concat (map (\<lambda>i. u64_to_le (f i)) [0..<n])) buf"
proof (induction n)
  case (Suc n)
  have len: "length (concat (map (\<lambda>i. u64_to_le (f i)) [0..<n])) = n * 8" by (induction n) simp_all
  show ?case using Suc put_put [of 0 "concat (map (\<lambda>i. u64_to_le (f i)) [0..<n])" "u64_to_le (f n)" buf]
    by (simp add: put_u64_def len)
qed simp

lemma slice_quads:
  assumes "i < n"
  shows "slice (i * 8) (i * 8 + 8) (concat (map (\<lambda>i. u64_to_le (f i)) [0..<n])) = u64_to_le (f i)"
proof -
  have len: "length (concat (map (\<lambda>i. u64_to_le (f i)) [0..<k])) = k * 8" for k by (induction k) simp_all
  have "[0..<n] = [0..<i] @ i # [Suc i..<n]" using assms upt_add_eq_append [of 0 i "n - i"] by (simp add: upt_conv_Cons)
  then show ?thesis using len [of i] by (simp add: slice_def)
qed

lemma pd_page_entry:
  assumes "i < 512"
  shows "slice (i * 8) (i * 8 + 8) (pd_page e) = u64_to_le (e (of_nat i))"
proof -
  let ?c = "concat (map (\<lambda>i. u64_to_le (e (of_nat i))) [0..<512])"
  have l: "length ?c = 4096" by (simp add: length_concat o_def sum_list_triv)
  have "pd_page e = put_bytes 0 ?c (replicate 4096 0)" by (simp add: pd_page_def fold_put_u64)
  then have "pd_page e = ?c" using drop_put [of 0 ?c "replicate 4096 0"] l by simp
  then show ?thesis using slice_quads [OF assms, of "\<lambda>i. e (of_nat i)"] by simp
qed

lemma length_pages [simp]: "length pml4_page = 4096" "length pdpt_page = 4096" "length (pd_page e) = 4096"
proof -
  have "length (fold (\<lambda>i. put_u64 (i * 8) (e (of_nat i))) ks b) = length b" for ks b by (induction ks arbitrary: b) simp_all
  then show "length (pd_page e) = 4096" by (simp add: pd_page_def)
qed (simp_all add: pml4_page_def pdpt_page_def)

section \<open>The walk of the processor\<close>

definition entry_at :: "GuestMemory \<Rightarrow> u64 \<Rightarrow> nat \<Rightarrow> u64 option" where
  "entry_at m table i =
     (case read_at (table + of_nat (i * 8)) 8 m of
        Inl _ \<Rightarrow> None
      | Inr bs \<Rightarrow> let e = u64_from_le bs in if e AND 1 = 1 then Some e else None)"

definition frame_mask :: u64 where "frame_mask = 0x000FFFFFFFFFF000"
definition large_mask :: u64 where "large_mask = 0x000FFFFFFFE00000"

text \<open>A four-level walk with two-megabyte pages at the third level, for an address below \<open>2\<^sup>4\<^sup>8\<close>.\<close>

definition walk :: "GuestMemory \<Rightarrow> u64 \<Rightarrow> nat \<Rightarrow> nat option" where
  "walk m cr3 va =
     (case entry_at m cr3 (va div 2 ^ 39 mod 512) of
        None \<Rightarrow> None
      | Some e4 \<Rightarrow>
          (case entry_at m (e4 AND frame_mask) (va div 2 ^ 30 mod 512) of
             None \<Rightarrow> None
           | Some e3 \<Rightarrow>
               (case entry_at m (e3 AND frame_mask) (va div 2 ^ 21 mod 512) of
                  None \<Rightarrow> None
                | Some e2 \<Rightarrow> if e2 AND 0x80 = 0 then None else Some (unat (e2 AND large_mask) + va mod 2 ^ 21))))"

lemma entry_of_page:
  assumes "read_at table 4096 m = Inr page" and "mem_ok m" and "i < 512" and "slice (i * 8) (i * 8 + 8) page = u64_to_le e"
  shows "entry_at m table i = (if e AND 1 = 1 then Some e else None)"
  using read_at_sub [OF assms(1,2), of "i * 8" 8] assms(3,4) by (simp add: entry_at_def Let_def)

lemma and_1_iff: "w AND 1 = 1 \<longleftrightarrow> bit w 0" for w :: u64
  by (simp add: and_one_eq bit_0 odd_iff_mod_2_eq_one)

lemma take_bit_small: "unat w < 2 ^ n \<Longrightarrow> take_bit n w = w" for w :: u64
proof -
  assume "unat w < 2 ^ n"
  then have "drop_bit n (unat w) = 0" by (simp add: drop_bit_eq_div)
  then have "unat (drop_bit n w) = 0" by (simp only: unat_drop_bit_eq)
  then have "drop_bit n w = 0" by (simp only: unat_eq_0)
  then show ?thesis by (simp add: take_bit_eq_self_iff_drop_bit_eq_0)
qed

lemma large_entry:
  fixes b :: u64
  assumes "i < 512" and "b < 4"
  defines "e \<equiv> push_bit 30 b OR push_bit 21 (of_nat i) OR 0x83"
  shows "e AND 1 = 1" and "e AND 0x80 \<noteq> 0" and "unat (e AND large_mask) = unat b * 2 ^ 30 + i * 2 ^ 21"
proof -
  show "e AND 1 = 1" by (simp add: and_1_iff e_def bit_simps)
  have "bit (e AND 0x80) 7" by (simp add: e_def bit_simps)
  then show "e AND 0x80 \<noteq> 0" by force
  let ?w = "of_nat i :: u64"
  have w: "?w < 2 ^ 9" using assms(1) by (simp add: word_less_nat_alt unat_of_nat)
  have m: "large_mask = push_bit 21 (mask 31)" by (simp add: large_mask_def mask_numeral)
  have "take_bit 31 ?w = ?w" using w by (intro take_bit_small) (simp add: word_less_nat_alt)
  then have q: "push_bit 21 ?w AND large_mask = push_bit 21 ?w"
    unfolding m by (simp only: push_bit_and [symmetric] take_bit_eq_mask [symmetric])
  have "take_bit 22 b = b" using assms(2) by (intro take_bit_small) (simp add: word_less_nat_alt)
  then have "take_bit 31 (push_bit 9 b) = push_bit 9 b" by (simp add: take_bit_push_bit)
  then have "push_bit 21 (push_bit 9 b) AND large_mask = push_bit 21 (push_bit 9 b)"
    unfolding m by (simp only: push_bit_and [symmetric] take_bit_eq_mask [symmetric])
  then have p: "push_bit 30 b AND large_mask = push_bit 30 b" by simp
  have "0x83 AND large_mask = 0" by (simp add: large_mask_def)
  then have l: "e AND large_mask = push_bit 30 b OR push_bit 21 ?w" by (simp add: e_def p q bit.conj_disj_distrib2)
  have d: "push_bit 9 b AND ?w = 0"
  proof -
    have "take_bit 9 ?w = ?w" using w by (intro take_bit_small) (simp add: word_less_nat_alt)
    then have "push_bit 9 b AND ?w = take_bit 9 (push_bit 9 b) AND ?w" by (metis and.assoc and.commute take_bit_eq_mask)
    then show ?thesis by (simp add: take_bit_push_bit)
  qed
  have "push_bit 21 (push_bit 9 b) AND push_bit 21 ?w = 0" by (simp only: push_bit_and [symmetric] d push_bit_of_0)
  then have "e AND large_mask = push_bit 30 b + push_bit 21 ?w" unfolding l by (subst disjunctive_add_eq_or) simp_all
  moreover have "unat b < 4" using assms(2) by (simp add: word_less_nat_alt)
  ultimately show "unat (e AND large_mask) = unat b * 2 ^ 30 + i * 2 ^ 21"
    using assms(1) by (simp add: push_bit_eq_mult unat_word_ariths unat_of_nat)
qed

text \<open>What the four pages hold, entry by entry.\<close>

definition tables_in_place :: "GuestMemory \<Rightarrow> bool" where
  "tables_in_place m \<longleftrightarrow> mem_ok m \<and> read_at PML4 4096 m = Inr pml4_page \<and> read_at PDPT 4096 m = Inr pdpt_page \<and>
     read_at PD0 4096 m = Inr (pd_page (\<lambda>i. push_bit 21 i OR 0x83)) \<and>
     read_at PD3 4096 m = Inr (pd_page (\<lambda>i. push_bit 30 3 OR push_bit 21 i OR 0x83))"

lemma page_table_entries:
  assumes "tables_in_place m"
  shows "entry_at m PML4 0 = Some (PDPT OR 3)" and "entry_at m PDPT 0 = Some (PD0 OR 3)" and "entry_at m PDPT 3 = Some (PD3 OR 3)"
    and "i < 512 \<Longrightarrow> entry_at m PD0 i = Some (push_bit 30 0 OR push_bit 21 (of_nat i) OR 0x83)"
    and "i < 512 \<Longrightarrow> entry_at m PD3 i = Some (push_bit 30 3 OR push_bit 21 (of_nat i) OR 0x83)"
proof -
  have w: "mem_ok m" and pages: "read_at PML4 4096 m = Inr pml4_page" "read_at PDPT 4096 m = Inr pdpt_page"
    "read_at PD0 4096 m = Inr (pd_page (\<lambda>i. push_bit 21 i OR 0x83))" "read_at PD3 4096 m = Inr (pd_page (\<lambda>i. push_bit 30 3 OR push_bit 21 i OR 0x83))"
    using assms by (simp_all add: tables_in_place_def)
  have present: "(PDPT OR 3) AND 1 = 1" "(PD0 OR 3) AND 1 = 1" "(PD3 OR 3) AND 1 = 1" by code_simp+
  have "slice (0 * 8) (0 * 8 + 8) pml4_page = u64_to_le (PDPT OR 3)"
    using slice_put_u64 [of 0 "replicate 4096 0" "PDPT OR 3"] by (simp add: pml4_page_def)
  then show "entry_at m PML4 0 = Some (PDPT OR 3)" using entry_of_page [OF pages(1) w, of 0] present(1) by simp
  have "slice (0 * 8) (0 * 8 + 8) pdpt_page = u64_to_le (PD0 OR 3)" "slice (3 * 8) (3 * 8 + 8) pdpt_page = u64_to_le (PD3 OR 3)"
    using slice_put_u64 [of 0 "replicate 4096 0" "PD0 OR 3"] slice_put_u64 [of 24 "put_u64 0 (PD0 OR 3) (replicate 4096 0)" "PD3 OR 3"]
    by (simp_all add: pdpt_page_def slice_puts_other)
  then show "entry_at m PDPT 0 = Some (PD0 OR 3)" "entry_at m PDPT 3 = Some (PD3 OR 3)"
    using entry_of_page [OF pages(2) w, of 0] entry_of_page [OF pages(2) w, of 3] present(2,3) by simp_all
  show "entry_at m PD0 i = Some (push_bit 30 0 OR push_bit 21 (of_nat i) OR 0x83)"
    "entry_at m PD3 i = Some (push_bit 30 3 OR push_bit 21 (of_nat i) OR 0x83)" if i: "i < 512"
    using entry_of_page [OF pages(3) w i pd_page_entry [OF i]] entry_of_page [OF pages(4) w i pd_page_entry [OF i]]
      large_entry(1) [OF i, of 0] large_entry(1) [OF i, of 3] by simp_all
qed

lemma walk_identity:
  assumes "tables_in_place m" and "va < 2 ^ 30 \<or> 3 * 2 ^ 30 \<le> va \<and> va < 4 * 2 ^ 30"
  shows "walk m PML4 va = Some va"
proof -
  define i where "i = va div 2 ^ 21 mod 512"
  have i: "i < 512" by (simp add: i_def)
  note m = page_table_entries(1-3) [OF assms(1)] page_table_entries(4,5) [OF assms(1) i]
  have masks: "(PDPT OR 3) AND frame_mask = PDPT" "(PD0 OR 3) AND frame_mask = PD0" "(PD3 OR 3) AND frame_mask = PD3"
    by (simp_all add: PDPT_def PD0_def PD3_def frame_mask_def)
  note large = large_entry(2,3) [OF i, of 0] large_entry(2,3) [OF i, of 3]
  define k where "k = va div 2 ^ 30"
  have k: "k = 0 \<or> k = 3" using assms(2) by (auto simp: k_def intro!: div_nat_eqI)
  have "va < 2 ^ 39" using assms(2) by auto
  then have d: "va div 2 ^ 39 mod 512 = 0" by (simp only: div_less mod_0)
  have "va div 2 ^ 21 div 512 = k" by (simp add: k_def div_mult2_eq [symmetric])
  then have e: "k * 512 + i = va div 2 ^ 21" using div_mult_mod_eq [of "va div 2 ^ 21" 512] by (simp add: i_def)
  have "(k * 512 + i) * 2 ^ 21 + va mod 2 ^ 21 = va" unfolding e by (rule div_mult_mod_eq)
  then have v: "k * 2 ^ 30 + i * 2 ^ 21 + va mod 2 ^ 21 = va" by (simp add: distrib_right)
  show ?thesis
    using k
  proof
    assume "k = 0"
    then have z: "va div 2 ^ 30 mod 512 = 0" "i * 2 ^ 21 + va mod 2 ^ 21 = va" using v by (simp_all add: k_def)
    show ?thesis using large(1,2) z(2) unfolding walk_def d i_def [symmetric] z(1) by (simp add: m masks)
  next
    assume "k = 3"
    then have z: "va div 2 ^ 30 mod 512 = 3" "3 * 2 ^ 30 + i * 2 ^ 21 + va mod 2 ^ 21 = va" using v by (simp_all add: k_def)
    show ?thesis using large(3,4) z(2) unfolding walk_def d i_def [symmetric] z(1) by (simp add: m masks)
  qed
qed

definition page_writes :: "(u64 \<times> u8 list) list" where
  "page_writes = [(PML4, pml4_page), (PDPT, pdpt_page), (PD0, pd_page (\<lambda>i. push_bit 21 i OR 0x83)),
     (PD3, pd_page (\<lambda>i. push_bit 30 3 OR push_bit 21 i OR 0x83))]"

lemma build_seq: "gm.wr_seq page_writes m = (Inr (), m') \<Longrightarrow> build_identity_page_tables m = (Inr PML4, m')"
  by (auto simp: page_writes_def build_identity_page_tables_def bnd_eq_Inr ret_def)

lemma tables_of_images:
  assumes "mem_ok m" and "\<And>x d. (x, d) \<in> set page_writes \<Longrightarrow> read_at x (length d) m = Inr d"
  shows "tables_in_place m"
proof -
  note r = assms(2) [unfolded page_writes_def]
  show ?thesis using assms(1) r [of PML4 pml4_page] r [of PDPT pdpt_page] r [of PD0 "pd_page (\<lambda>i. push_bit 21 i OR 0x83)"]
      r [of PD3 "pd_page (\<lambda>i. push_bit 30 3 OR push_bit 21 i OR 0x83)"]
    by (simp add: tables_in_place_def)
qed

text \<open>
  The page tables are the identity on the first and the fourth gigabyte. After they are built, in every RAM
  of at least a megabyte, the walk the processor does from the returned root takes each address
  below one gigabyte, and each address between three and four gigabytes, to itself.
\<close>

theorem identity_map_walks:
  assumes "mem_ok m" and "0x100000 \<le> ram_len m" and "va < 2 ^ 30 \<or> 3 * 2 ^ 30 \<le> va \<and> va < 4 * 2 ^ 30"
  shows "\<exists>cr3 m'. build_identity_page_tables m = (Inr cr3, m') \<and> walk m' cr3 va = Some va"
proof -
  have "unat x + length d \<le> ram_len m" if "(x, d) \<in> set page_writes" for x d
    using that assms(2) by (auto simp: page_writes_def PML4_def PDPT_def PD0_def PD3_def)
  then obtain m' where w: "gm.wr_seq page_writes m = (Inr (), m')" "mem_ok m'" using gm.wr_seq_ok [OF assms(1)] by blast
  have "read_at x (length d) m' = Inr d" if "(x, d) \<in> set page_writes" for x d
    by (rule gm.rd_wr_seq_image [OF w(1) that]) (simp add: page_writes_def apart_def PML4_def PDPT_def PD0_def PD3_def)
  then have "tables_in_place m'" by (rule tables_of_images [OF w(2)])
  then show ?thesis using walk_identity [OF _ assms(3)] build_seq [OF w(1)] by blast
qed

theorem identity_map_walks_witness:
  "\<exists>cr3 m'. build_identity_page_tables blank_ram = (Inr cr3, m') \<and> walk m' cr3 0xFEB00000 = Some 0xFEB00000"
  by (rule identity_map_walks [OF blank_ram_ok]) simp

section \<open>The memory map\<close>

lemma unat_sizes:
  "unat SYSTEM_MEM_START = 0x9fc00" "unat SYSTEM_MEM_SIZE = 0x40400" "unat HIMEM_START = 0x100000"
  "unat PCI_MMCONFIG_START = 0xEEC00000" "unat PCI_MMCONFIG_SIZE = 0x10000000"
  by (simp_all add: boot_consts pci_consts)

lemma memory_maps_agree:
  assumes "0x100000 < n" and "n < 2 ^ 64"
  shows "raw_e820 (of_nat n) = pvh_memmap (of_nat n)" and "fill_e820 (of_nat n) = pvh_memmap (of_nat n)"
proof -
  have u: "unat (of_nat n :: u64) = n" using assms(2) by (simp add: unat_of_nat)
  have s: "SYSTEM_MEM_START < (of_nat n :: u64)" "HIMEM_START < (of_nat n :: u64)"
    unfolding word_less_nat_alt u unat_sizes using assms(1) by simp_all
  then have sz: "min SYSTEM_MEM_START (of_nat n :: u64) = SYSTEM_MEM_START" by (intro min_absorb1 less_imp_le)
  have "unat (saturating_sub (of_nat n :: u64) SYSTEM_MEM_START) = n - 0x9fc00" by (simp add: unat_saturating_sub u unat_sizes)
  then have "SYSTEM_MEM_SIZE \<le> saturating_sub (of_nat n) SYSTEM_MEM_START" using assms(1) by (simp add: word_le_nat_alt unat_sizes)
  then have sm: "min SYSTEM_MEM_SIZE (saturating_sub (of_nat n) SYSTEM_MEM_START) = SYSTEM_MEM_SIZE" by (rule min_absorb1)
  show "raw_e820 (of_nat n) = pvh_memmap (of_nat n)" by (simp add: raw_e820_def pvh_memmap_def s sz sm)
  have "of_nat n - HIMEM_START \<noteq> (0 :: u64)" using s(2) by auto
  moreover have "SYSTEM_MEM_START \<noteq> 0" "SYSTEM_MEM_SIZE \<noteq> 0" "PCI_MMCONFIG_SIZE \<noteq> 0" by (simp_all add: boot_consts pci_consts)
  ultimately show "fill_e820 (of_nat n) = pvh_memmap (of_nat n)"
    by (simp add: fill_e820_def e820_push_def pvh_memmap_def s sz sm Let_def)
qed

definition e820_has :: "nat \<Rightarrow> e820_entry \<Rightarrow> bool" where
  "e820_has x e \<longleftrightarrow> (case e of (a, len, _) \<Rightarrow> unat a \<le> x \<and> x < unat a + unat len)"

definition usable :: "e820_entry list \<Rightarrow> nat \<Rightarrow> bool" where
  "usable es x \<longleftrightarrow> list_ex (\<lambda>e. e820_has x e \<and> snd (snd e) = 1) es"

definition reserved :: "e820_entry list \<Rightarrow> nat \<Rightarrow> bool" where
  "reserved es x \<longleftrightarrow> list_ex (\<lambda>e. e820_has x e \<and> snd (snd e) = 2) es"

lemma memmap_has:
  assumes "0x100000 < n" and "n < 2 ^ 64"
  shows "usable (pvh_memmap (of_nat n)) x \<longleftrightarrow> x < 0x9fc00 \<or> 0x100000 \<le> x \<and> x < n"
    and "reserved (pvh_memmap (of_nat n)) x \<longleftrightarrow> 0x9fc00 \<le> x \<and> x < 0xe0000 \<or> 0xEEC00000 \<le> x \<and> x < 0xFEC00000"
proof -
  have u: "unat (of_nat n :: u64) = n" using assms(2) by (simp add: unat_of_nat)
  then have h: "HIMEM_START < (of_nat n :: u64)" unfolding word_less_nat_alt unat_sizes using assms(1) by simp
  then have "unat ((of_nat n :: u64) - HIMEM_START) = n - 0x100000" by (simp add: unat_sub u unat_sizes)
  then show "usable (pvh_memmap (of_nat n)) x \<longleftrightarrow> x < 0x9fc00 \<or> 0x100000 \<le> x \<and> x < n"
    and "reserved (pvh_memmap (of_nat n)) x \<longleftrightarrow> 0x9fc00 \<le> x \<and> x < 0xe0000 \<or> 0xEEC00000 \<le> x \<and> x < 0xFEC00000"
    using assms(1) h by (auto simp: usable_def reserved_def pvh_memmap_def e820_has_def unat_sizes)
qed

text \<open>
  C28. The memory map is sound up to 3820 megabytes. All three copies of it are the same; what it calls usable is RAM
  that exists, and all of RAM but the area of the firmware tables and the hole above it; and nothing is
  usable and reserved at once, so neither the tables nor the PCI window are handed out.
\<close>

theorem memory_map_sound:
  assumes "0x100000 < n" and "n \<le> unat PCI_MMCONFIG_START"
  shows "fill_e820 (of_nat n) = raw_e820 (of_nat n) \<and> raw_e820 (of_nat n) = pvh_memmap (of_nat n) \<and>
    (usable (pvh_memmap (of_nat n)) x \<longleftrightarrow> x < n \<and> \<not> (unat SYSTEM_MEM_START \<le> x \<and> x < unat HIMEM_START)) \<and>
    \<not> (usable (pvh_memmap (of_nat n)) x \<and> reserved (pvh_memmap (of_nat n)) x)"
proof -
  have n: "n < 2 ^ 64" using assms(2) by (simp add: unat_sizes)
  show ?thesis using memory_maps_agree [OF assms(1) n] memmap_has [OF assms(1) n, of x] assms by (auto simp: unat_sizes)
qed

theorem memory_map_sound_witness:
  "fill_e820 (of_nat 0x10000000) = raw_e820 (of_nat 0x10000000) \<and> usable (pvh_memmap (of_nat 0x10000000)) 0x200000"
  using memory_map_sound [of "0x10000000" "0x200000"] by (simp add: unat_sizes)

text \<open>
  Above 3820 megabytes the memory map contradicts itself. The configuration check has no upper limit for the memory
  size, and the map then calls the start of the PCI window both usable and reserved; from 4076
  megabytes on the windows of the virtio devices lie inside RAM.
\<close>

theorem memory_map_overlaps:
  assumes "validate c = Inr ()" and "unat PCI_MMCONFIG_START < memory_bytes c"
  shows "usable (pvh_memmap (of_nat (memory_bytes c))) (unat PCI_MMCONFIG_START) \<and>
    reserved (pvh_memmap (of_nat (memory_bytes c))) (unat PCI_MMCONFIG_START) \<and>
    (unat MMIO_WINDOW < memory_bytes c \<longrightarrow> usable (pvh_memmap (of_nat (memory_bytes c))) (unat MMIO_WINDOW))"
proof -
  have "memory_bytes c < 2 ^ 64" using unat_bounds(3) [of "vc_memory_mib c"] by (simp add: memory_bytes_def)
  then show ?thesis using assms(2) memmap_has [of "memory_bytes c"] by (auto simp: unat_sizes MMIO_WINDOW_def)
qed

theorem memory_map_overlaps_witness:
  "validate (config_default\<lparr>vc_memory_mib := 4096\<rparr>) = Inr () \<and>
     usable (pvh_memmap (of_nat (memory_bytes (config_default\<lparr>vc_memory_mib := 4096\<rparr>)))) (unat MMIO_WINDOW)"
proof -
  have v: "validate (config_default\<lparr>vc_memory_mib := 4096\<rparr>) = Inr ()"
    by (simp add: validate_def config_default_def NET_MAX_QUEUE_PAIRS_def)
  have b: "memory_bytes (config_default\<lparr>vc_memory_mib := 4096\<rparr>) = 0x100000000" by (simp add: memory_bytes_def)
  show ?thesis using memory_map_overlaps [OF v] v unfolding b by (simp add: unat_sizes MMIO_WINDOW_def)
qed

section \<open>The raw boot path\<close>

text \<open>How a kernel reads the zero page.\<close>

definition page_u32 :: "u8 list \<Rightarrow> nat \<Rightarrow> u32" where
  "page_u32 page off = u32_from_le (slice off (off + 4) page)"

definition page_e820 :: "u8 list \<Rightarrow> nat \<Rightarrow> e820_entry" where
  "page_e820 page i =
     (let off = 0x2d0 + i * 20
      in (u64_from_le (slice off (off + 8) page), u64_from_le (slice (off + 8) (off + 16) page), page_u32 page (off + 16)))"

lemma slice_put_u32_at: "n = off + 4 \<Longrightarrow> n \<le> length buf \<Longrightarrow> slice off n (put_u32 off v buf) = u32_to_le v"
  using slice_put_u32 by blast

lemma length_put_e820 [simp]: "length (put_e820 ie page) = length page"
  by (simp add: put_e820_def Let_def split: prod.split)

lemma put_e820_below: "b \<le> 0x2d0 \<Longrightarrow> slice a b (put_e820 (i, e) page) = slice a b page"
  by (cases e) (simp add: put_e820_def slice_puts_other Let_def)

lemma nth_put_e820: "j < 0x2d0 \<Longrightarrow> put_e820 (i, e) page ! j = page ! j"
  by (cases e) (simp add: put_e820_def put_u32_def put_u64_def nth_put_outside Let_def)

lemma page_e820_put:
  assumes "0x2d0 + j * 20 + 20 \<le> length page"
  shows "page_e820 (put_e820 (j, e) page) i = (if i = j then e else page_e820 page i)"
proof (cases "i = j")
  case True
  obtain a l t where e: "e = (a, l, t)" by (cases e)
  let ?o = "0x2d0 + j * 20"
  have "slice ?o (?o + 8) (put_u64 ?o a page) = u64_to_le a" "slice (?o + 8) (?o + 8 + 8) (put_u64 (?o + 8) l (put_u64 ?o a page)) = u64_to_le l"
    "slice (?o + 16) (?o + 16 + 4) (put_u32 (?o + 16) t (put_u64 (?o + 8) l (put_u64 ?o a page))) = u32_to_le t"
    using assms by (intro slice_put_u64 slice_put_u32; simp)+
  then show ?thesis using True by (simp add: e page_e820_def page_u32_def put_e820_def slice_puts_other Let_def)
next
  case False
  then have "i < j \<or> j < i" by auto
  then have "0x2d0 + i * 20 + 20 \<le> 0x2d0 + j * 20 \<or> 0x2d0 + j * 20 + 20 \<le> 0x2d0 + i * 20" by auto
  then show ?thesis using False by (cases e) (auto simp: page_e820_def page_u32_def put_e820_def slice_puts_other Let_def)
qed

lemma boot_page_facts:
  assumes "0x100000 < n" and "n < 2 ^ 64" and "0 < r" and "length (vc_cmdline cfg) + 1 < 2 ^ 32"
  defines "page \<equiv> boot_page cfg r (of_nat n)"
  shows "length page = 4096" and "page_u32 page 0x228 = ucast CMDLINE_GPA" and "unat (page_u32 page 0x238) = length (vc_cmdline cfg) + 1"
    and "page_u32 page 0x218 = ucast INITRD_ADDR" and "page_u32 page 0x21c = r"
    and "map (page_e820 page) [0..<unat (page ! 0x1e8)] = raw_e820 (of_nat n)"
proof -
  define p0 where "p0 = put_u32 0x21c r (put_u32 0x218 (ucast INITRD_ADDR) (put_u32 0x238 (of_nat (length (vc_cmdline cfg)) + 1)
     (put_u32 0x228 (ucast CMDLINE_GPA) (replicate 4096 0))))"
  obtain e0 e1 e2 e3 where es: "raw_e820 (of_nat n) = [e0, e1, e2, e3]"
    using memory_maps_agree(1) [OF assms(1,2)] assms(1,2)
    by (simp add: pvh_memmap_def word_less_nat_alt unat_of_nat unat_sizes)
  have pg: "page = put_e820 (3, e3) (put_e820 (2, e2) (put_e820 (1, e1) (put_e820 (0, e0) (p0[0x1e8 := 4]))))"
    using assms(3) by (simp add: page_def boot_page_def es p0_def Let_def numeral_2_eq_2 numeral_3_eq_3)
  have l0: "length p0 = 4096" by (simp add: p0_def)
  show "length page = 4096" by (simp add: pg l0)
  have sl: "slice a b page = slice a b p0" if "b \<le> 0x2d0" "0x1e8 < a" for a b
    using that by (simp add: pg put_e820_below slice_update_other)
  show "page_u32 page 0x228 = ucast CMDLINE_GPA" "page_u32 page 0x218 = ucast INITRD_ADDR" "page_u32 page 0x21c = r"
    by (simp_all add: page_u32_def sl p0_def slice_puts_other slice_put_u32_at)
  have "page_u32 page 0x238 = of_nat (length (vc_cmdline cfg) + 1)"
    by (simp add: page_u32_def sl p0_def slice_puts_other slice_put_u32_at)
  moreover have "unat (of_nat (length (vc_cmdline cfg) + 1) :: u32) = length (vc_cmdline cfg) + 1" using assms(4) by (subst unat_of_nat) simp
  ultimately show "unat (page_u32 page 0x238) = length (vc_cmdline cfg) + 1" by (simp only:)
  have "page ! 0x1e8 = 4" by (simp add: pg nth_put_e820 l0)
  moreover have "[0..<4] = [0, 1, 2, 3 :: nat]" by (simp add: upt_rec)
  ultimately show "map (page_e820 page) [0..<unat (page ! 0x1e8)] = raw_e820 (of_nat n)"
    by (simp add: es pg page_e820_put l0)
qed

text \<open>The writes of the raw path, and what the kernel gets from them: itself at the entry point, and through the zero page its initrd, its command line and the memory map.\<close>

definition raw_writes :: "u8 list \<Rightarrow> u8 list \<Rightarrow> VmConfig \<Rightarrow> nat \<Rightarrow> (u64 \<times> u8 list) list" where
  "raw_writes k r cfg n =
     [(KERNEL_LOAD_ADDR, k), (INITRD_ADDR, r), (CMDLINE_GPA, text_bytes (vc_cmdline cfg) @ [0]),
      (BOOT_PARAMS_ADDR, boot_page cfg (of_nat (length r)) (of_nat n))]"

definition handed_over :: "GuestMemory \<Rightarrow> BootInfo \<Rightarrow> u8 list \<Rightarrow> u8 list \<Rightarrow> string \<Rightarrow> bool" where
  "handed_over m info k r cmd \<longleftrightarrow> (\<exists>g page.
     read_at (entry_rip info) (length k) m = Inr k \<and> boot_params_gpa info = Some g \<and> read_at g 4096 m = Inr page \<and>
     read_at (ucast (page_u32 page 0x218)) (unat (page_u32 page 0x21c)) m = Inr r \<and>
     read_at (ucast (page_u32 page 0x228)) (unat (page_u32 page 0x238)) m = Inr (text_bytes cmd @ [0]) \<and>
     map (page_e820 page) [0..<unat (page ! 0x1e8)] = raw_e820 (of_nat (ram_len m)))"

definition raw_info :: BootInfo where
  "raw_info = \<lparr>entry_rip = KERNEL_LOAD_ADDR, boot_params_gpa = Some BOOT_PARAMS_ADDR, pvh_start_info_gpa = None, firmware_reset = False\<rparr>"

text \<open>A kernel that ends below the initrd, an initrd inside RAM and a command line below the MP table.\<close>

definition raw_fits :: "u8 list \<Rightarrow> u8 list \<Rightarrow> VmConfig \<Rightarrow> nat \<Rightarrow> bool" where
  "raw_fits k r cfg n \<longleftrightarrow> length k \<le> 0x3E00000 \<and> 0 < length r \<and> length r < 2 ^ 32 \<and> 0x4000000 + length r \<le> n \<and> n < 2 ^ 64 \<and>
     length (vc_cmdline cfg) < 0x7fbff"

lemma raw_page:
  assumes "raw_fits k r cfg n"
  defines "page \<equiv> boot_page cfg (of_nat (length r)) (of_nat n)"
  shows "length page = 4096" and "page_u32 page 0x228 = ucast CMDLINE_GPA" and "unat (page_u32 page 0x238) = length (vc_cmdline cfg) + 1"
    and "page_u32 page 0x218 = ucast INITRD_ADDR" and "unat (page_u32 page 0x21c) = length r"
    and "map (page_e820 page) [0..<unat (page ! 0x1e8)] = raw_e820 (of_nat n)"
proof -
  let ?n = "of_nat (length r) :: u32"
  have un: "unat ?n = length r" using assms(1) by (simp add: unat_of_nat raw_fits_def)
  then have n: "0 < ?n" using assms(1) by (simp add: word_less_nat_alt raw_fits_def)
  have "page_u32 page 0x21c = ?n" unfolding page_def by (rule boot_page_facts(5)) (use assms(1) n in \<open>simp_all add: raw_fits_def\<close>)
  then show "unat (page_u32 page 0x21c) = length r" using un by simp
  show "length page = 4096" "page_u32 page 0x228 = ucast CMDLINE_GPA" "unat (page_u32 page 0x238) = length (vc_cmdline cfg) + 1"
    "page_u32 page 0x218 = ucast INITRD_ADDR" "map (page_e820 page) [0..<unat (page ! 0x1e8)] = raw_e820 (of_nat n)"
    unfolding page_def by (rule boot_page_facts; use assms(1) n in \<open>simp add: raw_fits_def\<close>)+
qed

lemma raw_writes_fit:
  assumes "raw_fits k r cfg n" and "(x, d) \<in> set (raw_writes k r cfg n)"
  shows "unat x + length d \<le> n"
    and "unat x + length d \<le> 0x8000 \<or> 0x20000 \<le> unat x \<and> unat x + length d \<le> 0x9fc00 \<or> 0x200000 \<le> unat x"
  using assms raw_page(1) [OF assms(1)] by (auto simp: raw_writes_def raw_fits_def boot_consts length_text_bytes)

lemma raw_writes_apart:
  assumes "raw_fits k r cfg n"
  shows "sorted_wrt (\<lambda>(a, d) (b, e). apart a (length d) b (length e)) (raw_writes k r cfg n)"
  using assms raw_page(1) [OF assms] by (simp add: raw_writes_def raw_fits_def apart_def boot_consts length_text_bytes)

lemma raw_seq:
  assumes "gm.wr_seq (raw_writes k r cfg (ram_len m)) m = (Inr (), m')" and "raw_fits k r cfg (ram_len m)"
  shows "prepare_linux_raw (Some (Inr k)) (Some (Inr r)) cfg m = (Inr raw_info, m')"
proof -
  let ?c = "text_bytes (vc_cmdline cfg) @ [0]" let ?page = "boot_page cfg (of_nat (length r)) (of_nat (ram_len m))"
  obtain m1 m2 m3 where ms: "write_at KERNEL_LOAD_ADDR k m = (Inr (), m1)" "write_at INITRD_ADDR r m1 = (Inr (), m2)"
    "write_at CMDLINE_GPA ?c m2 = (Inr (), m3)" "write_at BOOT_PARAMS_ADDR ?page m3 = (Inr (), m')"
    using assms(1) by (auto simp: raw_writes_def bnd_eq_Inr)
  then have "ram_len m3 = ram_len m" using write_at_len by metis
  moreover have "\<not> ram_len m < length k + unat KERNEL_LOAD_ADDR" using assms(2) by (simp add: boot_consts raw_fits_def)
  ultimately show ?thesis
    using ms by (simp add: prepare_linux_raw_def load_raw_def load_initrd_def write_linux_cmdline_def write_minimal_boot_params_def
        raw_info_def bnd_def)
qed

lemma handed_of_images:
  assumes "raw_fits k r cfg (ram_len m)"
    and "\<And>x d. (x, d) \<in> set (raw_writes k r cfg (ram_len m)) \<Longrightarrow> read_at x (length d) m = Inr d"
  shows "handed_over m raw_info k r (vc_cmdline cfg)"
proof -
  let ?c = "text_bytes (vc_cmdline cfg) @ [0]" let ?page = "boot_page cfg (of_nat (length r)) (of_nat (ram_len m))"
  note page = raw_page [OF assms(1)]
  have "ucast (ucast INITRD_ADDR :: u32) = INITRD_ADDR" "ucast (ucast CMDLINE_GPA :: u32) = CMDLINE_GPA" by (simp_all add: boot_consts)
  moreover have "read_at KERNEL_LOAD_ADDR (length k) m = Inr k" "read_at INITRD_ADDR (length r) m = Inr r"
    "read_at CMDLINE_GPA (length ?c) m = Inr ?c" "read_at BOOT_PARAMS_ADDR (length ?page) m = Inr ?page"
    by (rule assms(2); simp add: raw_writes_def)+
  ultimately show ?thesis unfolding handed_over_def
    by - (rule exI [of _ BOOT_PARAMS_ADDR], rule exI [of _ ?page], simp add: page length_text_bytes raw_info_def)
qed

text \<open>
  The raw boot path hands over what it was given. When the kernel ends below the initrd and the initrd fits into
  RAM, it returns the kernel's address as entry point and a zero page whose pointers lead to the initrd and to the
  zero-terminated command line, both intact, and whose memory map is the one above; the kernel
  is intact as well.
\<close>

theorem raw_boot_intact:
  assumes "mem_ok m" and "raw_fits k r cfg (ram_len m)"
  shows "\<exists>m' info. prepare_linux_raw (Some (Inr k)) (Some (Inr r)) cfg m = (Inr info, m') \<and> handed_over m' info k r (vc_cmdline cfg)"
proof -
  obtain m' where w: "gm.wr_seq (raw_writes k r cfg (ram_len m)) m = (Inr (), m')" "ram_len m' = ram_len m"
    using gm.wr_seq_ok [OF assms(1)] raw_writes_fit(1) [OF assms(2)] by blast
  have "read_at x (length d) m' = Inr d" if "(x, d) \<in> set (raw_writes k r cfg (ram_len m))" for x d
    by (rule gm.rd_wr_seq_image [OF w(1) that raw_writes_apart [OF assms(2)]])
  then have "handed_over m' raw_info k r (vc_cmdline cfg)" using handed_of_images [of k r cfg m'] assms(2) w(2) by simp
  then show ?thesis using raw_seq [OF w(1) assms(2)] by blast
qed

theorem raw_boot_intact_witness:
  "\<exists>m' info. prepare_linux_raw (Some (Inr [0xf4])) (Some (Inr [7, 8])) config_default (blank_ram\<lparr>ram_len := 0x10000000\<rparr>) = (Inr info, m') \<and>
     handed_over m' info [0xf4] [7, 8] (vc_cmdline config_default)"
  by (rule raw_boot_intact) (simp_all add: mem_ok_def raw_fits_def config_default_def)

end
