(* ===== verification/Virtual_Machine.thy ===== *)
theory Virtual_Machine
  imports Machine Boot Rate_Limiter
begin

text \<open>
  The virtual machine \<^verbatim>\<open>from_boot_config\<close> builds from a configuration (\<^verbatim>\<open>fluxvm-hypervisor/src/vm.rs\<close>): the
  command line, guest memory with page tables, boot structures and MP table, the bus, and the choice
  between vhost-net and the userspace network path (\<^verbatim>\<open>NetDatapath\<close> of \<^verbatim>\<open>vhost.rs\<close>). The kernel's answers
  to the system calls behind taps and vhost-net are arguments, one for each queue pair.
\<close>

section \<open>The network path\<close>

datatype Detail =
    NotInitialised | DisabledByEnv | DisabledByConfig | Unavailable FluxError | NoTap
  | BindFailed FluxError | PairFailed nat FluxError | Armed

record NetDatapath =
  dp_kernel :: bool
  dp_pairs :: u32
  dp_detail :: Detail

definition datapath_default :: NetDatapath where
  "datapath_default = \<lparr>dp_kernel = False, dp_pairs = 1, dp_detail = NotInitialised\<rparr>"

definition datapath_set :: "bool \<Rightarrow> u32 \<Rightarrow> Detail \<Rightarrow> NetDatapath \<Rightarrow> NetDatapath" where
  "datapath_set k n why dp = dp\<lparr>dp_kernel := k, dp_pairs := n, dp_detail := why\<rparr>"

record NetHost =
  tap_open :: "string \<Rightarrow> bool \<Rightarrow> unit result"
  tap_queue :: "nat \<Rightarrow> unit result"
  vhost_open :: "nat \<Rightarrow> unit result"
  vhost_attach :: "nat \<Rightarrow> unit result"

text \<open>One more tap queue and one more vhost instance for queue pair \<open>p\<close>.\<close>

definition bind_pair :: "NetHost \<Rightarrow> nat \<Rightarrow> unit result" where
  "bind_pair n p = rbind (tap_queue n p) (\<lambda>_. rbind (vhost_open n p) (\<lambda>_. vhost_attach n p))"

fun bind_pairs :: "NetHost \<Rightarrow> nat list \<Rightarrow> nat list \<Rightarrow> Detail option \<Rightarrow> nat list \<times> Detail option" where
  "bind_pairs n [] got why = (got, why)"
| "bind_pairs n (p # ps) got why =
     (if why \<noteq> None then (got, why)
      else case bind_pair n p of
             Inr _ \<Rightarrow> bind_pairs n ps (got @ [p]) None
           | Inl e \<Rightarrow> bind_pairs n ps got (Some (PairFailed p e)))"

definition open_tap :: "NetHost \<Rightarrow> VmConfig \<Rightarrow> u16 \<Rightarrow> string option result" where
  "open_tap n c pairs =
     (case vc_tap c of
        None \<Rightarrow> Inr None
      | Some name \<Rightarrow> rbind (tap_open n name (1 < pairs)) (\<lambda>_. Inr (Some name)))"

definition attach_vhost :: "NetHost \<Rightarrow> string option \<Rightarrow> u16 \<Rightarrow> nat list \<times> Detail option" where
  "attach_vhost n tap pairs =
     (case tap of
        None \<Rightarrow> ([], Some NoTap)
      | Some _ \<Rightarrow>
          bind_pairs n [1..<unat pairs] []
            (case vhost_attach n 0 of Inr _ \<Rightarrow> None | Inl e \<Rightarrow> Some (BindFailed e)))"

text \<open>Whether vhost-net is armed, the further queue pairs bound to it, and the path that is reported.\<close>

definition net_path :: "NetHost \<Rightarrow> bool \<Rightarrow> VmConfig \<Rightarrow> string option \<Rightarrow> u16 \<Rightarrow> bool \<times> nat list \<times> NetDatapath" where
  "net_path n env_on c tap pairs =
     (if vhost_net_enabled env_on c
      then case vhost_open n 0 of
             Inr _ \<Rightarrow>
               (case attach_vhost n tap pairs of
                  (_, Some why) \<Rightarrow> (False, [], datapath_set False 1 why datapath_default)
                | (got, None) \<Rightarrow> (True, got, datapath_set False (ucast pairs) Armed datapath_default))
           | Inl e \<Rightarrow> (False, [], datapath_set False 1 (Unavailable e) datapath_default)
      else (False, [], datapath_set False 1 (if vc_vhost_net c then DisabledByEnv else DisabledByConfig) datapath_default))"

section \<open>The machine\<close>

record VirtualMachine =
  vmach_cfg :: VmConfig
  vmach_mem :: GuestMemory
  vmach_bus :: "(PioDev, MmioDev) Bus"
  vmach_net_limiter :: RateLimiter
  vmach_blk_limiter :: RateLimiter
  vmach_tap :: "string option"
  vmach_vhost :: bool
  vmach_vhost_pairs :: "nat list"
  vmach_net_datapath :: NetDatapath
  vmach_boot :: BootInfo

text \<open>Guest memory before the devices exist; a failure to write the MP table is only noted.\<close>

definition boot_memory ::
  "Loader \<Rightarrow> u8 list result option \<Rightarrow> u8 list result option \<Rightarrow> u8 list result option \<Rightarrow> VmConfig \<Rightarrow> (GuestMemory, BootInfo) op" where
  "boot_memory ld kern initrd img cfg =
     bnd build_identity_page_tables (\<lambda>_.
     bnd (prepare_boot ld kern initrd img cfg) (\<lambda>info m.
       (Inr info, snd (write_mptable (vc_max_cpus cfg) m))))"

definition from_boot_config ::
  "Host \<Rightarrow> NetHost \<Rightarrow> bool \<Rightarrow> real \<Rightarrow> Loader \<Rightarrow> u8 list result option \<Rightarrow> u8 list result option \<Rightarrow> u8 list result option \<Rightarrow>
   VmConfig \<Rightarrow> VirtualMachine result" where
  "from_boot_config h n mmap_ok now ld kern initrd img cfg0 =
     rbind (validate cfg0) (\<lambda>_.
     let cfg = cfg0\<lparr>vc_cmdline := boot_cmdline cfg0\<rparr> in
     rbind (allocate mmap_ok (memory_bytes cfg)) (\<lambda>m0.
     case boot_memory ld kern initrd img cfg m0 of
       (Inl e, _) \<Rightarrow> Inl e
     | (Inr info, m) \<Rightarrow>
         rbind (attach_devices h cfg) (\<lambda>b.
         rbind (open_tap n cfg (net_pairs h cfg)) (\<lambda>tap.
         let (armed, got, dp) = net_path n (env_vhost h) cfg tap (net_pairs h cfg) in
         Inr \<lparr>vmach_cfg = cfg, vmach_mem = m, vmach_bus = b, vmach_net_limiter = from_mbit (vc_net_mbit_limit cfg) now,
              vmach_blk_limiter = from_mbit (vc_blk_mbit_limit cfg) now, vmach_tap = tap, vmach_vhost = armed,
              vmach_vhost_pairs = got, vmach_net_datapath = dp, vmach_boot = info\<rparr>))))"

section \<open>Properties of the network path\<close>

lemma bind_pairs_all:
  "bind_pairs n ps got why = (got', None) \<longleftrightarrow> why = None \<and> got' = got @ ps \<and> (\<forall>p \<in> set ps. bind_pair n p = Inr ())"
proof (induction ps arbitrary: got why)
  case (Cons p ps)
  then show ?case by (cases "bind_pair n p") auto
qed auto

lemma net_path_armed:
  "net_path n e c tap pairs = (True, got, dp) \<longleftrightarrow>
     vhost_net_enabled e c \<and> tap \<noteq> None \<and> vhost_open n 0 = Inr () \<and> vhost_attach n 0 = Inr () \<and>
     (\<forall>p \<in> {1..<unat pairs}. bind_pair n p = Inr ()) \<and> got = [1..<unat pairs] \<and> dp = datapath_set False (ucast pairs) Armed datapath_default"
proof -
  obtain g w where gw: "attach_vhost n tap pairs = (g, w)" by (cases "attach_vhost n tap pairs")
  have "attach_vhost n tap pairs = (g', None) \<longleftrightarrow>
      tap \<noteq> None \<and> vhost_attach n 0 = Inr () \<and> g' = [1..<unat pairs] \<and> (\<forall>p \<in> {1..<unat pairs}. bind_pair n p = Inr ())" for g'
    using bind_pairs_all [of n "[1..<unat pairs]" "[]" _ g'] by (cases tap; cases "vhost_attach n 0") (auto simp: attach_vhost_def)
  note a = this [unfolded gw]
  show ?thesis
  proof (cases "vhost_open n 0")
    case (Inr u)
    then show ?thesis using a [of g] a [of "[1..<unat pairs]"] by (cases w) (auto simp: net_path_def gw)
  qed (auto simp: net_path_def)
qed

section \<open>Guest memory\<close>

definition boot_writes :: "u8 list \<Rightarrow> u8 list \<Rightarrow> VmConfig \<Rightarrow> nat \<Rightarrow> (u64 \<times> u8 list) list" where
  "boot_writes k r cfg n = page_writes @ raw_writes k r cfg n @ mp_writes (vc_max_cpus cfg)"

lemma page_writes_fit: "(x, d) \<in> set page_writes \<Longrightarrow> 0x8000 \<le> unat x \<and> unat x + length d \<le> 0xE000"
  by (auto simp: page_writes_def PML4_def PDPT_def PD0_def PD3_def)

lemma page_writes_apart: "sorted_wrt (\<lambda>(a, d) (b, e). apart a (length d) b (length e)) page_writes"
  by (simp add: page_writes_def apart_def PML4_def PDPT_def PD0_def PD3_def)

lemma mp_writes_apart: "sorted_wrt (\<lambda>(a, d) (b, e). apart a (length d) b (length e)) (mp_writes c)"
  by (simp add: mp_writes_def apart_def length_mp_pointer MPFLOAT_GPA_def)

lemma boot_writes_apart:
  assumes "raw_fits k r cfg n"
  shows "sorted_wrt (\<lambda>(a, d) (b, e). apart a (length d) b (length e)) (boot_writes k r cfg n)"
proof -
  have "(\<lambda>(a, d) (b, e). apart a (length d) b (length e)) u v"
    if "u \<in> set page_writes \<and> v \<in> set (raw_writes k r cfg n @ mp_writes (vc_max_cpus cfg)) \<or>
        u \<in> set (raw_writes k r cfg n) \<and> v \<in> set (mp_writes (vc_max_cpus cfg))" for u v
  proof -
    obtain a d b e where uv: "u = (a, d)" "v = (b, e)" by (cases u; cases v)
    show ?thesis using that raw_writes_fit(2) [OF assms, of a d] raw_writes_fit(2) [OF assms, of b e] page_writes_fit [of a d]
        mp_writes_fit [of b e "vc_max_cpus cfg"]
      unfolding uv by (auto simp: apart_def)
  qed
  then show ?thesis
    unfolding boot_writes_def sorted_wrt_append using page_writes_apart mp_writes_apart raw_writes_apart [OF assms] by blast
qed

text \<open>A loader that refuses the image leaves guest memory alone.\<close>

definition refuses :: "Loader \<Rightarrow> bool" where
  "refuses ld \<longleftrightarrow> \<not> open_kernel ld \<or> (\<forall>m. load_bz ld m = (None, m) \<and> load_elf ld m = (None, m))"

lemma prepare_refused:
  assumes "refuses ld" and "vc_guest cfg = Linux"
  shows "prepare_boot ld kern initrd img cfg = prepare_linux_raw kern initrd cfg"
proof (rule ext)
  fix m
  have "\<exists>e. prepare_linux_with_loader ld initrd cfg m = (Inl e, m)"
    using assms(1) by (auto simp: prepare_linux_with_loader_def load_kernel_def refuses_def bnd_def fail_def)
  then show "prepare_boot ld kern initrd img cfg m = prepare_linux_raw kern initrd cfg m"
    using assms(2) by (auto simp: prepare_boot_def prepare_linux_def)
qed

lemma boot_memory_image:
  assumes "mem_ok m" and "raw_fits k r cfg (ram_len m)" and "refuses ld" and "vc_guest cfg = Linux"
  shows "\<exists>m'. boot_memory ld (Some (Inr k)) (Some (Inr r)) img cfg m = (Inr raw_info, m') \<and> ram_len m' = ram_len m \<and>
    tables_in_place m' \<and> handed_over m' raw_info k r (vc_cmdline cfg) \<and> mp_found m' (mp_cpus (vc_max_cpus cfg))"
proof -
  let ?ws = "boot_writes k r cfg (ram_len m)"
  have "0xA0000 \<le> ram_len m" using assms(2) by (simp add: raw_fits_def)
  then have "unat x + length d \<le> ram_len m" if "(x, d) \<in> set ?ws" for x d
    using that raw_writes_fit(1) [OF assms(2), of x d] page_writes_fit [of x d] mp_writes_fit [of x d "vc_max_cpus cfg"]
    by (auto simp: boot_writes_def)
  then obtain m' where w: "gm.wr_seq ?ws m = (Inr (), m')" "mem_ok m'" "ram_len m' = ram_len m" using gm.wr_seq_ok [OF assms(1)] by blast
  have rd: "read_at x (length d) m' = Inr d" if "(x, d) \<in> set ?ws" for x d
    by (rule gm.rd_wr_seq_image [OF w(1) that boot_writes_apart [OF assms(2)]])
  obtain m1 m2 where ms: "gm.wr_seq page_writes m = (Inr (), m1)" "gm.wr_seq (raw_writes k r cfg (ram_len m)) m1 = (Inr (), m2)"
    "gm.wr_seq (mp_writes (vc_max_cpus cfg)) m2 = (Inr (), m')"
    using w(1) by (auto simp: boot_writes_def gm.wr_seq_append)
  have l: "ram_len m1 = ram_len m" using gm.wr_seq_sz [of page_writes m] ms(1) by simp
  have "prepare_linux_raw (Some (Inr k)) (Some (Inr r)) cfg m1 = (Inr raw_info, m2)"
    by (rule raw_seq) (use ms(2) assms(2) in \<open>simp_all add: l\<close>)
  then have "boot_memory ld (Some (Inr k)) (Some (Inr r)) img cfg m = (Inr raw_info, m')"
    using build_seq [OF ms(1)] ms(3) by (simp add: boot_memory_def prepare_refused [OF assms(3,4)] write_mptable_seq bnd_def)
  moreover have "tables_in_place m'" by (rule tables_of_images [OF w(2) rd]) (simp add: boot_writes_def)
  moreover have "mp_found m' (mp_cpus (vc_max_cpus cfg))" by (rule mp_of_images [OF rd]) (simp add: boot_writes_def)
  moreover have "handed_over m' raw_info k r (vc_cmdline cfg)"
    by (rule handed_of_images) (use assms(2) w(3) rd in \<open>simp_all add: boot_writes_def\<close>)
  ultimately show ?thesis using w(3) by blast
qed

lemma net_pairs_cmdline: "net_pairs h (c\<lparr>vc_cmdline := s\<rparr>) = net_pairs h c"
  by (simp add: net_pairs_def effective_net_queue_pairs_def vhost_net_enabled_def cong: option.case_cong)

lemma attach_devices_cmdline: "attach_devices h (c\<lparr>vc_cmdline := s\<rparr>) = attach_devices h c"
proof -
  have "blk_device h (c\<lparr>vc_cmdline := s\<rparr>) = blk_device h c" by (simp add: blk_device_def)
  moreover have "vsock_device h (c\<lparr>vc_cmdline := s\<rparr>) = vsock_device h c" by (simp add: vsock_device_def)
  moreover have "machine_mac (c\<lparr>vc_cmdline := s\<rparr>) = machine_mac c" by (simp add: machine_mac_def)
  ultimately show ?thesis by (simp add: attach_devices_def virtio_devices_def net_pairs_cmdline)
qed

lemma net_path_cmdline: "net_path n e (c\<lparr>vc_cmdline := s\<rparr>) tap pairs = net_path n e c tap pairs"
  by (simp add: net_path_def vhost_net_enabled_def)

text \<open>What boot adds to the command line is short.\<close>

lemma length_hex_string: "n < 16 ^ Suc k \<Longrightarrow> length (hex_string n) \<le> Suc k"
proof (induction k arbitrary: n)
  case 0
  then show ?case by (subst hex_string.simps) simp
next
  case (Suc k)
  have "n div 16 < 16 ^ Suc k" using Suc.prems by (simp add: less_mult_imp_div_less mult.commute)
  then show ?case using Suc.IH [of "n div 16"] by (subst hex_string.simps) simp
qed

lemma length_advertise: "length (advertise dev cmd) \<le> length cmd + 80"
proof (cases dev)
  case (fields base len irqn)
  have h: "length (hex_string (unat w)) \<le> 16" for w :: u64
    using length_hex_string [of "unat w" 15] unat_bounds(4) [of w] by simp
  have "length (dec_string (unat irqn)) \<le> 10" using length_dec_string [of "unat irqn" 9] unat_bounds(3) [of irqn] by simp
  then show ?thesis using h [of base] h [of len] by (simp add: fields advertise_def)
qed

lemma length_fold_advertise: "length (fold advertise devs cmd) \<le> length cmd + 80 * length devs"
proof (induction devs arbitrary: cmd)
  case (Cons d devs)
  show ?case using length_advertise [of d cmd] Cons.IH [of "advertise d cmd"] by simp
qed simp

lemma length_trim: "length (trim s) \<le> length s"
  by (simp add: trim_def trim_start_def trim_end_def) (metis length_dropWhile_le length_rev order_trans)

lemma length_boot_cmdline: "length (boot_cmdline c) \<le> length (vc_cmdline c) + 500"
proof -
  have w: "length (add_word w cmd) \<le> length cmd + 1 + length w" for w cmd by (simp add: add_word_def)
  have "length (mmio_devs c) \<le> 5" by (simp add: mmio_devs_def)
  then have "length (append_virtio_mmio_cmdline (vc_cmdline c) (mmio_devs c)) \<le> length (vc_cmdline c) + 400"
    using length_fold_advertise [of "mmio_devs c" "trim (vc_cmdline c)"] length_trim [of "vc_cmdline c"]
    by (simp add: append_virtio_mmio_cmdline_def)
  moreover have "length (dec_string (unat (vc_cpus c))) \<le> 3" using length_dec_string [of "unat (vc_cpus c)" 2] unat_bounds(1) [of "vc_cpus c"] by simp
  ultimately show ?thesis
    using w [of "''pci=off''" "append_virtio_mmio_cmdline (vc_cmdline c) (mmio_devs c)"]
      w [of "''maxcpus='' @ dec_string (unat (vc_cpus c))" "append_virtio_mmio_cmdline (vc_cmdline c) (mmio_devs c)"]
      w [of "''maxcpus='' @ dec_string (unat (vc_cpus c))" "add_word ''pci=off'' (append_virtio_mmio_cmdline (vc_cmdline c) (mmio_devs c))"]
    by (simp add: boot_cmdline_def Let_def)
qed

lemma net_path_off:
  assumes "net_path n e c tap pairs = (False, got, dp)"
  shows "got = [] \<and> dp_pairs dp = 1 \<and> \<not> dp_kernel dp"
  using assms by (auto simp: net_path_def datapath_set_def datapath_default_def split: if_split_asm sum.split_asm prod.split_asm option.split_asm)

lemma from_boot_config_Inr:
  assumes "boot_bus h c = Inr b"
    and "boot_memory ld kern initrd img (c\<lparr>vc_cmdline := boot_cmdline c\<rparr>) \<lparr>ram = (\<lambda>_. 0), ram_len = memory_bytes c\<rparr> = (Inr info, m)"
    and "open_tap n c (net_pairs h c) = Inr tap"
  obtains vm where "from_boot_config h n True now ld kern initrd img c = Inr vm" and "vmach_mem vm = m" and "vmach_bus vm = b"
    and "vmach_boot vm = info" and "vmach_tap vm = tap"
    and "net_path n (env_vhost h) c tap (net_pairs h c) = (vmach_vhost vm, vmach_vhost_pairs vm, vmach_net_datapath vm)"
proof -
  let ?c = "c\<lparr>vc_cmdline := boot_cmdline c\<rparr>"
  have v: "validate c = Inr ()" "attach_devices h ?c = Inr b"
    using assms(1) attach_devices_cmdline by (auto simp: boot_bus_def result_simps)
  have "vc_memory_mib c \<noteq> 0" using v(1) by (auto simp: validate_def split: if_split_asm)
  then have a: "allocate True (memory_bytes ?c) = Inr \<lparr>ram = (\<lambda>_. 0), ram_len = memory_bytes c\<rparr>"
    by (simp add: allocate_def memory_bytes_def unat_eq_0 mult.assoc)
  have t: "open_tap n ?c (net_pairs h ?c) = Inr tap" using assms(3) by (simp add: open_tap_def net_pairs_cmdline)
  obtain armed got dp where p: "net_path n (env_vhost h) c tap (net_pairs h c) = (armed, got, dp)" by (metis prod_cases3)
  then have q: "net_path n (env_vhost h) ?c tap (net_pairs h ?c) = (armed, got, dp)" by (simp only: net_path_cmdline net_pairs_cmdline)
  let ?vm = "\<lparr>vmach_cfg = ?c, vmach_mem = m, vmach_bus = b, vmach_net_limiter = from_mbit (vc_net_mbit_limit c) now,
    vmach_blk_limiter = from_mbit (vc_blk_mbit_limit c) now, vmach_tap = tap, vmach_vhost = armed, vmach_vhost_pairs = got,
    vmach_net_datapath = dp, vmach_boot = info\<rparr>"
  have "from_boot_config h n True now ld kern initrd img c = Inr ?vm"
    using v a t q assms(2) by (simp add: from_boot_config_def Let_def)
  then show thesis by (rule that) (simp_all add: p)
qed

section \<open>Properties\<close>

text \<open>
  C35. The kernel network path takes all queue pairs or none. When memory, devices and tap are there the machine is built whatever vhost-net
  answers. The kernel path is armed exactly when it is enabled, there is a tap and every queue pair of the
  device could be bound; then the pairs bound are those of the device and their number is reported.
  Otherwise no pair stays bound, a single pair is reported, and the path is never reported as the
  kernel's before the guest has set up its rings.
\<close>

theorem vhost_all_or_nothing:
  assumes "boot_bus h c = Inr b"
    and "boot_memory ld kern initrd img (c\<lparr>vc_cmdline := boot_cmdline c\<rparr>) \<lparr>ram = (\<lambda>_. 0), ram_len = memory_bytes c\<rparr> = (Inr info, m)"
    and "open_tap n c (net_pairs h c) = Inr tap"
  shows "\<exists>vm. from_boot_config h n True now ld kern initrd img c = Inr vm \<and>
    (vmach_vhost vm \<longleftrightarrow> vhost_net_enabled (env_vhost h) c \<and> tap \<noteq> None \<and> vhost_open n 0 = Inr () \<and> vhost_attach n 0 = Inr () \<and>
       (\<forall>p \<in> {1..<unat (net_pairs h c)}. bind_pair n p = Inr ())) \<and>
    vmach_vhost_pairs vm = (if vmach_vhost vm then [1..<unat (net_pairs h c)] else []) \<and>
    dp_pairs (vmach_net_datapath vm) = (if vmach_vhost vm then ucast (net_pairs h c) else 1) \<and> \<not> dp_kernel (vmach_net_datapath vm)"
proof -
  obtain vm where vm: "from_boot_config h n True now ld kern initrd img c = Inr vm"
    and p: "net_path n (env_vhost h) c tap (net_pairs h c) = (vmach_vhost vm, vmach_vhost_pairs vm, vmach_net_datapath vm)"
    by (rule from_boot_config_Inr [OF assms])
  have armed: "vmach_vhost vm \<longleftrightarrow> vhost_net_enabled (env_vhost h) c \<and> tap \<noteq> None \<and> vhost_open n 0 = Inr () \<and> vhost_attach n 0 = Inr () \<and>
       (\<forall>p \<in> {1..<unat (net_pairs h c)}. bind_pair n p = Inr ())"
    (is "_ \<longleftrightarrow> ?all")
  proof
    show ?all if "vmach_vhost vm"
      using that p net_path_armed [of n "env_vhost h" c tap "net_pairs h c" "vmach_vhost_pairs vm" "vmach_net_datapath vm"] by simp
    show "vmach_vhost vm" if ?all
      using that p net_path_armed [of n "env_vhost h" c tap "net_pairs h c" "[1..<unat (net_pairs h c)]"
        "datapath_set False (ucast (net_pairs h c)) Armed datapath_default"] by simp
  qed
  show ?thesis
  proof (cases "vmach_vhost vm")
    case True
    then have "vmach_vhost_pairs vm = [1..<unat (net_pairs h c)] \<and> vmach_net_datapath vm = datapath_set False (ucast (net_pairs h c)) Armed datapath_default"
      using net_path_armed [of n "env_vhost h" c tap "net_pairs h c" "vmach_vhost_pairs vm" "vmach_net_datapath vm"] p by simp
    then show ?thesis by (intro exI [of _ vm] conjI vm armed) (simp_all add: True datapath_set_def datapath_default_def)
  next
    case False
    then have "vmach_vhost_pairs vm = [] \<and> dp_pairs (vmach_net_datapath vm) = 1 \<and> \<not> dp_kernel (vmach_net_datapath vm)"
      using net_path_off [of n "env_vhost h" c tap "net_pairs h c"] p by simp
    then show ?thesis by (intro exI [of _ vm] conjI vm armed) (simp_all add: False)
  qed
qed

definition sample_net :: NetHost where
  "sample_net = \<lparr>tap_open = (\<lambda>_ _. Inr ()), tap_queue = (\<lambda>_. Inr ()), vhost_open = (\<lambda>_. Inr ()), vhost_attach = (\<lambda>_. Inr ())\<rparr>"

definition sample_loader :: Loader where
  "sample_loader = \<lparr>open_kernel = True, load_bz = (\<lambda>m. (None, m)), load_elf = (\<lambda>m. (None, m)),
     write_zero_page = (\<lambda>_. ret ()), write_pvh = (\<lambda>_. ret ())\<rparr>"

definition sample_vhost :: VmConfig where
  "sample_vhost = (sample_config False)\<lparr>vc_tap := Some ''tap0'', vc_vhost_net := True, vc_net_queue_pairs := 2\<rparr>"

lemma raw_fits_boot:
  assumes "length k \<le> 0x3E00000" and "0 < length r" and "length r < 2 ^ 32" and "0x4000000 + length r \<le> memory_bytes c"
    and "length (vc_cmdline c) < 0x7f000"
  shows "raw_fits k r (c\<lparr>vc_cmdline := boot_cmdline c\<rparr>) (memory_bytes c)"
  using assms length_boot_cmdline [of c] unat_bounds(3) [of "vc_memory_mib c"] by (simp add: raw_fits_def memory_bytes_def)

lemma boot_memory_ok:
  assumes "raw_fits k r (c\<lparr>vc_cmdline := boot_cmdline c\<rparr>) (memory_bytes c)" and "refuses ld" and "vc_guest c = Linux"
  shows "\<exists>m'. boot_memory ld (Some (Inr k)) (Some (Inr r)) img (c\<lparr>vc_cmdline := boot_cmdline c\<rparr>)
      \<lparr>ram = (\<lambda>_. 0), ram_len = memory_bytes c\<rparr> = (Inr raw_info, m') \<and> ram_len m' = memory_bytes c \<and>
    tables_in_place m' \<and> handed_over m' raw_info k r (boot_cmdline c) \<and> mp_found m' (mp_cpus (vc_max_cpus c))"
  using boot_memory_image [of "\<lparr>ram = (\<lambda>_. 0), ram_len = memory_bytes c\<rparr>" k r "c\<lparr>vc_cmdline := boot_cmdline c\<rparr>" ld img] assms
  by (simp add: mem_ok_def raw_fits_def)

lemma sample_raw:
  "raw_fits [0xf4] [7, 8] (sample_vhost\<lparr>vc_cmdline := boot_cmdline sample_vhost\<rparr>) (memory_bytes sample_vhost)" "refuses sample_loader"
  by (rule raw_fits_boot; simp add: memory_bytes_def sample_vhost_def sample_config_def config_default_def)
    (simp add: refuses_def sample_loader_def)

lemma sample_vhost_boots: "\<exists>b. boot_bus (sample_host\<lparr>env_vhost := True\<rparr>) sample_vhost = Inr b"
  by (simp add: boot_bus_def attach_devices_def validate_def virtio_devices_def blk_device_def vsock_device_def sample_host_def
      sample_vhost_def sample_config_def config_default_def NET_MAX_QUEUE_PAIRS_def Let_def)

lemma sample_tap: "open_tap sample_net sample_vhost q = Inr (Some ''tap0'')"
  by (simp add: open_tap_def sample_net_def sample_vhost_def)

theorem vhost_all_or_nothing_witness:
  "\<exists>vm. from_boot_config (sample_host\<lparr>env_vhost := True\<rparr>) sample_net True 0 sample_loader (Some (Inr [0xf4])) (Some (Inr [7, 8])) None
      sample_vhost = Inr vm \<and> vmach_vhost vm \<and> vmach_vhost_pairs vm = [1]"
proof -
  let ?h = "sample_host\<lparr>env_vhost := True\<rparr>" let ?c = "sample_vhost"
  obtain b where b: "boot_bus ?h ?c = Inr b" using sample_vhost_boots by blast
  have "vc_guest ?c = Linux" by (simp add: sample_vhost_def sample_config_def config_default_def)
  then obtain m where m: "boot_memory sample_loader (Some (Inr [0xf4])) (Some (Inr [7, 8])) None (?c\<lparr>vc_cmdline := boot_cmdline ?c\<rparr>)
      \<lparr>ram = (\<lambda>_. 0), ram_len = memory_bytes ?c\<rparr> = (Inr raw_info, m)"
    using boot_memory_ok [OF sample_raw] by blast
  have p: "net_pairs ?h ?c = 2" and v: "vhost_net_enabled True ?c"
    by (simp_all add: net_pairs_def effective_net_queue_pairs_def sample_host_def sample_vhost_def vhost_net_enabled_def NET_MAX_QUEUE_PAIRS_def)
  have n: "vhost_open sample_net 0 = Inr ()" "vhost_attach sample_net 0 = Inr ()" "bind_pair sample_net q = Inr ()" for q
    by (simp_all add: sample_net_def bind_pair_def)
  obtain vm where vm: "from_boot_config ?h sample_net True 0 sample_loader (Some (Inr [0xf4])) (Some (Inr [7, 8])) None ?c = Inr vm"
    and a: "vmach_vhost vm \<longleftrightarrow> vhost_net_enabled (env_vhost ?h) ?c \<and> Some ''tap0'' \<noteq> None \<and> vhost_open sample_net 0 = Inr () \<and>
      vhost_attach sample_net 0 = Inr () \<and> (\<forall>p \<in> {1..<unat (net_pairs ?h ?c)}. bind_pair sample_net p = Inr ())"
    and q: "vmach_vhost_pairs vm = (if vmach_vhost vm then [1..<unat (net_pairs ?h ?c)] else [])"
    using vhost_all_or_nothing [OF b m sample_tap] by blast
  have "vmach_vhost vm" using a n v by simp
  then show ?thesis using vm q by (intro exI [of _ vm]) (simp add: p upt_rec)
qed

end
