(* ===== verification/Vz_Switch.thy ===== *)
theory Vz_Switch
  imports Rust_Text
begin

text \<open>
  The Ethernet switch of a private network of guests (\<^verbatim>\<open>fluxvm-vz-switch/src/lib.rs\<close>): the address a
  runner asks for, the port table with its two-step insertion, where a frame goes, and when the
  process leaves. A port is represented by its record, a socket by its descriptor number; the JSON
  decoder of the hello line, what \<^verbatim>\<open>recvmsg\<close>, \<^verbatim>\<open>getsockopt\<close> and \<^verbatim>\<open>accept\<close> return and the clock are arguments.
\<close>

section \<open>Addresses and forwarding\<close>

definition MAX_FRAME :: nat where "MAX_FRAME = 1600"
definition ETH_HEADER :: nat where "ETH_HEADER = 14"

type_synonym Mac = "u8 list"

record Hello =
  hello_vm :: string
  hello_mac :: string

fun parse_pairs :: "string list \<Rightarrow> u8 list option" where
  "parse_pairs [] = Some []"
| "parse_pairs (h # hs) =
     (case (if length h = 2 then from_str_radix 16 256 h else None) of
        None \<Rightarrow> None
      | Some n \<Rightarrow> map_option (\<lambda>bs. of_nat n # bs) (parse_pairs hs))"

definition parse_mac :: "string \<Rightarrow> Mac option" where
  "parse_mac s =
     (case parse_pairs (split_on CHR '':'' s) of
        None \<Rightarrow> None
      | Some m \<Rightarrow> if length m \<noteq> 6 then None
                  else if m ! 0 AND 1 = 0 \<and> m \<noteq> replicate 6 0 then Some m else None)"

definition targets :: "(u64 \<times> Mac) list \<Rightarrow> u64 \<Rightarrow> u8 list \<Rightarrow> string + u64 list" where
  "targets ps src frame =
     (if length frame < ETH_HEADER then Inl ''runt frame''
      else if MAX_FRAME < length frame then Inl ''oversized frame''
      else case find (\<lambda>(i, _). i = src) ps of
             None \<Rightarrow> Inl ''unknown port''
           | Some (_, own) \<Rightarrow>
               if slice 6 12 frame \<noteq> own then Inl ''spoofed source address''
               else let dst = slice 0 6 frame in
                    if dst ! 0 AND 1 = 1 then Inr (map fst (filter (\<lambda>(i, _). i \<noteq> src) ps))
                    else case find (\<lambda>(i, m). i \<noteq> src \<and> m = dst) ps of
                           Some (i, _) \<Rightarrow> Inr [i]
                         | None \<Rightarrow> Inl ''unknown destination'')"

section \<open>The port table\<close>

record Port =
  po_id :: u64
  po_vm :: string
  po_mac :: Mac
  po_frames :: int

record Table =
  ta_ports :: "Port list"
  ta_next :: u64
  ta_closed :: "u64 list"

definition table_default :: Table where
  "table_default = \<lparr>ta_ports = [], ta_next = 0, ta_closed = []\<rparr>"

text \<open>\<^verbatim>\<open>add\<close> takes the number before it has the lock, so another thread may run between its two halves.\<close>

definition port_new :: "string \<Rightarrow> Mac \<Rightarrow> int \<Rightarrow> Table \<Rightarrow> Port \<times> Table" where
  "port_new vm m fd t =
     (\<lparr>po_id = ta_next t, po_vm = vm, po_mac = m, po_frames = fd\<rparr>, t\<lparr>ta_next := ta_next t + 1\<rparr>)"

definition port_insert :: "Port \<Rightarrow> Table \<Rightarrow> Table" where
  "port_insert p t =
     t\<lparr>ta_closed := map po_id (filter (\<lambda>q. po_mac q = po_mac p) (ta_ports t)) @ ta_closed t,
       ta_ports := filter (\<lambda>q. po_mac q \<noteq> po_mac p) (ta_ports t) @ [p]\<rparr>"

definition table_add :: "string \<Rightarrow> Mac \<Rightarrow> int \<Rightarrow> Table \<Rightarrow> Port \<times> Table" where
  "table_add vm m fd t = (let (p, t) = port_new vm m fd t in (p, port_insert p t))"

definition table_remove :: "u64 \<Rightarrow> Table \<Rightarrow> Table" where
  "table_remove i t =
     t\<lparr>ta_closed := map po_id (filter (\<lambda>q. po_id q = i) (ta_ports t)) @ ta_closed t,
       ta_ports := filter (\<lambda>q. po_id q \<noteq> i) (ta_ports t)\<rparr>"

definition table_is_empty :: "Table \<Rightarrow> bool" where
  "table_is_empty t \<longleftrightarrow> ta_ports t = []"

text \<open>What one received frame makes \<^verbatim>\<open>pump\<close> do: the ports of the snapshot it is sent to.\<close>

definition pump_frame :: "Table \<Rightarrow> Port \<Rightarrow> u8 list \<Rightarrow> Port list" where
  "pump_frame t p frame =
     (case targets (map (\<lambda>q. (po_id q, po_mac q)) (ta_ports t)) (po_id p) frame of
        Inl _ \<Rightarrow> []
      | Inr dsts \<Rightarrow> filter (\<lambda>q. po_id q \<in> set dsts) (ta_ports t))"

section \<open>Joining\<close>

text \<open>\<^verbatim>\<open>recvmsg\<close> gives the bytes read and the descriptors passed with them.\<close>

definition recv_hello :: "(u8 list \<Rightarrow> Hello option) \<Rightarrow> (u8 list \<times> int list) option \<Rightarrow> string + Hello \<times> int" where
  "recv_hello decode msg =
     (case msg of
        None \<Rightarrow> Inl ''recvmsg''
      | Some (buf, fds) \<Rightarrow>
          (case fds of
             [] \<Rightarrow> Inl ''no frame socket was passed''
           | fd # _ \<Rightarrow>
               (case decode (takeWhile (\<lambda>b. b \<noteq> 10) buf) of
                  None \<Rightarrow> Inl ''parsing the hello line''
                | Some h \<Rightarrow> Inr (h, fd))))"

definition admit :: "(u8 list \<Rightarrow> Hello option) \<Rightarrow> (int \<Rightarrow> bool) \<Rightarrow> (u8 list \<times> int list) option \<Rightarrow> string + string \<times> Mac \<times> int" where
  "admit decode datagram msg =
     (case recv_hello decode msg of
        Inl e \<Rightarrow> Inl e
      | Inr (h, fd) \<Rightarrow>
          (case parse_mac (hello_mac h) of
             None \<Rightarrow> Inl ''bad MAC''
           | Some m \<Rightarrow> if datagram fd then Inr (hello_vm h, m, fd) else Inl ''not a datagram socket''))"

text \<open>\<^verbatim>\<open>serve_port\<close> on its own: the port is removed again when the runner hangs up, but not when the reply fails.\<close>

definition serve_port ::
  "(u8 list \<Rightarrow> Hello option) \<Rightarrow> (int \<Rightarrow> bool) \<Rightarrow> (u8 list \<times> int list) option \<Rightarrow> bool \<Rightarrow> Table \<Rightarrow> (string + unit) \<times> Table" where
  "serve_port decode datagram msg acked t =
     (case admit decode datagram msg of
        Inl e \<Rightarrow> (Inl e, t)
      | Inr (vm, m, fd) \<Rightarrow>
          (let (p, t) = table_add vm m fd t in
           if \<not> acked then (Inl ''acknowledging the join'', t) else (Inr (), table_remove (po_id p) t)))"

section \<open>The serving loop\<close>

datatype Accepted = Stream | Would_Block | Accept_Failed

datatype Serve = Serving nat | Idle_Exit | Accept_Error

definition serve_tick :: "nat \<Rightarrow> Accepted \<Rightarrow> nat \<Rightarrow> nat \<Rightarrow> Table \<Rightarrow> Serve" where
  "serve_tick idle acc now last_busy t =
     (case acc of
        Accept_Failed \<Rightarrow> Accept_Error
      | _ \<Rightarrow>
          (let last_busy = (if acc = Stream then now else last_busy) in
           if \<not> table_is_empty t then Serving now
           else if idle \<le> now - last_busy then Idle_Exit
           else Serving last_busy))"

section \<open>The threads of the switch\<close>

text \<open>
  \<open>sw_made\<close> are the ports of all joins so far, \<open>sw_pending\<close> those between the halves of \<^verbatim>\<open>add\<close>, and \<open>sw_served\<close> the
  ports whose thread got past the reply: only those threads come to \<^verbatim>\<open>remove\<close>.
\<close>

record Switch =
  sw_table :: Table
  sw_made :: "Port list"
  sw_pending :: "Port list"
  sw_served :: "Port list"

datatype SwEvent =
  Arrive "(u8 list \<times> int list) option"
| Insert Port bool
| Leave Port

definition switch_new :: Switch where
  "switch_new = \<lparr>sw_table = table_default, sw_made = [], sw_pending = [], sw_served = []\<rparr>"

fun switch_step :: "(u8 list \<Rightarrow> Hello option) \<Rightarrow> (int \<Rightarrow> bool) \<Rightarrow> SwEvent \<Rightarrow> Switch \<Rightarrow> Switch" where
  "switch_step decode datagram (Arrive msg) s =
     (case admit decode datagram msg of
        Inl _ \<Rightarrow> s
      | Inr (vm, m, fd) \<Rightarrow>
          (let (p, t) = port_new vm m fd (sw_table s)
           in s\<lparr>sw_table := t, sw_made := sw_made s @ [p], sw_pending := p # sw_pending s\<rparr>))"
| "switch_step decode datagram (Insert p acked) s =
     (if p \<in> set (sw_pending s)
      then s\<lparr>sw_table := port_insert p (sw_table s), sw_pending := removeAll p (sw_pending s),
             sw_served := (if acked then p # sw_served s else sw_served s)\<rparr>
      else s)"
| "switch_step decode datagram (Leave p) s =
     (if p \<in> set (sw_served s) then s\<lparr>sw_table := table_remove (po_id p) (sw_table s)\<rparr> else s)"

section \<open>Lemmas\<close>

lemma length_parse_pairs: "parse_pairs hs = Some m \<Longrightarrow> length m = length hs"
  by (induction hs arbitrary: m) (auto split: option.split_asm)

lemma parse_mac_unicast: "parse_mac s = Some m \<Longrightarrow> length m = 6 \<and> m ! 0 AND 1 = 0"
  by (auto simp: parse_mac_def split: option.split_asm if_split_asm)

lemma admit_mac: "admit decode datagram msg = Inr (vm, m, fd) \<Longrightarrow> length m = 6 \<and> m ! 0 AND 1 = 0"
  by (auto simp: admit_def dest: parse_mac_unicast split: sum.split_asm option.split_asm if_split_asm)

definition switch_ok :: "Switch \<Rightarrow> bool" where
  "switch_ok s \<longleftrightarrow>
     ta_next (sw_table s) = of_nat (length (sw_made s)) \<and>
     map po_id (sw_made s) = map of_nat [0..<length (sw_made s)] \<and>
     set (sw_pending s) \<subseteq> set (sw_made s) \<and> set (sw_served s) \<subseteq> set (sw_made s) \<and> set (ta_ports (sw_table s)) \<subseteq> set (sw_made s) \<and>
     distinct (map po_mac (ta_ports (sw_table s))) \<and>
     (\<forall>p \<in> set (sw_made s). length (po_mac p) = 6 \<and> po_mac p ! 0 AND 1 = 0)"

lemma switch_ok_step:
  assumes "switch_ok s"
  shows "switch_ok (switch_step decode datagram e s)"
proof (cases e)
  case (Arrive msg)
  then show ?thesis using assms
    by (auto simp: switch_ok_def port_new_def Let_def dest: admit_mac split: sum.split)
next
  case (Insert p acked)
  have "distinct (map po_mac (filter (\<lambda>q. po_mac q \<noteq> po_mac p) (ta_ports (sw_table s)) @ [p]))"
    using assms by (auto simp: switch_ok_def distinct_map_filter)
  then show ?thesis using assms Insert by (auto simp: switch_ok_def port_insert_def)
next
  case (Leave p)
  then show ?thesis using assms by (auto simp: switch_ok_def table_remove_def distinct_map_filter)
qed

interpretation switch: step_system "switch_step decode datagram" switch_ok for decode datagram
  by unfold_locales (rule switch_ok_step)

lemma switch_ok_new: "switch_ok switch_new"
  by (simp add: switch_ok_def switch_new_def table_default_def)

lemma made_step: "length (sw_made s) \<le> length (sw_made (switch_step decode datagram e s)) \<and>
    length (sw_made (switch_step decode datagram e s)) \<le> Suc (length (sw_made s))"
  by (cases e) (auto simp: Let_def split: sum.split prod.split)

lemma made_grows: "length (sw_made (fold (switch_step decode datagram) es s)) \<le> length (sw_made s) + length es"
proof (induction es arbitrary: s)
  case (Cons e es)
  show ?case using Cons [of "switch_step decode datagram e s"] made_step [of s decode datagram e] by simp
qed simp

lemma ids_unique:
  assumes "switch_ok s" and "length (sw_made s) \<le> 2 ^ 64"
  shows "inj_on po_id (set (sw_made s))"
proof -
  have "inj_on (of_nat :: nat \<Rightarrow> u64) {0..<length (sw_made s)}"
    by (rule inj_onI) (use assms(2) in \<open>simp add: of_nat_inverse word_of_nat_eq_iff take_bit_nat_eq_self\<close>)
  then have "distinct (map po_id (sw_made s))" using assms(1) by (simp add: switch_ok_def distinct_map)
  then show ?thesis by (simp add: distinct_map)
qed

text \<open>As long as the numbers last, the number of a new port is that of no other.\<close>

lemma fresh_id:
  assumes "switch_ok s" and "length (sw_made s) < 2 ^ 64" and "q \<in> set (sw_made s)"
  shows "po_id q \<noteq> ta_next (sw_table s)"
proof -
  have "po_id q \<in> of_nat ` {0..<length (sw_made s)}"
    using assms(1,3) by (metis (no_types, lifting) imageI list.set_map set_upt switch_ok_def)
  then obtain i where i: "i < length (sw_made s)" "po_id q = of_nat i" by auto
  have "unat (of_nat i :: u64) = i" "unat (of_nat (length (sw_made s)) :: u64) = length (sw_made s)"
    using i(1) assms(2) by (simp_all add: unat_of_nat)
  then show ?thesis using i assms(1) by (metis less_irrefl switch_ok_def)
qed

definition pending_unserved :: "Switch \<Rightarrow> bool" where
  "pending_unserved s \<longleftrightarrow> switch_ok s \<and> (length (sw_made s) \<le> 2 ^ 64 \<longrightarrow> set (sw_pending s) \<inter> set (sw_served s) = {})"

lemma pending_unserved_step:
  assumes "pending_unserved s"
  shows "pending_unserved (switch_step decode datagram e s)"
proof -
  have ok: "switch_ok s" using assms by (simp add: pending_unserved_def)
  have "set (sw_pending (switch_step decode datagram e s)) \<inter> set (sw_served (switch_step decode datagram e s)) = {}"
    if "length (sw_made (switch_step decode datagram e s)) \<le> 2 ^ 64"
  proof (cases e)
    case (Arrive msg)
    then show ?thesis using assms that fresh_id [OF ok] ok
      by (fastforce simp: pending_unserved_def switch_ok_def port_new_def Let_def split: sum.split_asm)
  qed (use assms that in \<open>auto simp: pending_unserved_def split: if_split_asm\<close>)
  then show ?thesis using switch_ok_step [OF ok] by (simp add: pending_unserved_def)
qed

interpretation unserved: step_system "switch_step decode datagram" pending_unserved for decode datagram
  by unfold_locales (rule pending_unserved_step)

text \<open>A connected port whose thread is gone stays until another port takes its address.\<close>

definition orphaned :: "Port \<Rightarrow> Switch \<Rightarrow> bool" where
  "orphaned p s \<longleftrightarrow> switch_ok s \<and> p \<in> set (ta_ports (sw_table s)) \<and> p \<notin> set (sw_pending s) \<and> p \<notin> set (sw_served s)"

fun same_address :: "Port \<Rightarrow> SwEvent \<Rightarrow> bool" where
  "same_address p (Insert q _) \<longleftrightarrow> po_mac q = po_mac p"
| "same_address p _ \<longleftrightarrow> False"

lemma orphaned_step:
  assumes "orphaned p s" and "length (sw_made s) < 2 ^ 64" and "\<not> same_address p e"
  shows "orphaned p (switch_step decode datagram e s)"
proof -
  have ok: "switch_ok s" and m: "p \<in> set (sw_made s)" using assms(1) by (auto simp: orphaned_def switch_ok_def)
  have "orphaned p (switch_step decode datagram e s)" if "switch_ok (switch_step decode datagram e s)"
  proof (cases e)
    case (Arrive msg)
    then show ?thesis using assms that fresh_id [OF ok assms(2) m]
      by (auto simp: orphaned_def port_new_def Let_def split: sum.split)
  next
    case (Insert q acked)
    then show ?thesis using assms that by (auto simp: orphaned_def port_insert_def)
  next
    case (Leave q)
    have "q \<in> set (sw_made s)" if "q \<in> set (sw_served s)" using ok that by (auto simp: switch_ok_def)
    then show ?thesis using assms that Leave inj_onD [OF ids_unique [OF ok] _ m, of q]
      by (auto simp: orphaned_def table_remove_def)
  qed
  then show ?thesis using switch_ok_step [OF ok] by blast
qed

lemma orphaned_run:
  assumes "orphaned p s" and "length (sw_made s) + length es \<le> 2 ^ 64" and "\<not> list_ex (same_address p) es"
  shows "orphaned p (fold (switch_step decode datagram) es s)"
  using assms
proof (induction es arbitrary: s)
  case (Cons e es)
  then show ?case using orphaned_step [of p s e decode datagram] made_step [of s decode datagram e] by simp
qed simp

lemma find_keyed:
  assumes "\<And>q. q \<in> set xs \<Longrightarrow> key q = key p \<Longrightarrow> q = p"
  shows "find (\<lambda>(i, _). i = key p) (map (\<lambda>q. (key q, val q)) xs) = (if p \<in> set xs then Some (key p, val p) else None)"
  using assms by (induction xs) auto

lemma find_filter:
  assumes "distinct (map po_mac ps)"
  shows "find (\<lambda>(i, m). i \<noteq> src \<and> m = dst) (map (\<lambda>q. (po_id q, po_mac q)) ps) =
    (case filter (\<lambda>q. po_id q \<noteq> src \<and> po_mac q = dst) ps of [] \<Rightarrow> None | q # _ \<Rightarrow> Some (po_id q, po_mac q))"
  using assms by (induction ps) auto

lemma filter_mac_le_one:
  assumes "distinct (map po_mac ps)"
  shows "length (filter (\<lambda>q. P q \<and> po_mac q = dst) ps) \<le> 1"
  using assms by (induction ps) (auto simp: filter_empty_conv, metis filter_False image_eqI le_SucI list.size(3) zero_le)

text \<open>What the switch promises: the recipients of a frame from \<open>p\<close> among the connected ports.\<close>

definition well_addressed :: "Port \<Rightarrow> u8 list \<Rightarrow> bool" where
  "well_addressed p frame \<longleftrightarrow> ETH_HEADER \<le> length frame \<and> length frame \<le> MAX_FRAME \<and> slice 6 12 frame = po_mac p"

definition recipients :: "Port list \<Rightarrow> Port \<Rightarrow> u8 list \<Rightarrow> Port list" where
  "recipients ps p frame =
     (if p \<in> set ps \<and> well_addressed p frame
      then filter (\<lambda>q. q \<noteq> p \<and> (frame ! 0 AND 1 = 1 \<or> po_mac q = slice 0 6 frame)) ps
      else [])"

lemma pump_recipients:
  assumes "distinct (map po_mac (ta_ports t))" and u: "\<And>q. q \<in> set (ta_ports t) \<Longrightarrow> po_id q = po_id p \<Longrightarrow> q = p"
    and ids: "inj_on po_id (set (ta_ports t))"
  shows "pump_frame t p frame = recipients (ta_ports t) p frame"
proof (cases "p \<in> set (ta_ports t) \<and> well_addressed p frame")
  case False
  then show ?thesis using find_keyed [where key = po_id and val = po_mac and p = p and xs = "ta_ports t"] u
    by (auto simp: pump_frame_def targets_def recipients_def well_addressed_def)
next
  case True
  let ?ps = "ta_ports t" let ?dst = "slice 0 6 frame"
  have l: "14 \<le> length frame" using True by (simp add: well_addressed_def ETH_HEADER_def)
  then have d0: "?dst ! 0 = frame ! 0" by simp
  have self: "po_id q \<noteq> po_id p \<longleftrightarrow> q \<noteq> p" if "q \<in> set ?ps" for q using u that by auto
  have own: "find (\<lambda>(i, _). i = po_id p) (map (\<lambda>q. (po_id q, po_mac q)) ?ps) = Some (po_id p, po_mac p)"
    using find_keyed [where key = po_id and val = po_mac and p = p and xs = ?ps] u True by auto
  show ?thesis
  proof (cases "frame ! 0 AND 1 = 1")
    case True': True
    have "pump_frame t p frame = filter (\<lambda>q. po_id q \<in> po_id ` {r \<in> set ?ps. po_id r \<noteq> po_id p}) ?ps"
      using True True' own d0 by (simp add: pump_frame_def targets_def well_addressed_def image_def) (rule filter_cong, auto)
    also have "\<dots> = filter (\<lambda>q. q \<noteq> p) ?ps" by (rule filter_cong) (use self ids in \<open>auto simp: inj_on_def\<close>)
    finally show ?thesis using True True' by (simp add: recipients_def)
  next
    case uni: False
    let ?R = "filter (\<lambda>q. po_id q \<noteq> po_id p \<and> po_mac q = ?dst) ?ps"
    have R: "recipients ?ps p frame = ?R"
      using True uni by (simp add: recipients_def) (rule filter_cong, use self in auto)
    have f: "pump_frame t p frame = (case ?R of [] \<Rightarrow> [] | q # _ \<Rightarrow> filter (\<lambda>r. po_id r = po_id q) ?ps)"
      using True uni own d0 by (simp add: pump_frame_def targets_def well_addressed_def find_filter [OF assms(1)] split: list.split)
    show ?thesis
    proof (cases ?R)
      case (Cons q rs)
      then have "q \<in> set ?R" by simp
      then have q: "q \<in> set ?ps" "po_id q \<noteq> po_id p" "po_mac q = ?dst" by simp_all
      have "inj_on po_mac (set ?ps)" using assms(1) by (simp add: distinct_map)
      then have "filter (\<lambda>r. po_id r = po_id q) ?ps = ?R"
        by (intro filter_cong refl) (use q ids in \<open>auto simp: inj_on_def\<close>)
      then show ?thesis using R f Cons by simp
    qed (use R f in simp)
  qed
qed

text \<open>Two guests: the hello line is one byte, their addresses end in \<open>0a\<close> and \<open>0b\<close>.\<close>

definition sample_decode :: "u8 list \<Rightarrow> Hello option" where
  "sample_decode l = (if l = [1] then Some \<lparr>hello_vm = ''a'', hello_mac = ''02:00:00:00:00:0a''\<rparr>
     else Some \<lparr>hello_vm = ''b'', hello_mac = ''02:00:00:00:00:0b''\<rparr>)"

definition port_a :: Port where
  "port_a = \<lparr>po_id = 0, po_vm = ''a'', po_mac = [2, 0, 0, 0, 0, 10], po_frames = 7\<rparr>"

definition port_b :: Port where
  "port_b = \<lparr>po_id = 1, po_vm = ''b'', po_mac = [2, 0, 0, 0, 0, 11], po_frames = 8\<rparr>"

definition arrivals :: "SwEvent list" where
  "arrivals = [Arrive (Some ([1, 10], [7])), Arrive (Some ([2, 10], [8]))]"

lemma sample_admits:
  "admit sample_decode (\<lambda>_. True) (Some ([1, 10], [7])) = Inr (''a'', [2, 0, 0, 0, 0, 10], 7)"
  "admit sample_decode (\<lambda>_. True) (Some ([2, 10], [8])) = Inr (''b'', [2, 0, 0, 0, 0, 11], 8)"
  by code_simp+

lemma sample_switch:
  "fold (switch_step sample_decode (\<lambda>_. True)) arrivals switch_new =
     \<lparr>sw_table = \<lparr>ta_ports = [], ta_next = 2, ta_closed = []\<rparr>, sw_made = [port_a, port_b], sw_pending = [port_b, port_a], sw_served = []\<rparr>"
  by (simp add: arrivals_def sample_admits port_new_def switch_new_def table_default_def port_a_def port_b_def)

text \<open>
  C10. The switch keeps its guests apart. In every state it can reach with less than \<open>2\<^sup>6\<^sup>4\<close> events, however
  joins, departures and frames interleave, no two connected ports have the same address, and a
  frame from a port goes exactly to the other connected ports it is addressed to: a unicast frame to the one
  port that owns the destination, a multicast frame to every other port. A frame with a foreign source address, a
  frame of a port that left or was replaced, and a frame of an impossible size go nowhere.
\<close>

theorem switch_isolates:
  assumes "length es < 2 ^ 64" and "s = fold (switch_step decode datagram) es switch_new" and "p \<in> set (sw_made s)"
  shows "distinct (map po_mac (ta_ports (sw_table s))) \<and>
    pump_frame (sw_table s) p frame = recipients (ta_ports (sw_table s)) p frame"
proof -
  have ok: "switch_ok s" unfolding assms(2) by (rule switch.invar_run [OF switch_ok_new])
  have len: "length (sw_made s) \<le> 2 ^ 64"
    using made_grows [of decode datagram es switch_new] assms(1,2) by (simp add: switch_new_def)
  have sub: "set (ta_ports (sw_table s)) \<subseteq> set (sw_made s)" using ok by (simp add: switch_ok_def)
  note inj = ids_unique [OF ok len]
  have "pump_frame (sw_table s) p frame = recipients (ta_ports (sw_table s)) p frame"
  proof (rule pump_recipients)
    show "distinct (map po_mac (ta_ports (sw_table s)))" using ok by (simp add: switch_ok_def)
    show "q = p" if "q \<in> set (ta_ports (sw_table s))" "po_id q = po_id p" for q
      using inj_onD [OF inj that(2)] that(1) sub assms(3) by blast
    show "inj_on po_id (set (ta_ports (sw_table s)))" by (rule inj_on_subset [OF inj sub])
  qed
  then show ?thesis using ok by (simp add: switch_ok_def)
qed

theorem switch_isolates_witness:
  "pump_frame (sw_table (fold (switch_step sample_decode (\<lambda>_. True)) (arrivals @ [Insert port_a True, Insert port_b True]) switch_new)) port_a
     ([2, 0, 0, 0, 0, 11] @ [2, 0, 0, 0, 0, 10] @ [8, 0]) = [port_b]"
proof -
  let ?es = "arrivals @ [Insert port_a True, Insert port_b True]"
  let ?s = "fold (switch_step sample_decode (\<lambda>_. True)) ?es switch_new"
  have s: "?s = \<lparr>sw_table = \<lparr>ta_ports = [port_a, port_b], ta_next = 2, ta_closed = []\<rparr>, sw_made = [port_a, port_b], sw_pending = [],
      sw_served = [port_b, port_a]\<rparr>"
    by (simp add: sample_switch) (simp add: port_insert_def port_a_def port_b_def)
  have "recipients [port_a, port_b] port_a ([2, 0, 0, 0, 0, 11] @ [2, 0, 0, 0, 0, 10] @ [8, 0]) = [port_b]" by code_simp
  then show ?thesis
    using switch_isolates [of ?es ?s sample_decode "\<lambda>_. True" port_a "[2, 0, 0, 0, 0, 11] @ [2, 0, 0, 0, 0, 10] @ [8, 0]"]
    unfolding s by (simp add: arrivals_def)
qed

text \<open>
  A runner that is gone before the reply leaves its port behind. When writing the reply fails, \<^verbatim>\<open>serve_port\<close>
  returns with the port in the table and no thread that would remove it: the port is still there after any
  further events that do not join the same address again, and the loop never takes the idle exit.
\<close>

theorem failed_ack_leaks_port:
  assumes "s = fold (switch_step decode datagram) es switch_new" and "p \<in> set (sw_pending s)"
    and "s' = fold (switch_step decode datagram) es' (switch_step decode datagram (Insert p False) s)"
    and "length es + length es' \<le> 2 ^ 64" and "\<not> list_ex (same_address p) es'"
  shows "p \<in> set (ta_ports (sw_table s')) \<and> serve_tick idle acc now last_busy (sw_table s') \<noteq> Idle_Exit"
proof -
  let ?s = "switch_step decode datagram (Insert p False) s"
  have len: "length (sw_made s) \<le> length es"
    using made_grows [of decode datagram es switch_new] assms(1) by (simp add: switch_new_def)
  have un: "pending_unserved s"
    unfolding assms(1) by (rule unserved.invar_run) (simp add: pending_unserved_def switch_ok_new, simp add: switch_new_def)
  then have ok: "switch_ok ?s" using switch_ok_step unfolding pending_unserved_def by blast
  have "p \<notin> set (sw_served s)" using un len assms(2,4) by (auto simp: pending_unserved_def)
  then have "orphaned p ?s" using ok assms(2) by (simp add: orphaned_def port_insert_def)
  moreover have "length (sw_made ?s) = length (sw_made s)" by simp
  ultimately have "orphaned p s'"
    unfolding assms(3) using len assms(4,5) by (intro orphaned_run) simp_all
  then show ?thesis by (auto simp: orphaned_def serve_tick_def table_is_empty_def Let_def split: Accepted.split)
qed

theorem failed_ack_leaks_port_witness:
  "serve_tick 30000 Would_Block 90000 0
     (sw_table (fold (switch_step sample_decode (\<lambda>_. True)) [Insert port_b True, Leave port_b]
        (switch_step sample_decode (\<lambda>_. True) (Insert port_a False) (fold (switch_step sample_decode (\<lambda>_. True)) arrivals switch_new))))
     \<noteq> Idle_Exit"
  by (rule failed_ack_leaks_port [where es = arrivals and p = port_a and es' = "[Insert port_b True, Leave port_b]", THEN conjunct2,
        OF refl _ refl])
    (simp add: sample_switch, simp add: arrivals_def, simp add: port_a_def port_b_def)

end
