(* ===== verification/Idempotency.thy ===== *)
theory Idempotency
  imports Rust_Text Rust_Map
begin

text \<open>
  Retried requests (\<^verbatim>\<open>fluxvm-scheduler/src/idempotency.rs\<close> and \<^verbatim>\<open>fluxvm-api/src/idempotency.rs\<close>): the directory of
  recorded responses, the keys and fingerprints they are found by, and the middleware, whose steps on
  several threads interleave. SHA-256, base64, UUID parsing and the checks of the HTTP library are
  fields of \<open>Lib\<close>; clock readings, failing file operations and the responses of the handlers are
  arguments.
\<close>

section \<open>Third-party functions\<close>

record Lib =
  sha256 :: "u8 list \<Rightarrow> u8 list"
  b64_encode :: "u8 list \<Rightarrow> string"
  b64_decode :: "string \<Rightarrow> u8 list option"
  uuid_ok :: "string \<Rightarrow> bool"
  header_ok :: "string \<Rightarrow> bool"
  status_ok :: "u16 \<Rightarrow> bool"
  is_success :: "u16 \<Rightarrow> bool"

section \<open>The store\<close>

definition TTL_SECS :: int where "TTL_SECS = 24 * 60 * 60"

record Stored =
  so_created_at :: int
  so_fingerprint :: string
  so_status :: u16
  so_content_type :: "string option"
  so_body_b64 :: string

definition stored_new :: "Lib \<Rightarrow> int \<Rightarrow> string \<Rightarrow> u16 \<Rightarrow> string option \<Rightarrow> u8 list \<Rightarrow> Stored" where
  "stored_new lib now fp st ct body =
     \<lparr>so_created_at = now, so_fingerprint = fp, so_status = st, so_content_type = ct, so_body_b64 = b64_encode lib body\<rparr>"

definition stored_body :: "Lib \<Rightarrow> Stored \<Rightarrow> u8 list" where
  "stored_body lib s = (case b64_decode lib (so_body_b64 s) of None \<Rightarrow> [] | Some b \<Rightarrow> b)"

datatype Lookup = Miss | Replay Stored | Conflict

definition hex :: "u8 list \<Rightarrow> string" where
  "hex bs = concat (map (\<lambda>b. [hex_digit (unat b div 16), hex_digit (unat b mod 16)]) bs)"

definition framed :: "u8 list list \<Rightarrow> u8 list" where
  "framed parts = concat (map (\<lambda>p. u64_to_le (of_nat (length p)) @ p) parts)"

definition key_hash :: "Lib \<Rightarrow> string \<Rightarrow> string \<Rightarrow> string \<Rightarrow> string" where
  "key_hash lib tenant route key = hex (sha256 lib (framed [text_bytes tenant, text_bytes route, text_bytes key]))"

definition fingerprint :: "Lib \<Rightarrow> string \<Rightarrow> string \<Rightarrow> u8 list \<Rightarrow> string" where
  "fingerprint lib method path body = hex (sha256 lib (framed [text_bytes method, text_bytes path, body]))"

definition is_hex_c :: "char \<Rightarrow> bool" where
  "is_hex_c c \<longleftrightarrow> is_digit_c c \<or> 97 \<le> byte_of c \<and> byte_of c \<le> 102 \<or> 65 \<le> byte_of c \<and> byte_of c \<le> 70"

definition is_hash :: "string \<Rightarrow> bool" where
  "is_hash s \<longleftrightarrow> length s = 64 \<and> list_all is_hex_c s"

text \<open>
  The directory: records by hash, \<open>None\<close> for one that does not parse, and temporary files with their
  modification time, \<open>None\<close> when it cannot be read.
\<close>

record IdemDir =
  id_json :: "(string \<times> Stored option) list"
  id_tmp :: "(string \<times> int option) list"

definition lookup :: "string \<Rightarrow> string \<Rightarrow> int \<Rightarrow> bool \<Rightarrow> IdemDir \<Rightarrow> Lookup \<times> IdemDir" where
  "lookup h fp now removable d =
     (if \<not> is_hash h then (Miss, d)
      else case hm_get h (id_json d) of
             None \<Rightarrow> (Miss, d)
           | Some None \<Rightarrow> (Miss, d)
           | Some (Some s) \<Rightarrow>
               if TTL_SECS \<le> now - so_created_at s
               then (Miss, if removable then d\<lparr>id_json := hm_remove h (id_json d)\<rparr> else d)
               else if so_fingerprint s = fp then (Replay s, d) else (Conflict, d))"

definition store :: "string \<Rightarrow> Stored \<Rightarrow> Written \<Rightarrow> int option \<Rightarrow> IdemDir \<Rightarrow> (string + unit) \<times> IdemDir" where
  "store h s w stray d =
     (if \<not> is_hash h then (Inl ''malformed idempotency key hash'', d)
      else case w of
             Durable \<Rightarrow> (Inr (), d\<lparr>id_json := hm_insert h (Some s) (id_json d), id_tmp := hm_remove h (id_tmp d)\<rparr>)
           | Unsynced \<Rightarrow> (Inl ''writing'', d\<lparr>id_json := hm_insert h (Some s) (id_json d), id_tmp := hm_remove h (id_tmp d)\<rparr>)
           | Untouched \<Rightarrow>
               (Inl ''writing'',
                case stray of None \<Rightarrow> d | Some t \<Rightarrow> d\<lparr>id_tmp := hm_insert h (Some t) (id_tmp d)\<rparr>))"

definition json_expired :: "int \<Rightarrow> Stored option \<Rightarrow> bool" where
  "json_expired now r = (case r of None \<Rightarrow> True | Some s \<Rightarrow> TTL_SECS \<le> now - so_created_at s)"

definition tmp_expired :: "int \<Rightarrow> int option \<Rightarrow> bool" where
  "tmp_expired now m = (case m of None \<Rightarrow> True | Some t \<Rightarrow> TTL_SECS \<le> now - t)"

definition purge_expired :: "int \<Rightarrow> (string \<Rightarrow> bool) \<Rightarrow> IdemDir \<Rightarrow> nat \<times> IdemDir" where
  "purge_expired now removable d =
     (let gone = (\<lambda>(h, r). json_expired now r \<and> removable h);
          tgone = (\<lambda>(h, m). tmp_expired now m \<and> removable (h @ ''.tmp''))
      in (length (filter gone (id_json d)) + length (filter tgone (id_tmp d)),
          d\<lparr>id_json := filter (Not \<circ> gone) (id_json d), id_tmp := filter (Not \<circ> tgone) (id_tmp d)\<rparr>))"

section \<open>The middleware\<close>

definition MAX_KEY_LEN :: nat where "MAX_KEY_LEN = 255"

record Request =
  rq_method :: string
  rq_path :: string
  rq_header :: "string option option"
  rq_tenant :: "string option"
  rq_actor :: "string option"
  rq_body :: "u8 list option"

record HandlerResp =
  hr_status :: u16
  hr_content_type :: "string option"
  hr_body :: "u8 list option"

definition is_idempotent_route :: "Lib \<Rightarrow> string \<Rightarrow> string \<Rightarrow> bool" where
  "is_idempotent_route lib method path =
     (let segs = split_on CHR ''/'' (trim_end_matches CHR ''/'' (trim_start_matches CHR ''/'' path)) in
      case segs of
        [a, b] \<Rightarrow> method = ''POST'' \<and> a = ''v1'' \<and> b = ''vms''
      | [a, b, i] \<Rightarrow> method = ''DELETE'' \<and> a = ''v1'' \<and> b = ''vms'' \<and> uuid_ok lib i
      | [a, b, i, c] \<Rightarrow> method = ''POST'' \<and> a = ''v1'' \<and> b = ''vms'' \<and> (c = ''snapshot'' \<or> c = ''fork'') \<and> uuid_ok lib i
      | _ \<Rightarrow> False)"

definition valid_key :: "string \<Rightarrow> bool" where
  "valid_key key \<longleftrightarrow> key \<noteq> [] \<and> length key \<le> MAX_KEY_LEN \<and> list_all (\<lambda>c. 0x21 \<le> byte_of c \<and> byte_of c \<le> 0x7e) key"

definition scope :: "Request \<Rightarrow> string" where
  "scope rq =
     (case rq_tenant rq of
        Some t \<Rightarrow> ''tenant:'' @ t
      | None \<Rightarrow> (case rq_actor rq of Some a \<Rightarrow> ''actor:'' @ a | None \<Rightarrow> ''anonymous''))"

definition route :: "Request \<Rightarrow> string" where
  "route rq = rq_method rq @ '' '' @ rq_path rq"

datatype Answer =
  Fresh HandlerResp
| Replayed u16 "string option" "u8 list"
| Refused u16 string

definition replay :: "Lib \<Rightarrow> Stored \<Rightarrow> Answer" where
  "replay lib s =
     Replayed (if status_ok lib (so_status s) then so_status s else 200)
       (case so_content_type s of None \<Rightarrow> None | Some c \<Rightarrow> if header_ok lib c then Some c else None)
       (stored_body lib s)"

text \<open>What the head of \<^verbatim>\<open>middleware\<close> makes of a request, up to the lookup.\<close>

datatype Prepared = PassOn | Reject u16 string | Keyed string string

definition prepare :: "Lib \<Rightarrow> Request \<Rightarrow> Prepared" where
  "prepare lib rq =
     (case rq_header rq of
        None \<Rightarrow> PassOn
      | Some raw \<Rightarrow>
          if \<not> is_idempotent_route lib (rq_method rq) (rq_path rq) then PassOn
          else (case raw of
                  None \<Rightarrow> Reject 400 ''Idempotency-Key must be 1-255 visible ASCII characters''
                | Some key \<Rightarrow>
                    if \<not> valid_key key then Reject 400 ''Idempotency-Key must be 1-255 visible ASCII characters''
                    else (case rq_body rq of
                            None \<Rightarrow> Reject 413 ''request body too large''
                          | Some body \<Rightarrow>
                              Keyed (key_hash lib (scope rq) (route rq) key)
                                (fingerprint lib (rq_method rq) (rq_path rq) body))))"

section \<open>Threads\<close>

text \<open>
  A request that missed has yet to take its key; one that runs has it. A response to be recorded is
  written by a blocking task, which goes on when the client hangs up (\<open>Detached\<close>) and the key is
  given back.
\<close>

datatype Phase =
  Missed string string
| Running string string
| Storing string Stored HandlerResp
| Detached string Stored
| Answered Answer
| Passed
| Dropped

record Idem =
  im_dir :: IdemDir
  im_flight :: "string list"
  im_threads :: "(nat \<times> Phase) list"
  im_runs :: "(nat \<times> string) list"

datatype IdemEvent =
  Ask nat Request int bool
| Acquire nat
| Respond nat HandlerResp int
| Commit nat Written "int option"
| Hangup nat
| Purge int "string \<Rightarrow> bool"

definition set_phase :: "nat \<Rightarrow> Phase \<Rightarrow> Idem \<Rightarrow> Idem" where
  "set_phase t ph s = s\<lparr>im_threads := hm_insert t ph (im_threads s)\<rparr>"

definition ask :: "Lib \<Rightarrow> nat \<Rightarrow> Request \<Rightarrow> int \<Rightarrow> bool \<Rightarrow> Idem \<Rightarrow> Idem" where
  "ask lib t rq now removable s =
     (case prepare lib rq of
        PassOn \<Rightarrow> set_phase t Passed s
      | Reject st msg \<Rightarrow> set_phase t (Answered (Refused st msg)) s
      | Keyed h fp \<Rightarrow>
          (case lookup h fp now removable (im_dir s) of
             (Replay st, d) \<Rightarrow> set_phase t (Answered (replay lib st)) (s\<lparr>im_dir := d\<rparr>)
           | (Conflict, d) \<Rightarrow>
               set_phase t (Answered (Refused 422 ''Idempotency-Key was already used with a different request'')) (s\<lparr>im_dir := d\<rparr>)
           | (Miss, d) \<Rightarrow> set_phase t (Missed h fp) (s\<lparr>im_dir := d\<rparr>)))"

definition acquire :: "nat \<Rightarrow> string \<Rightarrow> string \<Rightarrow> Idem \<Rightarrow> Idem" where
  "acquire t h fp s =
     (if h \<in> set (im_flight s)
      then set_phase t (Answered (Refused 409 ''a request with this Idempotency-Key is still in progress'')) s
      else set_phase t (Running h fp) (s\<lparr>im_flight := h # im_flight s, im_runs := (t, h) # im_runs s\<rparr>))"

definition drop_key :: "string \<Rightarrow> Idem \<Rightarrow> Idem" where
  "drop_key h s = s\<lparr>im_flight := removeAll h (im_flight s)\<rparr>"

definition respond :: "Lib \<Rightarrow> nat \<Rightarrow> string \<Rightarrow> string \<Rightarrow> HandlerResp \<Rightarrow> int \<Rightarrow> Idem \<Rightarrow> Idem" where
  "respond lib t h fp hr now s =
     (if \<not> is_success lib (hr_status hr) then set_phase t (Answered (Fresh hr)) (drop_key h s)
      else case hr_body hr of
             None \<Rightarrow> set_phase t (Answered (Refused 500 ''response too large to record for idempotent replay'')) (drop_key h s)
           | Some body \<Rightarrow>
               set_phase t (Storing h (stored_new lib now fp (hr_status hr) (hr_content_type hr) body) hr) s)"

definition commit :: "string \<Rightarrow> Stored \<Rightarrow> Written \<Rightarrow> int option \<Rightarrow> Idem \<Rightarrow> Idem" where
  "commit h st w stray s = s\<lparr>im_dir := snd (store h st w stray (im_dir s))\<rparr>"

fun idem_step :: "Lib \<Rightarrow> IdemEvent \<Rightarrow> Idem \<Rightarrow> Idem" where
  "idem_step lib (Ask t rq now removable) s =
     (if hm_get t (im_threads s) = None then ask lib t rq now removable s else s)"
| "idem_step lib (Acquire t) s =
     (case hm_get t (im_threads s) of Some (Missed h fp) \<Rightarrow> acquire t h fp s | _ \<Rightarrow> s)"
| "idem_step lib (Respond t hr now) s =
     (case hm_get t (im_threads s) of Some (Running h fp) \<Rightarrow> respond lib t h fp hr now s | _ \<Rightarrow> s)"
| "idem_step lib (Commit t w stray) s =
     (case hm_get t (im_threads s) of
        Some (Storing h st hr) \<Rightarrow> set_phase t (Answered (Fresh hr)) (drop_key h (commit h st w stray s))
      | Some (Detached h st) \<Rightarrow> set_phase t Dropped (commit h st w stray s)
      | _ \<Rightarrow> s)"
| "idem_step lib (Hangup t) s =
     (case hm_get t (im_threads s) of
        Some (Running h fp) \<Rightarrow> set_phase t Dropped (drop_key h s)
      | Some (Storing h st hr) \<Rightarrow> set_phase t (Detached h st) (drop_key h s)
      | _ \<Rightarrow> s)"
| "idem_step lib (Purge now removable) s = s\<lparr>im_dir := snd (purge_expired now removable (im_dir s))\<rparr>"

definition idem_new :: "IdemDir \<Rightarrow> Idem" where
  "idem_new d = \<lparr>im_dir = d, im_flight = [], im_threads = [], im_runs = []\<rparr>"

section \<open>Keys\<close>

lemma hex_digit_inj: "a < 16 \<Longrightarrow> b < 16 \<Longrightarrow> hex_digit a = hex_digit b \<longleftrightarrow> a = b"
  by (auto simp: hex_digit_def split: if_split_asm dest!: arg_cong [where f = "of_char :: char \<Rightarrow> nat"])

lemma nibbles: "unat a div 16 < 16" "unat a mod 16 < 16" for a :: u8
  using unat_bounds(1) [of a] by (simp_all add: less_mult_imp_div_less)

lemma hex_inj: "hex xs = hex ys \<longleftrightarrow> xs = ys"
proof (induction xs arbitrary: ys)
  case (Cons x xs)
  show ?case
  proof (cases ys)
    case (Cons y zs)
    have "unat x div 16 = unat y div 16 \<and> unat x mod 16 = unat y mod 16 \<longleftrightarrow> x = y"
      by (metis div_mult_mod_eq word_unat_eq_iff)
    then show ?thesis using Cons.IH [of zs] Cons by (auto simp: hex_def hex_digit_inj nibbles)
  qed (simp add: hex_def)
qed (auto simp: hex_def)

lemma is_hex_hex_digit: "d < 16 \<Longrightarrow> is_hex_c (hex_digit d)"
  by (auto simp: is_hex_c_def hex_digit_def is_digit_c_def)

lemma is_hash_hex:
  assumes "length bs = 32"
  shows "is_hash (hex bs)"
proof -
  have "length (hex bs) = 2 * length bs" by (induction bs) (simp_all add: hex_def)
  moreover have "list_all is_hex_c (hex bs)" by (auto simp: hex_def list_all_iff is_hex_hex_digit nibbles)
  ultimately show ?thesis using assms by (simp add: is_hash_def)
qed

lemma framed_inj:
  assumes "length xs = length ys" and "\<forall>p \<in> set (xs @ ys). length p < 2 ^ 64"
  shows "framed xs = framed ys \<longleftrightarrow> xs = ys"
  using assms
proof (induction xs ys rule: list_induct2)
  case (Cons x xs y ys)
  have n: "unat (of_nat (length x) :: u64) = length x" "unat (of_nat (length y) :: u64) = length y"
    using Cons.prems by (simp_all add: unat_of_nat)
  have "x = y \<and> framed xs = framed ys" if "framed (x # xs) = framed (y # ys)"
  proof -
    have e: "u64_to_le (of_nat (length x)) @ x @ framed xs = u64_to_le (of_nat (length y)) @ y @ framed ys"
      using that by (simp add: framed_def)
    then have "u64_to_le (of_nat (length x)) = u64_to_le (of_nat (length y))" by (rule append_eq_append_conv [THEN iffD1, THEN conjunct1, rotated]) simp
    then have "length x = length y" using n by (metis from_to_le(3))
    then show ?thesis using e by simp
  qed
  then show ?case using Cons by auto
qed (simp add: framed_def)

lemma text_bytes_inj: "text_bytes a = text_bytes b \<longleftrightarrow> a = b"
proof -
  have "inj (\<lambda>c. of_nat (byte_of c) :: u8)"
  proof (rule injI)
    fix a b
    assume "(of_nat (byte_of a) :: u8) = of_nat (byte_of b)"
    then have "unat (of_nat (byte_of a) :: u8) = unat (of_nat (byte_of b) :: u8)" by simp
    then have "byte_of a = byte_of b" using byte_of_less [of a] byte_of_less [of b] by (simp add: unat_of_nat)
    then show "a = b" by simp
  qed
  then show ?thesis unfolding text_bytes_def by (rule inj_map_eq_map)
qed

section \<open>One request per key\<close>

fun phase_key :: "Phase \<Rightarrow> string option" where
  "phase_key (Running h _) = Some h"
| "phase_key (Storing h _ _) = Some h"
| "phase_key _ = None"

definition holds_key :: "Idem \<Rightarrow> nat \<Rightarrow> string option" where
  "holds_key s t = Option.bind (hm_get t (im_threads s)) phase_key"

definition idem_ok :: "Idem \<Rightarrow> bool" where
  "idem_ok s \<longleftrightarrow>
     (\<forall>t h. holds_key s t = Some h \<longrightarrow> h \<in> set (im_flight s)) \<and>
     (\<forall>t t' h. holds_key s t = Some h \<and> holds_key s t' = Some h \<longrightarrow> t = t')"

lemma holds_key_set_phase [simp]: "holds_key (set_phase t ph s) t' = (if t' = t then phase_key ph else holds_key s t')"
  by (simp add: holds_key_def set_phase_def hm_get_insert)

lemma set_phase_simps [simp]:
  "im_flight (set_phase t ph s) = im_flight s" "im_dir (set_phase t ph s) = im_dir s" "im_runs (set_phase t ph s) = im_runs s"
  "im_threads (set_phase t ph s) = hm_insert t ph (im_threads s)"
  by (simp_all add: set_phase_def)

lemma holds_key_cong [simp]:
  "holds_key (s\<lparr>im_dir := d\<rparr>) = holds_key s" "holds_key (s\<lparr>im_flight := f\<rparr>) = holds_key s" "holds_key (s\<lparr>im_runs := r\<rparr>) = holds_key s"
  by (simp_all add: holds_key_def fun_eq_iff)

lemma idem_ok_idle:
  assumes "idem_ok s" and "phase_key ph = None"
  shows "idem_ok (set_phase t ph (s\<lparr>im_dir := d\<rparr>))"
  using assms unfolding idem_ok_def by simp

lemma idem_ok_release:
  assumes "idem_ok s" and "holds_key s t = Some h" and "phase_key ph = None"
  shows "idem_ok (set_phase t ph (drop_key h (s\<lparr>im_dir := d\<rparr>)))"
  using assms unfolding idem_ok_def drop_key_def by auto

lemma idem_ok_step:
  assumes "idem_ok s"
  shows "idem_ok (idem_step lib e s)"
proof -
  have self: "s\<lparr>im_dir := im_dir s\<rparr> = s" by simp
  note idle = idem_ok_idle [OF assms] idem_ok_idle [OF assms, of _ _ "im_dir s", unfolded self]
  note rel = idem_ok_release [OF assms] idem_ok_release [OF assms, of _ _ _ "im_dir s", unfolded self]
  show ?thesis
  proof (cases e)
    case (Ask t rq now removable)
    then show ?thesis using assms
      by (auto simp: ask_def idle split: Prepared.split prod.split Lookup.split)
  next
    case (Acquire t)
    then show ?thesis using assms idle(2)
      by (auto simp: acquire_def idem_ok_def split: option.split Phase.split)
  next
    case (Respond t hr now)
    show ?thesis
    proof (cases "\<exists>h fp. hm_get t (im_threads s) = Some (Running h fp)")
      case True
      then obtain h fp where r: "hm_get t (im_threads s) = Some (Running h fp)" by blast
      then have k: "holds_key s t = Some h" by (simp add: holds_key_def)
      have "idem_ok (set_phase t (Storing h st hr) s)" for st
        using assms k unfolding idem_ok_def by (metis holds_key_set_phase option.inject phase_key.simps(2) set_phase_simps(1))
      then show ?thesis using r k rel(2) Respond by (auto simp: respond_def split: option.split)
    qed (use assms Respond in \<open>auto split: option.split Phase.split\<close>)
  next
    case (Commit t w stray)
    then show ?thesis using assms idle rel
      by (auto simp: commit_def holds_key_def split: option.split Phase.split)
  next
    case (Hangup t)
    then show ?thesis using assms rel(2)
      by (auto simp: holds_key_def split: option.split Phase.split)
  next
    case (Purge now removable)
    then show ?thesis using assms by (simp add: idem_ok_def)
  qed
qed

interpretation idem: step_system "idem_step lib" idem_ok for lib
  by unfold_locales (rule idem_ok_step)

section \<open>A record stays\<close>

fun busy_with :: "string \<Rightarrow> Phase \<Rightarrow> bool" where
  "busy_with h (Missed k _) \<longleftrightarrow> k = h"
| "busy_with h (Running k _) \<longleftrightarrow> k = h"
| "busy_with h (Storing k _ _) \<longleftrightarrow> k = h"
| "busy_with h (Detached k _) \<longleftrightarrow> k = h"
| "busy_with h _ \<longleftrightarrow> False"

definition settled :: "string \<Rightarrow> Stored \<Rightarrow> Idem \<Rightarrow> bool" where
  "settled h st s \<longleftrightarrow> is_hash h \<and> hm_get h (id_json (im_dir s)) = Some (Some st) \<and>
     (\<forall>t ph. hm_get t (im_threads s) = Some ph \<longrightarrow> \<not> busy_with h ph)"

fun before :: "int \<Rightarrow> IdemEvent \<Rightarrow> bool" where
  "before tmax (Ask _ _ now _) \<longleftrightarrow> now < tmax"
| "before tmax (Purge now _) \<longleftrightarrow> now < tmax"
| "before tmax _ \<longleftrightarrow> True"

lemma lookup_settled:
  assumes "is_hash h" and "hm_get h (id_json d) = Some (Some st)" and "now < so_created_at st + TTL_SECS"
  shows "lookup h fp now removable d = (if so_fingerprint st = fp then Replay st else Conflict, d)"
  using assms by (simp add: lookup_def)

lemma lookup_other:
  assumes "hm_get h (id_json d) = Some (Some st)" and "k \<noteq> h"
  shows "hm_get h (id_json (snd (lookup k fp now removable d))) = Some (Some st)"
  using assms by (auto simp: lookup_def hm_get_remove split: option.split)

lemma store_other:
  assumes "hm_get h (id_json d) = Some (Some st)" and "k \<noteq> h"
  shows "hm_get h (id_json (snd (store k x w stray d))) = Some (Some st)"
  using assms by (auto simp: store_def hm_get_insert split: Written.split option.split)

lemma map_of_filter_keep: "map_of m k = Some v \<Longrightarrow> P (k, v) \<Longrightarrow> map_of (filter P m) k = Some v"
  by (induction m) (auto split: if_split_asm)

lemma purge_keeps:
  assumes "hm_get h (id_json d) = Some (Some st)" and "now < so_created_at st + TTL_SECS"
  shows "hm_get h (id_json (snd (purge_expired now removable d))) = Some (Some st)"
  using assms by (auto simp: purge_expired_def hm_get_def json_expired_def Let_def intro!: map_of_filter_keep)

lemma settled_step:
  assumes "settled h st s" and "before (so_created_at st + TTL_SECS) e"
  shows "settled h st (idem_step lib e s)"
proof -
  have j: "is_hash h" "hm_get h (id_json (im_dir s)) = Some (Some st)"
    and q: "\<And>t ph. hm_get t (im_threads s) = Some ph \<Longrightarrow> \<not> busy_with h ph"
    using assms(1) by (auto simp: settled_def)
  show ?thesis
  proof (cases e)
    case (Ask t rq now removable)
    have "settled h st (ask lib t rq now removable s)"
    proof (cases "prepare lib rq")
      case (Keyed k fp)
      have "\<not> (k = h \<and> fst (lookup k fp now removable (im_dir s)) = Miss)"
        using lookup_settled [OF j, of now fp removable] assms(2) Ask by auto
      moreover have "hm_get h (id_json (snd (lookup k fp now removable (im_dir s)))) = Some (Some st)"
        using lookup_settled [OF j, of now fp removable] lookup_other [OF j(2)] j(2) assms(2) Ask by (cases "k = h") auto
      ultimately show ?thesis using assms(1) Keyed
        by (auto simp: ask_def settled_def hm_get_insert split: prod.split Lookup.split)
    qed (use assms(1) in \<open>auto simp: ask_def settled_def hm_get_insert\<close>)
    then show ?thesis using Ask assms(1) by simp
  next
    case (Acquire t)
    then show ?thesis using assms(1)
      by (auto simp: acquire_def settled_def hm_get_insert dest: q split: option.split Phase.split)
  next
    case (Respond t hr now)
    then show ?thesis using assms(1)
      by (auto simp: respond_def drop_key_def settled_def hm_get_insert dest: q split: option.split Phase.split)
  next
    case (Commit t w stray)
    then show ?thesis using assms(1) store_other [OF j(2)]
      by (auto simp: commit_def drop_key_def settled_def hm_get_insert dest: q split: option.split Phase.split)
  next
    case (Hangup t)
    then show ?thesis using assms(1)
      by (auto simp: drop_key_def settled_def hm_get_insert dest: q split: option.split Phase.split)
  next
    case (Purge now removable)
    then show ?thesis using assms purge_keeps [OF j(2)] by (simp add: settled_def)
  qed
qed

lemma settled_run: "settled h st s \<Longrightarrow> list_all (before (so_created_at st + TTL_SECS)) es \<Longrightarrow> settled h st (fold (idem_step lib) es s)"
  by (induction es arbitrary: s) (simp_all add: settled_step)

section \<open>Properties\<close>

text \<open>What the middleware relies on: base64 decodes what it encoded, a SHA-256 digest has 32 bytes.\<close>

definition lib_laws :: "Lib \<Rightarrow> bool" where
  "lib_laws lib \<longleftrightarrow> (\<forall>b. b64_decode lib (b64_encode lib b) = Some b) \<and> (\<forall>b. length (sha256 lib b) = 32)"

lemma prepare_Keyed:
  assumes "prepare lib rq = Keyed h fp"
  obtains key body where "rq_header rq = Some (Some key)" "is_idempotent_route lib (rq_method rq) (rq_path rq)" "valid_key key"
    "rq_body rq = Some body" "h = key_hash lib (scope rq) (route rq) key" "fp = fingerprint lib (rq_method rq) (rq_path rq) body"
  using assms by (auto simp: prepare_def split: option.split_asm if_split_asm)

lemma prepare_retry:
  assumes "prepare lib rq = Keyed h fp"
  shows "prepare lib (rq\<lparr>rq_body := Some b\<rparr>) = Keyed h (fingerprint lib (rq_method rq) (rq_path rq) b)"
proof (rule prepare_Keyed [OF assms])
  fix key body
  assume "rq_header rq = Some (Some key)" "is_idempotent_route lib (rq_method rq) (rq_path rq)" "valid_key key"
    "h = key_hash lib (scope rq) (route rq) key"
  then show ?thesis by (simp add: prepare_def scope_def route_def cong: option.case_cong)
qed

lemma settled_after_commit:
  assumes "is_hash h" and "hm_get t (im_threads s) = Some (Running h fp)"
    and "\<And>t' ph. t' \<noteq> t \<Longrightarrow> hm_get t' (im_threads s) = Some ph \<Longrightarrow> \<not> busy_with h ph"
    and "is_success lib (hr_status hr)" and "hr_body hr = Some rb"
  shows "settled h (stored_new lib now fp (hr_status hr) (hr_content_type hr) rb)
    (idem_step lib (Commit t Durable stray) (idem_step lib (Respond t hr now) s))"
  using assms by (auto simp: settled_def respond_def commit_def drop_key_def store_def hm_get_insert)

lemma fingerprint_inj:
  assumes "inj_on (sha256 lib) {framed [text_bytes m, text_bytes p, a], framed [text_bytes m, text_bytes p, b]}"
    and "\<forall>x \<in> {text_bytes m, text_bytes p, a, b}. length x < 2 ^ 64"
  shows "fingerprint lib m p a = fingerprint lib m p b \<longleftrightarrow> a = b"
proof -
  have "framed [text_bytes m, text_bytes p, a] = framed [text_bytes m, text_bytes p, b] \<longleftrightarrow> a = b"
    using framed_inj [of "[text_bytes m, text_bytes p, a]" "[text_bytes m, text_bytes p, b]"] assms(2) by simp
  then show ?thesis using assms(1) by (auto simp: fingerprint_def hex_inj inj_on_def)
qed

text \<open>A digest that keeps the last 32 bytes and a codec of one character per byte.\<close>

definition sample_lib :: Lib where
  "sample_lib = \<lparr>sha256 = (\<lambda>b. take 32 (rev b @ replicate 32 0)), b64_encode = map (\<lambda>b. char_of (unat b)),
     b64_decode = (\<lambda>s. Some (text_bytes s)), uuid_ok = (\<lambda>_. True), header_ok = (\<lambda>_. True), status_ok = (\<lambda>_. True),
     is_success = (\<lambda>n. 200 \<le> n \<and> n < 300)\<rparr>"

definition sample_request :: Request where
  "sample_request = \<lparr>rq_method = ''POST'', rq_path = ''/v1/vms'', rq_header = Some (Some ''k1''), rq_tenant = Some ''acme'',
     rq_actor = None, rq_body = Some [1]\<rparr>"

definition sample_response :: HandlerResp where
  "sample_response = \<lparr>hr_status = 201, hr_content_type = Some ''application/json'', hr_body = Some [123, 125]\<rparr>"

definition sample_hash :: string where
  "sample_hash = key_hash sample_lib ''tenant:acme'' ''POST /v1/vms'' ''k1''"

definition sample_fp :: string where
  "sample_fp = fingerprint sample_lib ''POST'' ''/v1/vms'' [1]"

lemma sample_lib_laws: "lib_laws sample_lib"
proof -
  have "text_bytes (map (\<lambda>b. char_of (unat b)) bs) = bs" for bs :: "u8 list"
    using unat_bounds(1) by (induction bs) (simp_all add: text_bytes_def)
  then show ?thesis by (auto simp: lib_laws_def sample_lib_def)
qed

lemma sample_prepare: "prepare sample_lib sample_request = Keyed sample_hash sample_fp"
proof -
  have "is_idempotent_route sample_lib ''POST'' ''/v1/vms''" "valid_key ''k1''" by code_simp+
  then show ?thesis by (simp add: prepare_def sample_request_def scope_def route_def sample_hash_def sample_fp_def)
qed

definition sample_running :: Idem where
  "sample_running = fold (idem_step sample_lib) [Ask 1 sample_request 100 True, Acquire 1] (idem_new \<lparr>id_json = [], id_tmp = []\<rparr>)"

lemma sample_running_threads: "im_threads sample_running = [(1, Running sample_hash sample_fp)]"
  by (simp add: sample_running_def idem_new_def ask_def sample_prepare lookup_def hm_get_def hm_insert_def hm_remove_def acquire_def)

text \<open>
  C9. A retry is answered from the record. Once a request with a key has succeeded and its response is written,
  then for 24 hours, whatever other requests, hangups and purges come between, the same request with
  the same key gets the same status, content type and body back, marked as a replay, and the same key
  with another body is refused with 422; neither reaches the handler. Overlapping requests with
  the same key are excluded, and the digests of the two requests must not collide.
\<close>

theorem idem_retry_replays:
  assumes "lib_laws lib"
    and "inj_on (sha256 lib) {framed [text_bytes (rq_method rq), text_bytes (rq_path rq), body], framed [text_bytes (rq_method rq), text_bytes (rq_path rq), body']}"
    and "\<forall>x \<in> {text_bytes (rq_method rq), text_bytes (rq_path rq), body, body'}. length x < 2 ^ 64"
    and "prepare lib rq = Keyed h fp" and "rq_body rq = Some body"
    and "hm_get t (im_threads s) = Some (Running h fp)"
    and "\<And>t' ph. t' \<noteq> t \<Longrightarrow> hm_get t' (im_threads s) = Some ph \<Longrightarrow> \<not> busy_with h ph"
    and "is_success lib (hr_status hr)" and "status_ok lib (hr_status hr)" and "hr_body hr = Some rb"
    and "\<And>c. hr_content_type hr = Some c \<Longrightarrow> header_ok lib c"
    and "s' = fold (idem_step lib) es (idem_step lib (Commit t Durable stray) (idem_step lib (Respond t hr now) s))"
    and "list_all (before (now + TTL_SECS)) es" and "now' < now + TTL_SECS" and "hm_get t' (im_threads s') = None"
  shows "hm_get t' (im_threads (idem_step lib (Ask t' (rq\<lparr>rq_body := Some body'\<rparr>) now' removable) s')) =
    Some (Answered (if body' = body then Replayed (hr_status hr) (hr_content_type hr) rb
                    else Refused 422 ''Idempotency-Key was already used with a different request''))"
proof -
  let ?st = "stored_new lib now fp (hr_status hr) (hr_content_type hr) rb"
  have c: "so_created_at ?st = now" "so_fingerprint ?st = fp" by (simp_all add: stored_new_def)
  have h: "is_hash h" using assms(1,4) by (auto simp: key_hash_def lib_laws_def is_hash_hex elim: prepare_Keyed)
  have st: "settled h ?st s'" unfolding assms(12)
    by (rule settled_run [OF settled_after_commit [OF h assms(6,7,8,10)]]) (simp_all add: c assms(13))
  have fp: "fp = fingerprint lib (rq_method rq) (rq_path rq) body" using assms(4,5) by (auto elim: prepare_Keyed)
  have "fp = fingerprint lib (rq_method rq) (rq_path rq) body' \<longleftrightarrow> body' = body"
    unfolding fp using fingerprint_inj [OF assms(2,3)] by auto
  then have "lookup h (fingerprint lib (rq_method rq) (rq_path rq) body') now' removable (im_dir s') =
      (if body' = body then Replay ?st else Conflict, im_dir s')"
    using st lookup_settled [of h "im_dir s'" ?st now'] assms(14) by (simp add: settled_def c)
  moreover have "replay lib ?st = Replayed (hr_status hr) (hr_content_type hr) rb"
    using assms(1,9,11) by (auto simp: replay_def stored_new_def stored_body_def lib_laws_def split: option.split)
  ultimately show ?thesis using assms(15) prepare_retry [OF assms(4), of body']
    by (cases "body' = body") (simp_all add: ask_def hm_get_insert)
qed

theorem idem_retry_replays_witness:
  "let s' = idem_step sample_lib (Commit 1 Durable None) (idem_step sample_lib (Respond 1 sample_response 105) sample_running) in
   hm_get 2 (im_threads (idem_step sample_lib (Ask 2 (sample_request\<lparr>rq_body := Some [2]\<rparr>) 160 True) s')) =
     Some (Answered (Refused 422 ''Idempotency-Key was already used with a different request'')) \<and>
   hm_get 3 (im_threads (idem_step sample_lib (Ask 3 (sample_request\<lparr>rq_body := Some [1]\<rparr>) 160 True) s')) =
     Some (Answered (Replayed 201 (Some ''application/json'') [123, 125]))"
proof -
  let ?s' = "idem_step sample_lib (Commit 1 Durable None) (idem_step sample_lib (Respond 1 sample_response 105) sample_running)"
  have t: "hm_get n (im_threads ?s') = None" if "n \<noteq> 1" for n
    using that by (simp add: sample_running_threads hm_get_def respond_def sample_response_def sample_lib_def commit_def drop_key_def hm_insert_def hm_remove_def)
  have inj: "inj_on (sha256 sample_lib) {framed [text_bytes (rq_method sample_request), text_bytes (rq_path sample_request), [1]],
      framed [text_bytes (rq_method sample_request), text_bytes (rq_path sample_request), [b]]}" for b
    by (simp add: inj_on_def sample_lib_def framed_def)
  have len: "\<forall>x \<in> {text_bytes (rq_method sample_request), text_bytes (rq_path sample_request), [1], [b]}. length x < 2 ^ 64" for b
    by (simp add: sample_request_def text_bytes_def)
  have run: "hm_get 1 (im_threads sample_running) = Some (Running sample_hash sample_fp)" "\<And>n. n \<noteq> 1 \<Longrightarrow> hm_get n (im_threads sample_running) = None"
    by (simp_all add: sample_running_threads hm_get_def)
  note r = idem_retry_replays [where lib = sample_lib and rq = sample_request and body = "[1]" and h = sample_hash and fp = sample_fp
      and t = 1 and s = sample_running and hr = sample_response and rb = "[123, 125]" and es = "[]" and stray = None and now = 105 and now' = 160
      and removable = True and s' = ?s']
  have "hm_get n (im_threads (idem_step sample_lib (Ask n (sample_request\<lparr>rq_body := Some [b]\<rparr>) 160 True) ?s')) =
      Some (Answered (if [b] = [1] then Replayed (hr_status sample_response) (hr_content_type sample_response) [123, 125]
        else Refused 422 ''Idempotency-Key was already used with a different request''))" if "n \<noteq> 1" for n b
    by (rule r [OF sample_lib_laws inj len sample_prepare _ run(1) _ _ _ _ _ _ _ _ t [OF that]])
      (simp_all add: sample_request_def sample_response_def sample_lib_def TTL_SECS_def run(2))
  from this [of 2 2] this [of 3 1] show ?thesis by (simp add: sample_response_def Let_def)
qed

text \<open>
  Keys are scoped. Two requests share a record only when they have the same tenant or caller, the same method and
  path, and the same key, as long as their digests do not collide: the lengths hashed with the parts
  keep their boundaries apart. In particular the same key on another route is not a conflict.
\<close>

theorem idem_keys_scoped:
  assumes "inj_on (sha256 lib) {framed [text_bytes a, text_bytes b, text_bytes c], framed [text_bytes a', text_bytes b', text_bytes c']}"
    and "\<forall>x \<in> {a, b, c, a', b', c'}. length x < 2 ^ 64"
  shows "key_hash lib a b c = key_hash lib a' b' c' \<longleftrightarrow> a = a' \<and> b = b' \<and> c = c'"
proof -
  let ?x = "[text_bytes a, text_bytes b, text_bytes c]" let ?y = "[text_bytes a', text_bytes b', text_bytes c']"
  have "\<forall>p \<in> set (?x @ ?y). length p < 2 ^ 64" using assms(2) by (simp add: text_bytes_def)
  then have "framed ?x = framed ?y \<longleftrightarrow> a = a' \<and> b = b' \<and> c = c'"
    using framed_inj [of ?x ?y] by (simp add: text_bytes_inj)
  then show ?thesis using assms(1) by (auto simp: key_hash_def hex_inj inj_on_def)
qed

theorem idem_keys_scoped_witness:
  "key_hash sample_lib ''ab'' ''c'' ''d'' \<noteq> key_hash sample_lib ''a'' ''bc'' ''d''"
proof -
  have "inj_on (sha256 sample_lib) {framed [text_bytes ''ab'', text_bytes ''c'', text_bytes ''d''], framed [text_bytes ''a'', text_bytes ''bc'', text_bytes ''d'']}"
    by (simp add: inj_on_def sample_lib_def framed_def text_bytes_def u64_to_le_def)
  from idem_keys_scoped [OF this] show ?thesis by simp
qed

text \<open>
  No key is with two handlers at once: in every state the threads can reach, two requests that are
  running or recording their response have different keys.
\<close>

theorem idem_one_at_a_time:
  "let s = fold (idem_step lib) es (idem_new d) in
   holds_key s t = Some h \<and> holds_key s t' = Some h \<longrightarrow> t = t'"
proof -
  have "idem_ok (idem_new d)" by (simp add: idem_ok_def idem_new_def holds_key_def hm_get_def)
  then have "idem_ok (fold (idem_step lib) es (idem_new d))" by (rule idem.invar_run)
  then show ?thesis by (auto simp: idem_ok_def Let_def)
qed

theorem idem_one_at_a_time_witness:
  "holds_key (fold (idem_step sample_lib) [Ask 1 sample_request 100 True, Acquire 1] (idem_new \<lparr>id_json = [], id_tmp = []\<rparr>)) 1 = Some sample_hash \<and>
   holds_key (fold (idem_step sample_lib) [Ask 1 sample_request 100 True, Acquire 1] (idem_new \<lparr>id_json = [], id_tmp = []\<rparr>)) 2 \<noteq> Some sample_hash"
proof -
  have "holds_key sample_running 1 = Some sample_hash" by (simp add: holds_key_def sample_running_threads hm_get_def)
  then show ?thesis
    using idem_one_at_a_time [of sample_lib "[Ask 1 sample_request 100 True, Acquire 1]" "\<lparr>id_json = [], id_tmp = []\<rparr>" 1 sample_hash 2]
    unfolding sample_running_def Let_def by auto
qed

text \<open>
  Two overlapping requests with the same key can both run. The lookup comes before the key is taken:
  a duplicate that looks while the first still runs, and takes the key after the first has recorded
  its response and given it back, goes to the handler a second time.
\<close>

theorem idem_duplicate_runs_twice:
  assumes "prepare lib rq = Keyed h fp" and "hm_get h (id_json d) = None"
    and "is_success lib (hr_status hr)" and "hr_body hr = Some rb"
  shows "im_runs (fold (idem_step lib)
      [Ask 1 rq now True, Ask 2 rq now True, Acquire 1, Respond 1 hr now, Commit 1 Durable None, Acquire 2] (idem_new d)) =
    [(2, h), (1, h)]"
proof -
  have "lookup h fp now True d = (Miss, d)" using assms(2) by (simp add: lookup_def)
  then show ?thesis using assms
    by (simp add: idem_new_def ask_def acquire_def respond_def commit_def drop_key_def hm_get_insert hm_get_def [of _ "[]"])
qed

theorem idem_duplicate_runs_twice_witness:
  "im_runs (fold (idem_step sample_lib)
      [Ask 1 sample_request 100 True, Ask 2 sample_request 100 True, Acquire 1, Respond 1 sample_response 100, Commit 1 Durable None, Acquire 2]
      (idem_new \<lparr>id_json = [], id_tmp = []\<rparr>)) = [(2, sample_hash), (1, sample_hash)]"
  by (rule idem_duplicate_runs_twice [OF sample_prepare]) (simp_all add: hm_get_def sample_response_def sample_lib_def)

end
