(* ===== verification/Spec2Isabelle.thy ===== *)
theory Spec2Isabelle
  imports Virtio_Blk Virtio_Net Virtio_Vsock Virtio_Balloon Virtio_Rng Serial Cmos Egress_Proxy Vm_Store Ipam Virtual_Machine Vz_Switch
    Idempotency
begin

text \<open>
  FluxVM runs untrusted guests as virtual machines on one host. This development models the parts of it
  that stand between a guest and the host: the KVM machine monitor of \<^verbatim>\<open>src/crates/fluxvm-hypervisor\<close>, the
  egress proxy and the address manager of \<^verbatim>\<open>fluxvm-network\<close>, the admission rules and credential grants of
  \<^verbatim>\<open>fluxvm-core\<close>, the stores of \<^verbatim>\<open>fluxvm-storage\<close>, the Ethernet switch of \<^verbatim>\<open>fluxvm-vz-switch\<close>, and the
  idempotency keys of \<^verbatim>\<open>fluxvm-scheduler\<close> and \<^verbatim>\<open>fluxvm-api\<close>.

  \<^bold>\<open>Conventions.\<close> Machine integers are words and \<^verbatim>\<open>usize\<close> is a natural number; \<^verbatim>\<open>Result\<close> is a sum with the error on
  the left; a method that changes its object is an \<open>op\<close>, a function from the state to a result and a state;
  a \<^verbatim>\<open>&str\<close> is a \<open>string\<close>; a \<^verbatim>\<open>HashMap\<close> is an association list. Clock readings, random bytes, UUIDs, what the host
  kernel answers to a system call and the functions of third-party crates are arguments. Code
  that runs in several threads is a step function, and its properties are about every
  sequence of steps.

  \<^bold>\<open>Shared layers.\<close>
  \<^item> \<open>Flux_Prelude\<close>: words, little-endian bytes, errors, state operations, and the locale \<open>step_system\<close> that lifts
    an invariant from one step to all runs.
  \<^item> \<open>Rust_Text\<close>, \<open>Rust_Net\<close>, \<open>Rust_Map\<close>: the standard library's strings and number parsing, addresses, and hash maps
    with the files they are kept in; the locale \<open>exclusive_pool\<close> for allocators that never hand out one item twice.
  \<^item> \<open>Guest_Memory\<close> (\<^verbatim>\<open>memory.rs\<close>): bounds-checked guest RAM. The locale \<open>byte_store\<close> states what reads give after
    writes and sequences of writes; RAM is its instance, and everything below that touches guest memory uses it.
  \<^item> \<open>Bus\<close> (\<^verbatim>\<open>bus.rs\<close>): routing of accesses, with the contract \<open>bus_device\<close> that the transport, the serial port, the
    clock, the PCI windows and the whole machine interpret.

  \<^bold>\<open>Devices\<close> (\<^verbatim>\<open>fluxvm-hypervisor/src/devices\<close>).
  \<^item> \<open>Virtqueue\<close> and \<open>Virtio_Mmio\<close> (\<^verbatim>\<open>virtio_mmio.rs\<close>): rings, the register file, reset, queue set-up, feature negotiation
    and configuration space. \<open>Queue_Device\<close> holds the contract every notification handler keeps
    (\<open>queue_device\<close>) and the bound of the loops that serve a ring (\<open>chain_server\<close>).
  \<^item> \<open>Virtio_Blk\<close>, \<open>Virtio_Net\<close>, \<open>Virtio_Vsock\<close>, \<open>Virtio_Balloon\<close>, \<open>Virtio_Rng\<close> (the files of the same names): chain walks,
    request handlers and notify loops. The lemmas give the exact set of chains accepted, that a
    request stays inside its buffers and sectors, that data written is read back, that streams
    are neither lost nor reordered, and that handling ends.
  \<^item> \<open>Rate_Limiter\<close>, \<open>Serial\<close>, \<open>Cmos\<close>: the token bucket over the reals, the UART as a refinement of a bounded queue, and the
    clock against the Gregorian calendar.

  \<^bold>\<open>The machine.\<close>
  \<^item> \<open>Pci\<close> (\<^verbatim>\<open>pci.rs\<close>): configuration space and MSI-X table.
  \<^item> \<open>Vm_Config\<close> (\<^verbatim>\<open>config.rs\<close>): options, validation, and the round trip through the argument parser.
  \<^item> \<open>Firmware_Tables\<close> (\<^verbatim>\<open>mptable.rs\<close>, \<^verbatim>\<open>acpi.rs\<close>): both table sets as bytes, and readers that follow them as a kernel does.
  \<^item> \<open>Boot\<close> (\<^verbatim>\<open>boot.rs\<close>): page tables with the processor's walk, the memory maps, the raw, loader and Windows paths.
  \<^item> \<open>Machine\<close> (\<^verbatim>\<open>vm.rs\<close>, \<^verbatim>\<open>append_virtio_mmio_cmdline\<close>): command line and bus, and that each announced device answers.
  \<^item> \<open>Virtual_Machine\<close> (\<^verbatim>\<open>vm.rs\<close>, \<^verbatim>\<open>NetDatapath\<close> of \<^verbatim>\<open>vhost.rs\<close>): \<^verbatim>\<open>from_boot_config\<close> as a whole, with the choice of network path.
    The theorem below joins these theories: the memory, the tables and the bus of a new machine agree.

  \<^bold>\<open>The control plane.\<close>
  \<^item> \<open>Http_Acl\<close> (\<^verbatim>\<open>http_acl.rs\<close>), \<open>Grants\<close> (\<^verbatim>\<open>grants.rs\<close>) and \<open>Egress_Proxy\<close> (\<^verbatim>\<open>egress_proxy.rs\<close>, \<^verbatim>\<open>transparent.rs\<close>, \<^verbatim>\<open>egress.rs\<close>,
    \<^verbatim>\<open>tls_intercept.rs\<close>): what the rules allow, which credential a sandbox may use, and that the proxy forwards
    only what was judged. The proxy uses the verdicts of the first and the resolution of the second.
  \<^item> \<open>Quota\<close> (\<^verbatim>\<open>policy.rs\<close>, \<^verbatim>\<open>pressure_admission.rs\<close>) and \<open>Vm_Store\<close> (\<^verbatim>\<open>fluxvm-storage/src/lib.rs\<close> and the admission in
    \<^verbatim>\<open>VmManager::create\<close>): the usage ledger is exact over every run with crashes under the stated
    conditions, and warm-pool members are conserved.
  \<^item> \<open>Ipam\<close> (\<^verbatim>\<open>ipam.rs\<close>), \<open>Vz_Switch\<close> (\<^verbatim>\<open>fluxvm-vz-switch/src/lib.rs\<close>), \<open>Idempotency\<close> (both \<^verbatim>\<open>idempotency.rs\<close>): disjoint subnets, isolation of
    switch ports, and replay of recorded answers.

  \<^bold>\<open>Bounds and loops.\<close> No bound is chosen beyond those of the code. Structural recursion covers the loops over lists and
    over the code's own counters: at most 64 hops of a chain, 65 requests of a block notification, the budget of the tap
    pump. The glob matcher, the path decoder, the argument parser, the package-length loop of \<^verbatim>\<open>acpi.rs\<close> and the
    search for a free subnet have termination proofs. Three loops are partial functions whose value is \<open>None\<close> when they do not
    end: the chunk loop of \<^verbatim>\<open>virtio_blk.rs\<close>, which is shown to end for every buffer that is not empty; the transmit loop of \<^verbatim>\<open>virtio_net.rs\<close>,
    which has no bound in the code and is shown to end for separated rings and to run forever for some overlapping
    ones; and the control-queue loop of the same file, of which only the effect is stated, for the
    runs that end.

  \<^bold>\<open>Defects.\<close> Several theorems state what the code does where it should not: the PCI window hides every virtio
    device, overlapping rings hang the transmit loop, a credential follows the wrong host without
    a filter, and a crash can leave a stale ledger. Lemmas named in the component theories state further ones.

  \<^bold>\<open>Not modelled.\<close> The KVM calls, vCPU threads, snapshot, migration, jailer, seccomp and debugger of the
    hypervisor, live vhost rings and opening of taps; image parsing of the \<^verbatim>\<open>linux-loader\<close> crate (a parameter with the
    outcome of loading); sockets, TLS and the HTTP client of the proxy; JSON text (files are what they
    parse to); file locks beyond the serialization they give; log lines and notes. The rest of the
    scheduler with its recovery journal, the API routes, \<^verbatim>\<open>fluxctl\<close>, the drivers of other machine
    monitors, the container runtime, guest agent, image tooling, \<^verbatim>\<open>fluxvm-intelligence\<close>, process sandbox, cgroup and
    Kubernetes crates are left out. Most of that code starts processes and moves bytes between kernel
    interfaces. It also contains pure functions, such as the CPUID topology, the debugger's
    packet codec and the journal's replay, that a later extension could add.
\<close>

section \<open>A machine and its guest memory agree\<close>

text \<open>
  C5. What the guest finds when it starts is one consistent machine. For a valid configuration without PCI whose devices and tap open, and a raw
  kernel and initrd that fit, the machine is built. The page tables the processor starts on map the
  first and the fourth gigabyte to themselves. The kernel is intact at the entry point; the zero page leads to the
  initrd, to the memory map and to a command line that names the window of every virtio device on the bus.
  The MP table is found and lists exactly the processors up to the configured maximum. No
  one of these writes damaged another.
\<close>

theorem booted_machine_consistent:
  assumes "boot_bus h c = Inr b" and "\<not> vc_pci c" and "vc_guest c = Linux" and "open_tap n c (net_pairs h c) = Inr tap" and "refuses ld"
    and "length k \<le> 0x3E00000" and "0 < length r" and "length r < 2 ^ 32" and "0x4000000 + length r \<le> memory_bytes c"
    and "length (vc_cmdline c) < 0x7f000"
  shows "\<exists>vm. from_boot_config h n True now ld (Some (Inr k)) (Some (Inr r)) img c = Inr vm \<and> vmach_bus vm = b \<and>
    (\<forall>va. va < 2 ^ 30 \<or> 3 * 2 ^ 30 \<le> va \<and> va < 4 * 2 ^ 30 \<longrightarrow> walk (vmach_mem vm) PML4 va = Some va) \<and>
    handed_over (vmach_mem vm) (vmach_boot vm) k r (boot_cmdline c) \<and>
    (\<forall>d. VirtioDev d \<in> set (mmio (vmach_bus vm)) \<longrightarrow> advertised (vm_base d) (boot_cmdline c)) \<and>
    mp_found (vmach_mem vm) (unat (vc_max_cpus c))"
proof -
  obtain m where m: "boot_memory ld (Some (Inr k)) (Some (Inr r)) img (c\<lparr>vc_cmdline := boot_cmdline c\<rparr>)
      \<lparr>ram = (\<lambda>_. 0), ram_len = memory_bytes c\<rparr> = (Inr raw_info, m)"
    and t: "tables_in_place m" and hd: "handed_over m raw_info k r (boot_cmdline c)" and mp: "mp_found m (mp_cpus (vc_max_cpus c))"
    using boot_memory_ok [OF raw_fits_boot [OF assms(6-10)] assms(5,3)] by blast
  obtain vm where vm: "from_boot_config h n True now ld (Some (Inr k)) (Some (Inr r)) img c = Inr vm" "vmach_mem vm = m" "vmach_bus vm = b"
    "vmach_boot vm = raw_info"
    by (rule from_boot_config_Inr [OF assms(1) m assms(4)])
  obtain ds where ds: "mmio b = map VirtioDev ds" "map virtio_sig ds = map slot (slots c)" using boot_bus_devices [OF assms(1)] assms(2) by auto
  have "advertised (vm_base d) (boot_cmdline c)" if "VirtioDev d \<in> set (mmio b)" for d
  proof -
    have "virtio_sig d \<in> set (map virtio_sig ds)" using that ds(1) by auto
    then have "virtio_sig d \<in> set (mmio_devs c)" by (simp add: ds(2) mmio_devs_slots)
    then show ?thesis unfolding virtio_sig_def by (rule boot_cmdline_advertises)
  qed
  moreover have "mp_cpus (vc_max_cpus c) = unat (vc_max_cpus c)"
  proof -
    have v: "vc_cpus c \<noteq> 0" "vc_cpus c \<le> vc_max_cpus c" "vc_max_cpus c \<le> 8"
      using assms(1) by (auto simp: boot_bus_def result_simps validate_def not_less split: if_split_asm)
    have "1 \<le> unat (vc_cpus c)" using v(1) unat_eq_0 [of "vc_cpus c"] by linarith
    then show ?thesis using v(2,3) by (simp add: mp_cpus_def max_def min_def word_le_nat_alt)
  qed
  ultimately show ?thesis using vm walk_identity [OF t] hd mp by (intro exI [of _ vm]) simp
qed

theorem booted_machine_consistent_witness:
  "\<exists>vm. from_boot_config (sample_host\<lparr>env_vhost := True\<rparr>) sample_net True 0 sample_loader (Some (Inr [0xf4])) (Some (Inr [7, 8])) None
      sample_vhost = Inr vm \<and> walk (vmach_mem vm) PML4 0xFEB00000 = Some 0xFEB00000 \<and> mp_found (vmach_mem vm) 2"
proof -
  let ?h = "sample_host\<lparr>env_vhost := True\<rparr>" let ?c = "sample_vhost"
  have c: "\<not> vc_pci ?c" "vc_guest ?c = Linux" "0x4000000 + length [7, 8 :: u8] \<le> memory_bytes ?c" "length (vc_cmdline ?c) < 0x7f000"
    "vc_max_cpus ?c = 2"
    by (simp_all add: sample_vhost_def sample_config_def config_default_def memory_bytes_def)
  obtain b where b: "boot_bus ?h ?c = Inr b" using sample_vhost_boots by blast
  have k: "length [0xf4 :: u8] \<le> 0x3E00000" "0 < length [7, 8 :: u8]" "length [7, 8 :: u8] < 2 ^ 32" by simp_all
  obtain vm where vm: "from_boot_config ?h sample_net True 0 sample_loader (Some (Inr [0xf4])) (Some (Inr [7, 8])) None ?c = Inr vm"
    and w: "\<forall>va. va < 2 ^ 30 \<or> 3 * 2 ^ 30 \<le> va \<and> va < 4 * 2 ^ 30 \<longrightarrow> walk (vmach_mem vm) PML4 va = Some va"
    and mp: "mp_found (vmach_mem vm) (unat (vc_max_cpus ?c))"
    using booted_machine_consistent [OF b c(1,2) sample_tap sample_raw(2) k c(3,4)] by blast
  have "walk (vmach_mem vm) PML4 0xFEB00000 = Some 0xFEB00000" by (rule w [rule_format]) simp
  then show ?thesis using vm mp by (intro exI [of _ vm]) (simp add: c(5))
qed

end
